(* ===== verification/Prelude.thy ===== *)
theory Prelude
  imports Main "HOL-Library.Word" "HOL-Library.Multiset"
begin

text \<open>
  Shared vocabulary of the development: the theorem collections the component theories add
  to, C character classes and strings, the events a program writes to its terminal, and
  the list facts more than one component needs.
\<close>

section \<open>Theorem collections\<close>

named_theorems shell_simps \<open>unfolding rules for the interactive shell's definitions\<close>
named_theorems kernel_simps \<open>unfolding rules for the kernel's definitions\<close>

section \<open>Characters and C strings\<close>

text \<open>
  A C string is the list of its bytes before the terminating NUL. The NUL itself never occurs
  in it.
\<close>

definition NUL :: char where
  "NUL = CHR 0x00"

definition c_str :: "string \<Rightarrow> string" where
  "c_str bytes = takeWhile (\<lambda>c. c \<noteq> NUL) bytes"

text \<open>\<open>isspace\<close> of the C locale.\<close>

definition isspace :: "char \<Rightarrow> bool" where
  "isspace c \<longleftrightarrow> c \<in> {CHR '' '', CHR 0x09, CHR 0x0A, CHR 0x0B, CHR 0x0C, CHR 0x0D}"

definition isdigit :: "char \<Rightarrow> bool" where
  "isdigit c \<longleftrightarrow> 48 \<le> (of_char c :: nat) \<and> (of_char c :: nat) \<le> 57"

definition newline :: char where
  "newline = CHR 0x0A"

text \<open>
  What the shell does to its surroundings, in order: text on standard output or standard error,
  \<open>kill(pid, sig)\<close>, \<open>tcsetpgrp\<close> on the terminal, \<open>alarm\<close>.
\<close>

datatype effect = Out string | Err string | Kill int int | Tcsetpgrp int | Alarm int

section \<open>Lists\<close>

lemma c_str_no_NUL [simp]: "NUL \<notin> set (c_str s)"
  by (auto simp: c_str_def dest: set_takeWhileD)

lemma c_str_id: "NUL \<notin> set s \<Longrightarrow> c_str s = s"
  unfolding c_str_def by (induction s) auto

lemma length_c_str_le: "length (c_str s) \<le> length s"
  unfolding c_str_def by (rule length_takeWhile_le)

section \<open>Numbers as text\<close>

text \<open>
  \<open>%d\<close> of \<open>printf\<close>, \<open>atoi\<close> (glibc: \<open>strtol\<close> in base ten, which clamps to a 64-bit
  \<open>long\<close>, cast to a 32-bit \<open>int\<close>) and C's truncating remainder.
\<close>

definition digit :: "nat \<Rightarrow> char" where
  "digit d = char_of (48 + d)"

definition digit_val :: "char \<Rightarrow> nat" where
  "digit_val c = of_char c - 48"

fun show_nat :: "nat \<Rightarrow> string" where
  "show_nat n = (if n < 10 then [digit n] else show_nat (n div 10) @ [digit (n mod 10)])"

declare show_nat.simps [simp del]

definition show_int :: "int \<Rightarrow> string" where
  "show_int i = (if i < 0 then CHR ''-'' # show_nat (nat (- i)) else show_nat (nat i))"

definition digits_val :: "string \<Rightarrow> nat" where
  "digits_val s = foldl (\<lambda>a c. 10 * a + digit_val c) 0 (takeWhile isdigit s)"

definition wrap32 :: "int \<Rightarrow> int" where
  "wrap32 x = (x + 2 ^ 31) mod 2 ^ 32 - 2 ^ 31"

definition clamp64 :: "int \<Rightarrow> int" where
  "clamp64 x = max (- (2 ^ 63)) (min (2 ^ 63 - 1) x)"

definition atoi :: "string \<Rightarrow> int" where
  "atoi s =
     (let t = dropWhile isspace s in
      wrap32 (clamp64
        (case t of
           [] \<Rightarrow> 0
         | c # u \<Rightarrow>
             if c = CHR ''-'' then - int (digits_val u)
             else if c = CHR ''+'' then int (digits_val u)
             else int (digits_val t))))"

definition c_rem :: "int \<Rightarrow> int \<Rightarrow> int" where
  "c_rem a b = sgn a * (\<bar>a\<bar> mod \<bar>b\<bar>)"

text \<open>The test \<open>s[i] < '0' || s[i] > '9'\<close> over a whole string, as the built-ins write it.\<close>

definition all_digits :: "string \<Rightarrow> bool" where
  "all_digits s \<longleftrightarrow> (\<forall>c\<in>set s. isdigit c)"

lemma isdigit_digit [simp]: "d < 10 \<Longrightarrow> isdigit (digit d)"
  by (simp add: isdigit_def digit_def)

lemma digit_val_digit [simp]: "d < 10 \<Longrightarrow> digit_val (digit d) = d"
  by (simp add: digit_val_def digit_def)

lemma not_isspace_digit: "isdigit c \<Longrightarrow> \<not> isspace c"
  by (auto simp: isdigit_def isspace_def)

lemma isdigit_not_sign: "isdigit c \<Longrightarrow> c \<noteq> CHR ''-'' \<and> c \<noteq> CHR ''+''"
  by (auto simp: isdigit_def)

lemma show_nat_digits: "\<forall>c\<in>set (show_nat n). isdigit c"
  by (induction n rule: show_nat.induct) (subst show_nat.simps, auto)

lemma show_nat_nonempty [simp]: "show_nat n \<noteq> []"
  by (subst show_nat.simps) simp

lemma foldl_digits_show_nat:
  "foldl (\<lambda>a c. 10 * a + digit_val c) 0 (show_nat n) = n"
proof (induction n rule: show_nat.induct)
  case (1 n)
  show ?case
  proof (cases "n < 10")
    case True
    then show ?thesis by (subst show_nat.simps) simp
  next
    case False
    with 1 show ?thesis by (subst show_nat.simps) simp
  qed
qed

lemma digits_val_show_nat [simp]:
  assumes "r = [] \<or> \<not> isdigit (hd r)"
  shows "digits_val (show_nat n @ r) = n"
proof -
  have "takeWhile isdigit (show_nat n @ r) = show_nat n"
    using assms show_nat_digits [of n] by (cases r) (auto simp: takeWhile_append)
  then show ?thesis by (simp add: digits_val_def foldl_digits_show_nat)
qed

lemma wrap32_id: "- (2 ^ 31) \<le> x \<Longrightarrow> x < 2 ^ 31 \<Longrightarrow> wrap32 x = x"
  by (simp add: wrap32_def)

lemma clamp64_id: "- (2 ^ 31) \<le> x \<Longrightarrow> x < 2 ^ 31 \<Longrightarrow> clamp64 x = x"
  by (simp add: clamp64_def)

lemma atoi_show_int:
  assumes "- (2 ^ 31) \<le> i" and "i < 2 ^ 31" and "r = [] \<or> \<not> isdigit (hd r)"
  shows "atoi (show_int i @ r) = i"
proof (cases "i < 0")
  case True
  then show ?thesis
    using assms by (simp add: atoi_def show_int_def isspace_def wrap32_id clamp64_id)
next
  case False
  obtain c u where cu: "show_nat (nat i) = c # u" by (cases "show_nat (nat i)") auto
  then have c: "isdigit c" using show_nat_digits [of "nat i"] by auto
  have "digits_val (c # u @ r) = nat i"
    using digits_val_show_nat [OF assms(3), of "nat i"] cu by simp
  then show ?thesis
    using assms False cu c not_isspace_digit [OF c] isdigit_not_sign [OF c]
    by (simp add: atoi_def show_int_def wrap32_id clamp64_id)
qed

section \<open>Bytes and failure\<close>

type_synonym byte = "8 word"

text \<open>Ways not to return: a kernel panic, sleeping, or an access outside an array.\<close>

datatype kerr = Panic string | Blocked | Bounds

definition andthen :: "'e + 'a \<Rightarrow> ('a \<Rightarrow> 'e + 'b) \<Rightarrow> 'e + 'b" where
  "andthen r f = (case r of Inl e \<Rightarrow> Inl e | Inr x \<Rightarrow> f x)"

lemma andthen_simps [simp]: "andthen (Inl e) f = Inl e" "andthen (Inr x) f = f x"
  by (simp_all add: andthen_def)

lemma andthen_Inr_iff: "andthen r f = Inr y \<longleftrightarrow> (\<exists>x. r = Inr x \<and> f x = Inr y)"
  by (cases r) simp_all

section \<open>State machines\<close>

text \<open>
  The states a machine reaches from its start states by its steps. A component shows an
  invariant safe by interpreting \<open>safety\<close> on its own start states and steps.
\<close>

inductive reachable :: "('s \<Rightarrow> bool) \<Rightarrow> ('s \<Rightarrow> 's \<Rightarrow> bool) \<Rightarrow> 's \<Rightarrow> bool"
  for init :: "'s \<Rightarrow> bool" and step :: "'s \<Rightarrow> 's \<Rightarrow> bool"
where
  start: "init s \<Longrightarrow> reachable init step s"
| step: "reachable init step s \<Longrightarrow> step s t \<Longrightarrow> reachable init step t"

locale safety =
  fixes init :: "'s \<Rightarrow> bool"
    and step :: "'s \<Rightarrow> 's \<Rightarrow> bool"
    and inv :: "'s \<Rightarrow> bool"
  assumes init_inv: "init s \<Longrightarrow> inv s"
    and step_inv: "inv s \<Longrightarrow> step s t \<Longrightarrow> inv t"
begin

lemma reachable_inv: "reachable init step s \<Longrightarrow> inv s"
  by (induction rule: reachable.induct) (auto intro: init_inv step_inv)

end

end
