(* ===== verification/Shell_Lexer.thy ===== *)
theory Shell_Lexer
  imports Prelude
begin

text \<open>
  The tokenizer of the interactive shell, \<^verbatim>\<open>c-shell/src/lexer.c\<close> with the types of
  \<^verbatim>\<open>c-shell/include/lexer.h\<close>. A token list stands for the linked list that \<open>convert\<close>
  builds; \<open>scan\<close> is the inner loop that collects one word into the 4096-byte \<open>buffer\<close>, and
  writing past that buffer is the error value \<open>Overflow\<close>. \<open>malloc\<close> and \<open>strdup\<close>
  are taken to succeed, and \<open>freee\<close>, which only returns memory, has no counterpart.
\<close>

section \<open>Tokens\<close>

datatype Types = WORD | PIPE | AND | COLON | LESS | GREATER | GREATER2

record Token =
  tk_type :: Types
  tk_val :: string

datatype lex_error = InvalidSyntax | Overflow

abbreviation mk_token :: "Types \<Rightarrow> string \<Rightarrow> Token" where
  "mk_token ty v \<equiv> \<lparr>tk_type = ty, tk_val = v\<rparr>"

text \<open>\<open>add\<close> appends at the tail of the list.\<close>

definition add :: "Token list \<Rightarrow> Types \<Rightarrow> string \<Rightarrow> Token list" where
  "add toks ty v = toks @ [mk_token ty v]"

section \<open>Collecting one word\<close>

definition BUFSIZE :: nat where
  "BUFSIZE = 4096"

definition backslash :: char where
  "backslash = CHR 0x5C"

definition squote :: char where
  "squote = CHR 0x27"

definition dquote :: char where
  "dquote = CHR 0x22"

definition is_break :: "char \<Rightarrow> bool" where
  "is_break c \<longleftrightarrow> isspace c \<or> c \<in> set ''|&<>;''"

text \<open>
  \<open>buffer[b++] = c\<close> for each byte of \<open>cs\<close> in turn, then the rest of the loop; and the final
  \<open>buffer[b] = 0\<close>.
\<close>

definition put :: "string \<Rightarrow> string \<Rightarrow> (string \<Rightarrow> lex_error + 'a) \<Rightarrow> lex_error + 'a" where
  "put buf cs k = (if length buf + length cs \<le> BUFSIZE then k (buf @ cs) else Inl Overflow)"

definition finish :: "string \<Rightarrow> string \<Rightarrow> lex_error + (string \<times> string)" where
  "finish buf rest = (if length buf < BUFSIZE then Inr (buf, rest) else Inl Overflow)"

fun scan :: "bool \<Rightarrow> bool \<Rightarrow> string \<Rightarrow> string \<Rightarrow> lex_error + (string \<times> string)" where
  "scan singleq doubleq buf [] =
     (if singleq \<or> doubleq then Inl InvalidSyntax else finish buf [])"
| "scan singleq doubleq buf (c # p) =
     (if \<not> singleq \<and> \<not> doubleq \<and> is_break c then finish buf (c # p)
      else if c = backslash \<and> \<not> singleq then
        (case p of
           [] \<Rightarrow> Inl InvalidSyntax
         | d # q \<Rightarrow>
             if doubleq then
               (if d = dquote \<or> d = backslash
                then put buf [d] (\<lambda>buf'. scan singleq doubleq buf' q)
                else put buf [backslash, d] (\<lambda>buf'. scan singleq doubleq buf' q))
             else put buf [d] (\<lambda>buf'. scan singleq doubleq buf' q))
      else if c = squote then
        (if \<not> doubleq then scan (\<not> singleq) doubleq buf p
         else put buf [c] (\<lambda>buf'. scan singleq doubleq buf' p))
      else if c = dquote then
        (if \<not> singleq then scan singleq (\<not> doubleq) buf p
         else put buf [c] (\<lambda>buf'. scan singleq doubleq buf' p))
      else put buf [c] (\<lambda>buf'. scan singleq doubleq buf' p))"

declare scan.simps(2) [simp del]

lemmas scan_step = scan.simps(2)

lemma is_break_backslash [simp]: "\<not> is_break backslash"
  and is_break_squote [simp]: "\<not> is_break squote"
  and is_break_dquote [simp]: "\<not> is_break dquote"
  by (simp_all add: is_break_def isspace_def backslash_def squote_def dquote_def)

lemma quote_chars_distinct [simp]:
  "backslash \<noteq> squote" "squote \<noteq> backslash" "backslash \<noteq> dquote" "dquote \<noteq> backslash"
  "squote \<noteq> dquote" "dquote \<noteq> squote"
  by (simp_all add: backslash_def squote_def dquote_def)

section \<open>The quoting automaton\<close>

text \<open>
  The README's rule for a line is that quotes are closed and no backslash trails. It is stated
  here as a five-state automaton that reads the line once, knowing nothing of tokens.
\<close>

datatype qstate = Plain | PlainEsc | InSingle | InDouble | DoubleEsc

fun qstep :: "qstate \<Rightarrow> char \<Rightarrow> qstate" where
  "qstep Plain c =
     (if c = backslash then PlainEsc else if c = squote then InSingle
      else if c = dquote then InDouble else Plain)"
| "qstep PlainEsc c = Plain"
| "qstep InSingle c = (if c = squote then Plain else InSingle)"
| "qstep InDouble c =
     (if c = backslash then DoubleEsc else if c = dquote then Plain else InDouble)"
| "qstep DoubleEsc c = InDouble"

definition well_quoted :: "string \<Rightarrow> bool" where
  "well_quoted line \<longleftrightarrow> foldl qstep Plain line = Plain"

definition qstate_of :: "bool \<Rightarrow> bool \<Rightarrow> qstate" where
  "qstate_of sq dq = (if sq then InSingle else if dq then InDouble else Plain)"

text \<open>
  One turn of the inner loop, in one of three ways: it ends the word at a break, it fails on a
  trailing backslash, or it reads the one or two bytes \<open>pre\<close>, stores \<open>cs\<close> and goes on in the
  quoting state that the automaton reaches over \<open>pre\<close>.
\<close>

lemma scan_cases:
  assumes "\<not> (sq \<and> dq)"
  obtains (stop) "\<not> sq" "\<not> dq" "is_break c" "scan sq dq buf (c # p) = finish buf (c # p)"
  | (bad) "c = backslash" "\<not> sq" "p = []" "scan sq dq buf (c # p) = Inl InvalidSyntax"
  | (go) pre cs sq' dq' rest where
      "c # p = pre @ rest" "pre \<noteq> []" "length cs \<le> length pre" "\<not> (sq' \<and> dq')"
      "foldl qstep (qstate_of sq dq) pre = qstate_of sq' dq'"
      "scan sq dq buf (c # p) =
         (if cs = [] then scan sq' dq' buf rest else put buf cs (\<lambda>b. scan sq' dq' b rest))"
proof -
  note defs = scan_step qstate_of_def
  consider "\<not> sq \<and> \<not> dq \<and> is_break c" | "c = backslash" "\<not> sq" "p = []"
    | d q where "c = backslash" "\<not> sq" "p = d # q"
    | "c = squote" | "c = dquote" | "c = backslash" "sq"
    | "c \<notin> {backslash, squote, dquote}" "\<not> (\<not> sq \<and> \<not> dq \<and> is_break c)"
    by (cases p) auto
  then show ?thesis
  proof cases
    case 1
    then show ?thesis by (intro stop) (simp_all add: defs)
  next
    case 2
    then show ?thesis by (intro bad) (simp_all add: defs)
  next
    case (3 d q)
    then show ?thesis
      by (intro go [of "[c, d]" q "if dq \<and> d \<noteq> dquote \<and> d \<noteq> backslash then [c, d] else [d]" sq dq])
        (simp_all add: defs)
  next
    case 4
    show ?thesis
      by (rule go [of "[c]" p "if dq then [c] else []" "if dq then sq else \<not> sq" dq])
        (use assms 4 in \<open>cases sq; cases dq; simp add: defs\<close>)+
  next
    case 5
    show ?thesis
      by (rule go [of "[c]" p "if sq then [c] else []" sq "if sq then dq else \<not> dq"])
        (use assms 5 in \<open>cases sq; cases dq; simp add: defs\<close>)+
  next
    case 6
    show ?thesis
      by (rule go [of "[c]" p "[c]" sq dq]) (use assms 6 in \<open>cases sq; cases dq; simp add: defs\<close>)+
  next
    case 7
    show ?thesis
      by (rule go [of "[c]" p "[c]" sq dq]) (use assms 7 in \<open>cases sq; cases dq; simp add: defs\<close>)+
  qed
qed

text \<open>
  What \<open>scan\<close> does to the buffer bound, to the input pointer and to the quoting state, by one
  induction.
\<close>

definition scan_post :: "qstate \<Rightarrow> string \<Rightarrow> string \<Rightarrow> lex_error + string \<times> string \<Rightarrow> bool" where
  "scan_post st buf p r = (case r of
      Inl e \<Rightarrow> (if e = InvalidSyntax then foldl qstep st p \<noteq> Plain
                else BUFSIZE \<le> length buf + length p)
    | Inr x \<Rightarrow> length (fst x) < BUFSIZE \<and> length (snd x) \<le> length p \<and>
        foldl qstep st p = foldl qstep Plain (snd x))"

lemma scan_post_append:
  assumes "scan_post (foldl qstep st pre) (buf @ cs) rest r" and "length cs \<le> length pre"
  shows "scan_post st buf (pre @ rest) r"
  using assms by (cases r) (auto simp: scan_post_def)

lemma scan_spec:
  "\<not> (sq \<and> dq) \<Longrightarrow> scan_post (qstate_of sq dq) buf p (scan sq dq buf p)"
proof (induction p arbitrary: sq dq buf rule: length_induct)
  case (1 p)
  show ?case
  proof (cases p)
    case Nil
    with "1.prems" show ?thesis by (auto simp: finish_def qstate_of_def scan_post_def)
  next
    case (Cons c q)
    from "1.prems" show ?thesis
    proof (cases rule: scan_cases [where c = c and p = q and buf = buf])
      case stop
      with Cons show ?thesis by (simp add: finish_def qstate_of_def scan_post_def)
    next
      case bad
      with Cons show ?thesis by (simp add: qstate_of_def scan_post_def)
    next
      case (go pre cs sq' dq' rest)
      have p: "p = pre @ rest" using go(1) Cons by simp
      with go(2) have "length rest < length p" by simp
      with "1.IH" go(4) have IH: "scan_post (qstate_of sq' dq') b rest (scan sq' dq' b rest)" for b
        by blast
      show ?thesis
      proof (cases "cs = [] \<or> length buf + length cs \<le> BUFSIZE")
        case True
        with go(6) Cons have "scan sq dq buf p = scan sq' dq' (buf @ cs) rest"
          by (auto simp: put_def)
        with IH go(5)
        have "scan_post (foldl qstep (qstate_of sq dq) pre) (buf @ cs) rest (scan sq dq buf p)"
          by simp
        from scan_post_append [OF this go(3)] p show ?thesis by simp
      next
        case False
        with go(6) Cons have "scan sq dq buf p = Inl Overflow" by (simp add: put_def)
        moreover have "BUFSIZE \<le> length buf + length p" using False go(3) p by simp
        ultimately show ?thesis by (simp add: scan_post_def)
      qed
    qed
  qed
qed

lemmas scan_outside = scan_spec [of False False, unfolded qstate_of_def, simplified]

lemma scan_consumes:
  assumes "scan False False buf (c # p) = Inr (w, rest)" and "\<not> is_break c"
  shows "length rest < length (c # p)"
proof -
  have "\<not> (False \<and> False)" by simp
  then show ?thesis
  proof (cases rule: scan_cases [where c = c and p = p and buf = buf])
    case (go pre cs sq' dq' r)
    then obtain b where "scan sq' dq' b r = Inr (w, rest)"
      using assms(1) by (auto simp: put_def split: if_splits)
    with scan_spec [OF go(4), of b r] have "length rest \<le> length r"
      by (simp add: scan_post_def)
    also have "length r < length (c # p)"
      unfolding go(1) using go(2) by simp
    finally show ?thesis .
  qed (use assms in auto)
qed

section \<open>The whole line\<close>

text \<open>
  One turn of the outer loop at the non-NUL position \<open>c # p\<close>: the tokens it adds and where it
  leaves the input pointer.
\<close>

definition next_token :: "char \<Rightarrow> string \<Rightarrow> Token list \<Rightarrow> lex_error + (Token list \<times> string)" where
  "next_token c p toks =
     (if isspace c then Inr (toks, p)
      else if c = CHR ''|'' then Inr (add toks PIPE ''|'', p)
      else if c = CHR ''&'' then Inr (add toks AND ''&'', p)
      else if c = CHR '';'' then Inr (add toks COLON '';'', p)
      else if c = CHR ''<'' then Inr (add toks LESS ''<'', p)
      else if c = CHR ''>'' then
        (case p of
           [] \<Rightarrow> Inr (add toks GREATER ''>'', p)
         | d # q \<Rightarrow>
             if d = CHR ''>'' then Inr (add toks GREATER2 ''>>'', q)
             else Inr (add toks GREATER ''>'', p))
      else
        (case scan False False [] (c # p) of
           Inl e \<Rightarrow> Inl e
         | Inr (w, rest) \<Rightarrow> Inr (add toks WORD w, rest)))"

lemma next_token_shorter:
  "next_token c p toks = Inr (toks', rest) \<Longrightarrow> length rest < length (c # p)"
  by (auto simp: next_token_def is_break_def split: if_splits list.splits sum.splits
      dest!: scan_consumes)

function convert_from :: "Token list \<Rightarrow> string \<Rightarrow> lex_error + Token list" where
  "convert_from toks [] = Inr toks"
| "convert_from toks (c # p) =
     (case next_token c p toks of
        Inl e \<Rightarrow> Inl e
      | Inr (toks', rest) \<Rightarrow> convert_from toks' rest)"
  by pat_completeness auto
termination
  by (relation "measure (\<lambda>(toks, p). length p)") (auto dest!: next_token_shorter)

declare convert_from.simps(2) [simp del]

lemma convert_next:
  "next_token c p toks = Inr (toks', rest) \<Longrightarrow> convert_from toks (c # p) = convert_from toks' rest"
  by (simp add: convert_from.simps(2))

definition convert :: "string \<Rightarrow> lex_error + Token list" where
  "convert input = convert_from [] input"

section \<open>Token well-formedness\<close>

text \<open>The spelling each operator token carries in \<open>val\<close>.\<close>

fun op_text :: "Types \<Rightarrow> string" where
  "op_text WORD = []"
| "op_text PIPE = ''|''"
| "op_text AND = ''&''"
| "op_text COLON = '';''"
| "op_text LESS = ''<''"
| "op_text GREATER = ''>''"
| "op_text GREATER2 = ''>>''"

definition wf_token :: "Token \<Rightarrow> bool" where
  "wf_token t \<longleftrightarrow>
     (if tk_type t = WORD then length (tk_val t) < BUFSIZE else tk_val t = op_text (tk_type t))"

lemma scan_word_fits: "scan False False buf p = Inr (w, rest) \<Longrightarrow> length w < BUFSIZE"
  using scan_outside [of buf p] by (simp add: scan_post_def)

lemma next_token_wf:
  assumes "next_token c p toks = Inr (toks', rest)" and "\<forall>t\<in>set toks. wf_token t"
  shows "\<forall>t\<in>set toks'. wf_token t"
proof -
  have "scan False False [] (c # p) = Inr (w, rest) \<Longrightarrow> wf_token (mk_token WORD w)" for w
    using scan_word_fits [of "[]" "c # p" w rest] by (simp add: wf_token_def)
  moreover have "ty \<noteq> WORD \<Longrightarrow> wf_token (mk_token ty (op_text ty))" for ty
    by (simp add: wf_token_def)
  ultimately show ?thesis
    using assms
    by (auto simp: next_token_def add_def split: if_splits list.splits sum.splits
        simp: wf_token_def)
qed

lemma convert_from_wf:
  "convert_from toks p = Inr ts \<Longrightarrow> \<forall>t\<in>set toks. wf_token t \<Longrightarrow> \<forall>t\<in>set ts. wf_token t"
proof (induction toks p rule: convert_from.induct)
  case (1 toks)
  then show ?case by simp
next
  case (2 toks c p)
  then obtain toks' rest where
    n: "next_token c p toks = Inr (toks', rest)" and r: "convert_from toks' rest = Inr ts"
    by (auto simp: convert_from.simps(2) split: sum.splits)
  from n "2.prems"(2) have "\<forall>t\<in>set toks'. wf_token t" by (rule next_token_wf)
  with "2.IH" [OF n refl r] show ?case .
qed

section \<open>Which lines are rejected\<close>

lemma next_token_post:
  "case next_token c p toks of
     Inl e \<Rightarrow> (if e = InvalidSyntax then foldl qstep Plain (c # p) \<noteq> Plain
               else BUFSIZE \<le> length (c # p))
   | Inr x \<Rightarrow> foldl qstep Plain (c # p) = foldl qstep Plain (snd x)"
proof (cases "is_break c")
  case True
  then have "c \<noteq> backslash" "c \<noteq> squote" "c \<noteq> dquote" by auto
  moreover have "CHR ''>'' \<noteq> backslash" "CHR ''>'' \<noteq> squote" "CHR ''>'' \<noteq> dquote"
    by (simp_all add: backslash_def squote_def dquote_def)
  ultimately have "qstep Plain c = Plain" and "qstep Plain (CHR ''>'') = Plain" by simp_all
  moreover from True
  have "\<exists>ts r. next_token c p toks = Inr (ts, r) \<and> (r = p \<or> p = CHR ''>'' # r)"
    by (cases p) (auto simp: next_token_def is_break_def)
  ultimately show ?thesis by (auto simp del: qstep.simps)
next
  case False
  then have "next_token c p toks = (case scan False False [] (c # p) of
      Inl e \<Rightarrow> Inl e | Inr (w, rest) \<Rightarrow> Inr (add toks WORD w, rest))"
    by (simp add: next_token_def is_break_def)
  then show ?thesis
    using scan_outside [of "[]" "c # p"]
    by (cases "scan False False [] (c # p)")
      (simp_all add: scan_post_def split: prod.splits if_splits del: foldl_Cons)
qed

lemma convert_from_rejects:
  "length p < BUFSIZE \<Longrightarrow>
   (case convert_from toks p of
      Inl e \<Rightarrow> e = InvalidSyntax \<and> \<not> well_quoted p
    | Inr ts \<Rightarrow> well_quoted p)"
proof (induction toks p rule: convert_from.induct)
  case (1 toks)
  then show ?case by (simp add: well_quoted_def)
next
  case (2 toks c p)
  show ?case
  proof (cases "next_token c p toks")
    case (Inl e)
    with next_token_post [of c p toks] "2.prems" show ?thesis
      by (cases e) (auto simp: well_quoted_def convert_from.simps(2))
  next
    case (Inr x)
    obtain toks' rest where x: "x = (toks', rest)" by (cases x)
    with Inr next_token_shorter have "length rest < length (c # p)" by blast
    with "2.prems" have "length rest < BUFSIZE" by simp
    with "2.IH" [OF Inr x [symmetric]]
    have IH: "case convert_from toks' rest of
        Inl e \<Rightarrow> e = InvalidSyntax \<and> \<not> well_quoted rest | Inr ts \<Rightarrow> well_quoted rest" .
    have "well_quoted (c # p) = well_quoted rest"
      using next_token_post [of c p toks] Inr x by (simp add: well_quoted_def)
    with IH Inr x show ?thesis by (simp add: convert_next split: sum.splits)
  qed
qed



section \<open>Quoted text reads back\<close>

text \<open>
  A word written as a sequence of segments: a plain byte, an escaped byte, single-quoted text, or
  double-quoted text in which \<open>"\<close> and the backslash are escaped.
\<close>

datatype seg = Raw char | Escaped char | Single string | Double string

fun seg_ok :: "seg \<Rightarrow> bool" where
  "seg_ok (Raw c) \<longleftrightarrow> \<not> is_break c \<and> c \<noteq> backslash \<and> c \<noteq> squote \<and> c \<noteq> dquote"
| "seg_ok (Escaped c) \<longleftrightarrow> True"
| "seg_ok (Single s) \<longleftrightarrow> squote \<notin> set s"
| "seg_ok (Double s) \<longleftrightarrow> True"

fun seg_text :: "seg \<Rightarrow> string" where
  "seg_text (Raw c) = [c]"
| "seg_text (Escaped c) = [c]"
| "seg_text (Single s) = s"
| "seg_text (Double s) = s"

fun dq_escape :: "string \<Rightarrow> string" where
  "dq_escape [] = []"
| "dq_escape (c # s) = (if c = dquote \<or> c = backslash then [backslash, c] else [c]) @ dq_escape s"

fun render_seg :: "seg \<Rightarrow> string" where
  "render_seg (Raw c) = [c]"
| "render_seg (Escaped c) = [backslash, c]"
| "render_seg (Single s) = squote # s @ [squote]"
| "render_seg (Double s) = dquote # dq_escape s @ [dquote]"

definition segs_text :: "seg list \<Rightarrow> string" where
  "segs_text gs = concat (map seg_text gs)"

definition render_segs :: "seg list \<Rightarrow> string" where
  "render_segs gs = concat (map render_seg gs)"

lemma scan_single:
  "squote \<notin> set s \<Longrightarrow> length buf + length s \<le> BUFSIZE \<Longrightarrow>
   scan True False buf (s @ squote # p) = scan False False (buf @ s) p"
proof (induction s arbitrary: buf)
  case Nil
  then show ?case by (simp add: scan_step)
next
  case (Cons c s)
  then show ?case by (auto simp: scan_step put_def)
qed

lemma scan_double:
  "length buf + length s \<le> BUFSIZE \<Longrightarrow>
   scan False True buf (dq_escape s @ dquote # p) = scan False False (buf @ s) p"
proof (induction s arbitrary: buf)
  case Nil
  then show ?case by (simp add: scan_step)
next
  case (Cons c s)
  then show ?case by (auto simp: scan_step put_def)
qed

lemma scan_seg:
  assumes "seg_ok g" and "length buf + length (seg_text g) \<le> BUFSIZE"
  shows "scan False False buf (render_seg g @ p) = scan False False (buf @ seg_text g) p"
  using assms
proof (cases g)
  case (Single s)
  have "scan False False buf (render_seg g @ p) = scan True False buf (s @ squote # p)"
    by (simp add: Single scan_step)
  then show ?thesis using Single assms by (simp add: scan_single)
next
  case (Double s)
  have "scan False False buf (render_seg g @ p) = scan False True buf (dq_escape s @ dquote # p)"
    by (simp add: Double scan_step)
  then show ?thesis using Double assms by (simp add: scan_double)
qed (simp_all add: scan_step put_def)

lemma scan_segs:
  "\<forall>g\<in>set gs. seg_ok g \<Longrightarrow> length buf + length (segs_text gs) \<le> BUFSIZE \<Longrightarrow>
   scan False False buf (render_segs gs @ p) = scan False False (buf @ segs_text gs) p"
proof (induction gs arbitrary: buf)
  case Nil
  then show ?case by (simp add: render_segs_def segs_text_def)
next
  case (Cons g gs)
  then show ?case
    using scan_seg [of g buf "render_segs gs @ p"]
    by (simp add: render_segs_def segs_text_def)
qed

text \<open>A line: words and operators, each followed by some white space.\<close>

datatype item = Word "seg list" | Oper Types

fun item_ok :: "item \<Rightarrow> bool" where
  "item_ok (Word gs) \<longleftrightarrow>
     gs \<noteq> [] \<and> (\<forall>g\<in>set gs. seg_ok g) \<and> length (segs_text gs) < BUFSIZE"
| "item_ok (Oper ty) \<longleftrightarrow> ty \<noteq> WORD"

fun item_token :: "item \<Rightarrow> Token" where
  "item_token (Word gs) = mk_token WORD (segs_text gs)"
| "item_token (Oper ty) = mk_token ty (op_text ty)"

fun render_item :: "item \<Rightarrow> string" where
  "render_item (Word gs) = render_segs gs"
| "render_item (Oper ty) = op_text ty"

definition blank :: "string \<Rightarrow> bool" where
  "blank ws \<longleftrightarrow> ws \<noteq> [] \<and> (\<forall>c\<in>set ws. isspace c)"

definition render_line :: "(item \<times> string) list \<Rightarrow> string" where
  "render_line items = concat (map (\<lambda>(i, ws). render_item i @ ws) items)"

lemma convert_from_blank:
  "\<forall>c\<in>set ws. isspace c \<Longrightarrow> convert_from toks (ws @ p) = convert_from toks p"
  by (induction ws) (auto simp: next_token_def convert_next)

lemma render_segs_start:
  assumes "gs \<noteq> []" and "\<forall>g\<in>set gs. seg_ok g"
  obtains c p where "render_segs gs = c # p" and "\<not> is_break c"
proof -
  obtain g gs' where gs: "gs = g # gs'" using assms(1) by (cases gs) auto
  with assms(2) have "seg_ok g" by simp
  with gs that show ?thesis by (cases g) (auto simp: render_segs_def)
qed

lemma scan_word_at_blank:
  assumes "item_ok (Word gs)" and "isspace s"
  shows "scan False False [] (render_segs gs @ s # p) = Inr (segs_text gs, s # p)"
  using assms scan_segs [of gs "[]" "s # p"]
  by (simp add: scan_step is_break_def finish_def)

lemma convert_from_item:
  assumes ok: "item_ok i" and s: "isspace s"
  shows "convert_from toks (render_item i @ s # p) = convert_from (toks @ [item_token i]) (s # p)"
proof (cases i)
  case (Word gs)
  with ok have "gs \<noteq> []" and "\<forall>g\<in>set gs. seg_ok g" by auto
  then obtain c q where r: "render_segs gs = c # q" and c: "\<not> is_break c"
    by (rule render_segs_start)
  have "scan False False [] (c # q @ s # p) = Inr (segs_text gs, s # p)"
    using scan_word_at_blank [of gs s p] ok s Word r by simp
  with c have "next_token c (q @ s # p) toks = Inr (add toks WORD (segs_text gs), s # p)"
    by (auto simp: next_token_def is_break_def)
  with r Word show ?thesis by (simp add: add_def convert_next)
next
  case (Oper ty)
  have "s \<noteq> CHR ''>''" using s by (auto simp: isspace_def)
  with Oper ok have "\<exists>c q. op_text ty @ s # p = c # q \<and>
      next_token c q toks = Inr (toks @ [mk_token ty (op_text ty)], s # p)"
    by (cases ty) (simp_all add: next_token_def add_def isspace_def)
  with Oper show ?thesis by (auto simp: convert_next)
qed

lemma convert_from_line:
  "\<forall>(i, ws)\<in>set items. item_ok i \<and> blank ws \<Longrightarrow>
   convert_from toks (render_line items) = Inr (toks @ map (item_token \<circ> fst) items)"
proof (induction items arbitrary: toks)
  case Nil
  then show ?case by (simp add: render_line_def)
next
  case (Cons x items)
  obtain i sws where "x = (i, sws)" by (cases x)
  with Cons.prems have "item_ok i" "blank sws" by auto
  then obtain s ws where "sws = s # ws" and ok: "item_ok i" "isspace s" "\<forall>c\<in>set ws. isspace c"
    by (cases sws) (auto simp: blank_def)
  with \<open>x = (i, sws)\<close> have x: "x = (i, s # ws)" by simp
  have IH: "convert_from toks' (render_line items) = Inr (toks' @ map (item_token \<circ> fst) items)"
    for toks'
    using Cons.prems by (intro Cons.IH) auto
  have "convert_from toks (render_line (x # items))
      = convert_from toks (render_item i @ s # (ws @ render_line items))"
    by (simp add: x render_line_def)
  also have "\<dots> = convert_from (toks @ [item_token i]) ((s # ws) @ render_line items)"
    using convert_from_item [OF ok(1,2), of toks "ws @ render_line items"] by simp
  also have "\<dots> = convert_from (toks @ [item_token i]) (render_line items)"
    using ok by (intro convert_from_blank) auto
  finally show ?case by (simp add: IH x)
qed

text \<open>
  C12. Quoting round trip. Any sequence of words and operators, each word written as plain,
  backslash-escaped, single-quoted and double-quoted segments in any mixture and each item
  followed by white space, is read back as exactly those tokens, the segments of a word joined.
\<close>

theorem convert_render_line:
  assumes "\<forall>(i, ws)\<in>set items. item_ok i \<and> blank ws"
  shows "convert (render_line items) = Inr (map (item_token \<circ> fst) items)"
  using convert_from_line [OF assms, of "[]"] by (simp add: convert_def)


lemma convert_example: "convert ''ls|wc'' = Inr [mk_token WORD ''ls'', mk_token PIPE ''|'', mk_token WORD ''wc'']"
  by (simp add: convert_def convert_from.simps(2) next_token_def scan_step isspace_def is_break_def
      backslash_def squote_def dquote_def put_def finish_def add_def BUFSIZE_def)


theorem convert_render_line_witness:
  "convert (render_line [(Word [Raw (CHR ''a''), Double '' b''], '' ''), (Oper PIPE, '' ''), (Word [Single []], '' '')])
     = Inr [mk_token WORD ''a b'', mk_token PIPE ''|'', mk_token WORD []]"
proof -
  let ?items = "[(Word [Raw (CHR ''a''), Double '' b''], '' ''), (Oper PIPE, '' ''), (Word [Single []], '' '')]"
  have "\<forall>(i, ws)\<in>set ?items. item_ok i \<and> blank ws"
    by (simp add: segs_text_def blank_def isspace_def is_break_def backslash_def squote_def
        dquote_def BUFSIZE_def)
  from convert_render_line [OF this] show ?thesis by (simp add: segs_text_def)
qed

end
