(* ===== verification/Shell_Grammar.thy ===== *)
theory Shell_Grammar
  imports Shell_Lexer
begin

text \<open>
  The syntax check of the shell, \<^verbatim>\<open>c-shell/src/grammar.c\<close>, against a grammar of command
  lines: words, joined by operators, with an optional final \<open>&\<close>.
\<close>

section \<open>The check\<close>

text \<open>The loop over \<open>curr\<close>; the head of the list is \<open>curr\<close>, \<open>[]\<close> is the null pointer.\<close>

fun check_from :: "Token list \<Rightarrow> bool" where
  "check_from [] = True"
| "check_from (cur # nxt) =
     (if tk_type cur = AND then
        (if nxt \<noteq> [] \<and> tk_type (hd nxt) \<noteq> WORD then False else check_from nxt)
      else if tk_type cur = WORD then check_from nxt
      else if nxt = [] \<or> tk_type (hd nxt) \<noteq> WORD then False
      else check_from nxt)"

definition check :: "Token list \<Rightarrow> bool" where
  "check head =
     (case head of
        [] \<Rightarrow> True
      | t # nxt \<Rightarrow> if tk_type t \<noteq> WORD then False else check_from nxt)"

section \<open>The grammar\<close>

text \<open>
  A command is a non-empty run of words, a pipeline or sequence is commands joined by single
  operators, and a line is empty, a sequence, or a sequence with a final \<open>&\<close>.
\<close>

inductive command :: "Types list \<Rightarrow> bool" where
  word: "command [WORD]"
| words: "command ts \<Longrightarrow> command (WORD # ts)"

inductive seqn :: "Types list \<Rightarrow> bool" where
  one: "command ts \<Longrightarrow> seqn ts"
| join: "command ts \<Longrightarrow> op \<noteq> WORD \<Longrightarrow> seqn us \<Longrightarrow> seqn (ts @ op # us)"

inductive cmdline :: "Types list \<Rightarrow> bool" where
  empty: "cmdline []"
| plain: "seqn ts \<Longrightarrow> cmdline ts"
| background: "seqn ts \<Longrightarrow> cmdline (ts @ [AND])"

text \<open>\<open>tail_ok\<close> is what may follow a word.\<close>

definition tail_ok :: "Types list \<Rightarrow> bool" where
  "tail_ok ts \<longleftrightarrow> seqn (WORD # ts) \<or> (\<exists>us. ts = us @ [AND] \<and> seqn (WORD # us))"

lemma command_starts: "command ts \<Longrightarrow> \<exists>us. ts = WORD # us"
  by (induction rule: command.induct) auto

lemma seqn_starts: "seqn ts \<Longrightarrow> \<exists>us. ts = WORD # us"
  by (induction rule: seqn.induct) (auto dest: command_starts)

lemma seqn_word: "seqn ts \<Longrightarrow> seqn (WORD # ts)"
proof (induction rule: seqn.induct)
  case (one ts)
  then show ?case by (intro seqn.one command.words)
next
  case (join ts op us)
  then show ?case using seqn.join [of "WORD # ts" op us] by (simp add: command.words)
qed

lemma seqn_op: "op \<noteq> WORD \<Longrightarrow> seqn (WORD # ts) \<Longrightarrow> seqn (WORD # op # WORD # ts)"
  using seqn.join [of "[WORD]" op "WORD # ts"] by (simp add: command.word)

lemma seqn_Cons_cases:
  assumes "seqn (WORD # ts)"
  shows "ts = [] \<or> (\<exists>us. ts = WORD # us \<and> seqn ts) \<or>
    (\<exists>op us. op \<noteq> WORD \<and> ts = op # WORD # us \<and> seqn (WORD # us))"
  using assms
proof (cases rule: seqn.cases)
  case one
  then show ?thesis by (auto elim: command.cases intro: seqn.one dest: command_starts)
next
  case (join cs op us)
  from join(2) show ?thesis
  proof (cases rule: command.cases)
    case word
    with join show ?thesis by (auto dest: seqn_starts)
  next
    case (words cs')
    with join have "ts = cs' @ op # us" by simp
    with words join show ?thesis by (auto intro: seqn.join dest: command_starts)
  qed
qed

lemma tail_ok_Nil [simp]: "tail_ok []"
  by (simp add: tail_ok_def seqn.one command.word)

lemma tail_ok_WORD [simp]: "tail_ok (WORD # ts) \<longleftrightarrow> tail_ok ts"
proof
  assume "tail_ok (WORD # ts)"
  then consider "seqn (WORD # WORD # ts)"
    | us where "WORD # ts = us @ [AND]" "seqn (WORD # us)"
    by (auto simp: tail_ok_def)
  then show "tail_ok ts"
  proof cases
    case 1
    then show ?thesis using seqn_Cons_cases by (fastforce simp: tail_ok_def)
  next
    case (2 us)
    then obtain vs where "us = WORD # vs" "ts = vs @ [AND]" by (cases us) auto
    with 2(2) show ?thesis using seqn_Cons_cases [of us] by (auto simp: tail_ok_def)
  qed
next
  assume "tail_ok ts"
  then show "tail_ok (WORD # ts)"
    unfolding tail_ok_def by (metis append_Cons seqn_word)
qed

lemma tail_ok_op:
  assumes "op \<noteq> WORD"
  shows "tail_ok (op # ts) \<longleftrightarrow> (op = AND \<and> ts = []) \<or> (\<exists>us. ts = WORD # us \<and> tail_ok us)"
proof
  assume "tail_ok (op # ts)"
  then consider "seqn (WORD # op # ts)"
    | us where "op # ts = us @ [AND]" "seqn (WORD # us)"
    by (auto simp: tail_ok_def)
  then show "(op = AND \<and> ts = []) \<or> (\<exists>us. ts = WORD # us \<and> tail_ok us)"
  proof cases
    case 1
    with assms show ?thesis using seqn_Cons_cases [of "op # ts"] by (auto simp: tail_ok_def)
  next
    case (2 us)
    show ?thesis
    proof (cases us)
      case Nil
      with 2 show ?thesis by simp
    next
      case (Cons u vs)
      with 2 have "u = op" "ts = vs @ [AND]" by auto
      with assms 2(2) Cons seqn_Cons_cases [of us] show ?thesis by (auto simp: tail_ok_def)
    qed
  qed
next
  assume "(op = AND \<and> ts = []) \<or> (\<exists>us. ts = WORD # us \<and> tail_ok us)"
  then show "tail_ok (op # ts)"
  proof (elim disjE exE conjE)
    assume "op = AND" "ts = []"
    then show ?thesis by (simp add: tail_ok_def seqn.one command.word)
  next
    fix us assume ts: "ts = WORD # us" and "tail_ok us"
    then consider "seqn (WORD # us)" | vs where "us = vs @ [AND]" "seqn (WORD # vs)"
      by (auto simp: tail_ok_def)
    then show ?thesis
    proof cases
      case 1
      with assms ts show ?thesis by (auto simp: tail_ok_def intro: seqn_op)
    next
      case (2 vs)
      then have "op # ts = (op # WORD # vs) @ [AND]" using ts by simp
      with seqn_op [OF assms 2(2)] show ?thesis unfolding tail_ok_def by blast
    qed
  qed
qed

lemma check_from_tail_ok: "check_from ts \<longleftrightarrow> tail_ok (map tk_type ts)"
proof (induction ts)
  case Nil
  then show ?case by simp
next
  case (Cons t ts)
  show ?case
  proof (cases "tk_type t = WORD")
    case True
    with Cons show ?thesis by simp
  next
    case False
    with Cons show ?thesis by (cases ts) (auto simp: tail_ok_op)
  qed
qed

text \<open>
  C11. The syntax check accepts a token list exactly when its token types form a command line of
  the grammar: it is empty, or commands joined by single operators, possibly closed by \<open>&\<close>.
\<close>

theorem check_iff_cmdline: "check ts \<longleftrightarrow> cmdline (map tk_type ts)"
proof (cases ts)
  case Nil
  then show ?thesis by (simp add: check_def cmdline.empty)
next
  case (Cons t us)
  show ?thesis
  proof (cases "tk_type t = WORD")
    case True
    have "tail_ok (map tk_type us) \<longleftrightarrow> cmdline (map tk_type ts)"
      unfolding tail_ok_def
      by (auto simp: Cons True cmdline.simps Cons_eq_append_conv append_eq_Cons_conv
          dest: seqn_starts)
    then show ?thesis by (simp add: check_def Cons True check_from_tail_ok)
  next
    case False
    then have "\<not> cmdline (map tk_type ts)"
      by (auto simp: Cons cmdline.simps append_eq_Cons_conv Cons_eq_append_conv dest: seqn_starts)
    then show ?thesis by (simp add: check_def Cons False)
  qed
qed

end
