(* ===== verification/Shell_Jobs.thy ===== *)
theory Shell_Jobs
  imports Prelude
begin

text \<open>
  Job control of the shell, \<^verbatim>\<open>c-shell/src/activities.c\<close> up to \<open>ping\<close>: the table \<open>jobs\<close>,
  the bookkeeping of \<open>waitpid\<close> results, the reports to the user, and the built-ins
  \<open>activities\<close>, \<open>resume\<close> and \<open>ping\<close>.

  The operating system is an argument of the operations. A call \<open>update_state(-1, 0)\<close> polls
  \<open>waitpid(-1, &status, WNOHANG|WUNTRACED|WCONTINUED)\<close> until it returns no pid; its successive results are
  the list \<open>reports\<close>. A blocking \<open>waitpid\<close> of \<open>resume\<close> is one \<open>wait_ev\<close>: what the
  signal handlers did while it blocked, and what it returned. \<open>prs\<close> holds the \<open>num\<close>
  processes of a job, so \<open>num\<close> is its length.
\<close>

section \<open>The job table\<close>

record process =
  p_pid :: int
  p_name :: string
  p_state :: int
  p_exit :: int
  p_printed :: int

record job =
  j_id :: int
  j_bg :: int
  j_active :: int
  j_pgid :: int
  j_prs :: "process list"
  j_cmd :: string

record jobs_state =
  jobs :: "job list"
  timed_out :: bool

type_synonym report = "int \<times> int"

section \<open>Wait statuses\<close>

text \<open>The macros of \<^verbatim>\<open>sys/wait.h\<close>.\<close>

definition WIFEXITED :: "int \<Rightarrow> bool" where
  "WIFEXITED s \<longleftrightarrow> s mod 128 = 0"

definition schar :: "int \<Rightarrow> int" where
  "schar x = (if x mod 256 < 128 then x mod 256 else x mod 256 - 256)"

definition WIFSIGNALED :: "int \<Rightarrow> bool" where
  "WIFSIGNALED s \<longleftrightarrow> schar (s mod 128 + 1) div 2 > 0"

definition WIFSTOPPED :: "int \<Rightarrow> bool" where
  "WIFSTOPPED s \<longleftrightarrow> s mod 256 = 127"

definition WIFCONTINUED :: "int \<Rightarrow> bool" where
  "WIFCONTINUED s \<longleftrightarrow> s = 65535"

lemma WIFSIGNALED_iff: "WIFSIGNALED s \<longleftrightarrow> 0 < s mod 128 \<and> s mod 128 < 127"
proof -
  have "0 \<le> s mod 128" "s mod 128 < 128" by simp_all
  moreover define t where "t = s mod 128"
  ultimately have "0 \<le> t" "t < 128" by simp_all
  then have "(t + 1) mod 256 = t + 1" by simp
  with \<open>0 \<le> t\<close> \<open>t < 128\<close> show ?thesis
    unfolding WIFSIGNALED_def schar_def t_def [symmetric] by (auto simp: zdiv_int)
qed

lemma WIFSTOPPED_mod: "WIFSTOPPED s \<Longrightarrow> s mod 128 = 127"
  using mod_mod_cancel [of 128 256 s] by (simp add: WIFSTOPPED_def)

lemma status_exclusive:
  "WIFEXITED s \<Longrightarrow> \<not> WIFSIGNALED s \<and> \<not> WIFSTOPPED s \<and> \<not> WIFCONTINUED s"
  "WIFSIGNALED s \<Longrightarrow> \<not> WIFSTOPPED s \<and> \<not> WIFCONTINUED s"
  "WIFSTOPPED s \<Longrightarrow> \<not> WIFCONTINUED s"
  using WIFSTOPPED_mod [of s]
  by (auto simp: WIFSIGNALED_iff WIFEXITED_def WIFCONTINUED_def WIFSTOPPED_def)

section \<open>Recording a status\<close>

definition apply_status :: "int \<Rightarrow> process \<Rightarrow> process" where
  "apply_status status p =
     (if WIFEXITED status then p\<lparr>p_state := 2, p_exit := 1\<rparr>
      else if WIFSIGNALED status then p\<lparr>p_state := 2, p_exit := 0\<rparr>
      else if WIFSTOPPED status then p\<lparr>p_state := 1\<rparr>
      else if WIFCONTINUED status then p\<lparr>p_state := 0\<rparr>
      else p)"

definition update_job :: "int \<Rightarrow> int \<Rightarrow> job \<Rightarrow> job" where
  "update_job pid status j =
     (if j_active j = 0 then j
      else
        let j' = j\<lparr>j_prs := map (\<lambda>p. if p_pid p = pid then apply_status status p else p) (j_prs j)\<rparr>
        in if list_ex (\<lambda>p. p_state p \<noteq> 2) (j_prs j') then j' else j'\<lparr>j_active := 0\<rparr>)"

definition update_table :: "int \<Rightarrow> int \<Rightarrow> job list \<Rightarrow> job list" where
  "update_table pid status js = map (update_job pid status) js"

fun reap :: "report list \<Rightarrow> job list \<Rightarrow> job list" where
  "reap [] js = js"
| "reap ((pid, status) # reports) js =
     (if pid > 0 then reap reports (update_table pid status js) else js)"

definition update_state :: "int \<Rightarrow> int \<Rightarrow> report list \<Rightarrow> jobs_state \<Rightarrow> jobs_state" where
  "update_state in_pid in_status reports s =
     (if in_pid > 0 then s\<lparr>jobs := update_table in_pid in_status (jobs s)\<rparr>
      else s\<lparr>jobs := reap reports (jobs s)\<rparr>)"

text \<open>The \<open>SIGCHLD\<close> handler, which also saves and restores \<open>errno\<close>, and the \<open>SIGALRM\<close> handler.\<close>

definition sigchld :: "report list \<Rightarrow> jobs_state \<Rightarrow> jobs_state" where
  "sigchld reports s = update_state (-1) 0 reports s"

definition sigalrm_handler :: "jobs_state \<Rightarrow> jobs_state" where
  "sigalrm_handler s = s\<lparr>timed_out := True\<rparr>"

section \<open>Reports to the user\<close>

definition exit_line :: "process \<Rightarrow> string" where
  "exit_line p =
     p_name p @ '' with pid '' @ show_int (p_pid p) @
     (if p_exit p \<noteq> 0 then '' exited normally'' else '' exited abnormally'') @ [newline]"

definition print_process :: "process \<Rightarrow> effect list \<times> process" where
  "print_process p =
     (if p_state p = 2 \<and> p_printed p = 0 then ([Out (exit_line p)], p\<lparr>p_printed := 1\<rparr>)
      else ([], p))"

definition print_job :: "job \<Rightarrow> effect list \<times> job" where
  "print_job j =
     (if j_bg j \<noteq> 0 then
        (let rs = map print_process (j_prs j)
         in (concat (map fst rs), j\<lparr>j_prs := map snd rs\<rparr>))
      else ([], j))"

definition print_prs :: "report list \<Rightarrow> jobs_state \<Rightarrow> effect list \<times> jobs_state" where
  "print_prs reports s =
     (let s' = update_state (-1) 0 reports s; rs = map print_job (jobs s')
      in (concat (map fst rs), s'\<lparr>jobs := map snd rs\<rparr>))"

definition activity_line :: "process \<Rightarrow> effect list" where
  "activity_line p =
     (if p_state p \<noteq> 2 then
        [Out (''  '' @ show_int (p_pid p) @ '' '' @ p_name p @
           (if p_state p = 0 then '' Running'' else '' Stopped'') @ [newline])]
      else [])"

definition activity_lines :: "job \<Rightarrow> effect list" where
  "activity_lines j =
     (if j_active j = 0 \<or> \<not> list_ex (\<lambda>p. p_state p \<noteq> 2) (j_prs j) then []
      else Out (''['' @ show_int (j_id j) @ ''] pgid '' @ show_int (j_pgid j) @ [newline])
           # concat (map activity_line (j_prs j)))"

definition print_activities :: "report list \<Rightarrow> jobs_state \<Rightarrow> effect list \<times> jobs_state" where
  "print_activities reports s =
     (let s' = update_state (-1) 0 reports s
      in (concat (map activity_lines (jobs s')), s'))"

section \<open>Adding a job\<close>

definition MAX_JOBS :: nat where "MAX_JOBS = 2000"
definition MAX_PRS :: nat where "MAX_PRS = 200"
definition CMD_LEN :: nat where "CMD_LEN = 1000"
definition NAME_LEN :: nat where "NAME_LEN = 256"

text \<open>
  \<open>add_job\<close> copies into fixed arrays without a check: \<open>None\<close> is a write past \<open>jobs\<close>,
  \<open>prs\<close>, \<open>cmd\<close> or \<open>name\<close>. \<open>procs\<close> are the \<open>num\<close> pairs of \<open>pids\<close> and \<open>cmd_names\<close>.
\<close>

definition new_process :: "int \<times> string \<Rightarrow> process" where
  "new_process = (\<lambda>(pid, name).
     \<lparr>p_pid = pid, p_name = name, p_state = 0, p_exit = 1, p_printed = 0\<rparr>)"

definition add_job ::
  "int \<Rightarrow> int \<Rightarrow> (int \<times> string) list \<Rightarrow> int \<Rightarrow> string option \<Rightarrow> jobs_state \<Rightarrow> jobs_state option"
  where
  "add_job job_id pgid procs bg cmd s =
     (let c = (case cmd of None \<Rightarrow> [] | Some c \<Rightarrow> c) in
      if length (jobs s) < MAX_JOBS \<and> length procs \<le> MAX_PRS \<and> length c < CMD_LEN \<and>
         list_all (\<lambda>(_, name). length name < NAME_LEN) procs
      then Some (s\<lparr>jobs := jobs s @
        [\<lparr>j_id = job_id, j_bg = bg, j_active = 1, j_pgid = pgid,
          j_prs = map new_process procs, j_cmd = c\<rparr>]\<rparr>)
      else None)"

section \<open>Queries at shell exit\<close>

definition stopped :: "report list \<Rightarrow> jobs_state \<Rightarrow> bool \<times> jobs_state" where
  "stopped reports s =
     (let s' = update_state (-1) 0 reports s
      in (list_ex (\<lambda>j. j_active j \<noteq> 0 \<and> list_ex (\<lambda>p. p_state p = 1) (j_prs j)) (jobs s'), s'))"

definition SIGHUP :: int where "SIGHUP = 1"
definition SIGTERM :: int where "SIGTERM = 15"
definition SIGCONT :: int where "SIGCONT = 18"

definition send_sighup :: "report list \<Rightarrow> jobs_state \<Rightarrow> effect list \<times> jobs_state" where
  "send_sighup reports s =
     (let s' = update_state (-1) 0 reports s
      in (concat (map (\<lambda>j. if j_active j \<noteq> 0 \<and> j_pgid j > 0 then [Kill (- j_pgid j) SIGHUP] else [])
            (jobs s')), s'))"

section \<open>The built-in \<open>resume\<close>\<close>

definition say :: "string \<Rightarrow> effect" where
  "say msg = Out (msg @ [newline])"

definition find_job :: "int \<Rightarrow> job list \<Rightarrow> nat option" where
  "find_job job_id js =
     find (\<lambda>i. j_active (js ! i) \<noteq> 0 \<and> j_id (js ! i) = job_id) [0..<length js]"

datatype resume_mode = BG | FG int

text \<open>The syntax of \<open>resume %id bg\<close>, \<open>resume %id fg\<close> and \<open>resume %id fg --timeout n\<close>.\<close>

definition parse_resume :: "string list \<Rightarrow> (int \<times> resume_mode) option" where
  "parse_resume input =
     (let count = length input in
      if count < 3 \<or> input ! 1 = [] \<or> hd (input ! 1) \<noteq> CHR ''%'' then None
      else
        let num = tl (input ! 1) in
        if num = [] \<or> \<not> all_digits num then None
        else if input ! 2 = ''bg'' then
          (if count \<noteq> 3 then None else Some (atoi num, BG))
        else if input ! 2 = ''fg'' then
          (if count = 3 then Some (atoi num, FG 0)
           else if count = 5 then
             (if input ! 3 \<noteq> ''--timeout'' \<or> \<not> all_digits (input ! 4) \<or> atoi (input ! 4) \<le> 0
              then None else Some (atoi num, FG (atoi (input ! 4))))
           else None)
        else None)"

text \<open>One return of the blocking \<open>waitpid\<close>: what \<open>sigchld\<close> reaped and whether \<open>SIGALRM\<close>
  arrived meanwhile, the result, the status, and whether \<open>errno\<close> is \<open>EINTR\<close>.\<close>

record wait_ev =
  we_reaped :: "report list"
  we_alarm :: bool
  we_res :: int
  we_status :: int
  we_eintr :: bool

definition wait_signals :: "wait_ev \<Rightarrow> jobs_state \<Rightarrow> jobs_state" where
  "wait_signals e s =
     (let s' = sigchld (we_reaped e) s in if we_alarm e then sigalrm_handler s' else s')"

text \<open>
  The inner \<open>while (1)\<close>: whether the process stopped, the state and the events left.
  \<open>None\<close> means that \<open>waitpid\<close> does not return again.
\<close>

fun wait_proc :: "wait_ev list \<Rightarrow> jobs_state \<Rightarrow> (bool \<times> jobs_state \<times> wait_ev list) option" where
  "wait_proc [] s = None"
| "wait_proc (e # es) s =
     (let s' = wait_signals e s in
      if we_res e > 0 then
        Some (WIFSTOPPED (we_status e), update_state (we_res e) (we_status e) [] s', es)
      else if we_res e < 0 then
        (if we_eintr e then (if timed_out s' then Some (False, s', es) else wait_proc es s')
         else Some (False, s', es))
      else wait_proc es s')"

text \<open>The loop over the processes \<open>ks\<close> of job \<open>i\<close>.\<close>

fun wait_procs ::
  "nat \<Rightarrow> nat list \<Rightarrow> bool \<Rightarrow> wait_ev list \<Rightarrow> jobs_state \<Rightarrow> (bool \<times> jobs_state) option"
  where
  "wait_procs i [] stop es s = Some (stop, s)"
| "wait_procs i (k # ks) stop es s =
     (if p_state (j_prs (jobs s ! i) ! k) = 2 then wait_procs i ks stop es s
      else
        case wait_proc es s of
          None \<Rightarrow> None
        | Some (st, s', es') \<Rightarrow>
            if timed_out s' then Some (stop \<or> st, s') else wait_procs i ks (stop \<or> st) es' s')"

definition continue_process :: "process \<Rightarrow> process" where
  "continue_process p = (if p_state p \<noteq> 2 then p\<lparr>p_state := 0\<rparr> else p)"

definition continue_job :: "job \<Rightarrow> job" where
  "continue_job j = j\<lparr>j_prs := map continue_process (j_prs j)\<rparr>"

definition modify_job :: "nat \<Rightarrow> (job \<Rightarrow> job) \<Rightarrow> jobs_state \<Rightarrow> jobs_state" where
  "modify_job i f s = s\<lparr>jobs := (jobs s)[i := f (jobs s ! i)]\<rparr>"

definition resume_bg :: "nat \<Rightarrow> jobs_state \<Rightarrow> effect list \<times> jobs_state" where
  "resume_bg i s =
     (let s' = modify_job i (\<lambda>j. continue_job (j\<lparr>j_bg := 1\<rparr>)) s; j = jobs s' ! i
      in ([Kill (- j_pgid j) SIGCONT,
           say (''['' @ show_int (j_id j) @ ''] + Running    '' @ j_cmd j)], s'))"

text \<open>
  \<open>self\<close> is \<open>getpid()\<close>; \<open>waits\<close> the returns of \<open>waitpid\<close>; \<open>late\<close> the reports polled after a
  timeout and \<open>final\<close> those polled by the closing \<open>print_prs\<close>.
\<close>

definition resume_fg ::
  "int \<Rightarrow> nat \<Rightarrow> int \<Rightarrow> wait_ev list \<Rightarrow> report list \<Rightarrow> report list \<Rightarrow> jobs_state
     \<Rightarrow> (effect list \<times> jobs_state) option"
  where
  "resume_fg self i timeout waits late final s =
     (let j = jobs s ! i;
          s1 = modify_job i continue_job s;
          s2 = (if timeout > 0 then s1\<lparr>timed_out := False\<rparr> else s1);
          before = [say (j_cmd j), Tcsetpgrp (j_pgid j), Kill (- j_pgid j) SIGCONT] @
            (if timeout > 0 then [Alarm timeout] else [])
      in case wait_procs i [0..<length (j_prs j)] False waits s2 of
           None \<Rightarrow> None
         | Some (stop, s3) \<Rightarrow>
             let cancel = (if timeout > 0 then [Alarm 0] else []);
                 term = (if timed_out s3
                   then [Kill (- j_pgid j) SIGTERM, say ''resume: job timed out''] else []);
                 s4 = (if timed_out s3 then update_state (-1) 0 late s3 else s3);
                 note = (if stop \<and> \<not> timed_out s4
                   then [say (''['' @ show_int (j_id j) @ ''] + Stopped    '' @ j_cmd j)] else []);
                 (out, s5) = print_prs final s4
             in Some (before @ cancel @ term @ [Tcsetpgrp self] @ note @ out, s5))"

definition resume ::
  "int \<Rightarrow> report list \<Rightarrow> wait_ev list \<Rightarrow> report list \<Rightarrow> report list \<Rightarrow> string list \<Rightarrow> jobs_state
     \<Rightarrow> (effect list \<times> jobs_state) option"
  where
  "resume self reports waits late final input s =
     (case parse_resume input of
        None \<Rightarrow> Some ([say ''resume: invalid syntax''], s)
      | Some (job_id, mode) \<Rightarrow>
          let s' = update_state (-1) 0 reports s in
          case find_job job_id (jobs s') of
            None \<Rightarrow> Some ([say ''resume: no such job''], s')
          | Some i \<Rightarrow>
              (case mode of
                 BG \<Rightarrow> Some (resume_bg i s')
               | FG timeout \<Rightarrow> resume_fg self i timeout waits late final s'))"

section \<open>The built-in \<open>ping\<close>\<close>

definition ping_missing :: "effect list" where
  "ping_missing = [say ''ping: no such process found'']"

definition ping_sent :: "int \<Rightarrow> string \<Rightarrow> effect" where
  "ping_sent sig target = say (''Sent signal '' @ show_int sig @ '' to '' @ target)"

definition ping_target :: "int \<Rightarrow> string \<Rightarrow> job list \<Rightarrow> effect list" where
  "ping_target sig target js =
     (if target \<noteq> [] \<and> hd target = CHR ''%'' then
        (let num = tl target in
         if num = [] \<or> \<not> all_digits num then ping_missing
         else case find_job (atoi num) js of
             None \<Rightarrow> ping_missing
           | Some i \<Rightarrow> [Kill (- j_pgid (js ! i)) (c_rem sig 64), ping_sent sig target])
      else if \<not> all_digits target then ping_missing
      else
        let pid = atoi target in
        if list_ex (\<lambda>j. j_active j \<noteq> 0 \<and>
             list_ex (\<lambda>p. p_pid p = pid \<and> p_state p \<noteq> 2) (j_prs j)) js
        then [Kill pid (c_rem sig 64), ping_sent sig target]
        else ping_missing)"

definition ping :: "report list \<Rightarrow> string list \<Rightarrow> jobs_state \<Rightarrow> effect list \<times> jobs_state" where
  "ping reports input s =
     (if length input \<noteq> 3 \<or> input ! 2 = [] \<or> \<not> all_digits (input ! 2)
      then ([say ''ping: invalid syntax''], s)
      else
        let sig = atoi (input ! 2); s' = update_state (-1) 0 reports s
        in (ping_target sig (input ! 1) (jobs s'), s'))"

section \<open>The table invariant\<close>

text \<open>
  A process is running (0), stopped (1) or finished (2), and a job is active exactly while some
  process of it is not finished.
\<close>

definition alive :: "process \<Rightarrow> bool" where
  "alive p \<longleftrightarrow> p_state p \<noteq> 2"

definition job_ok :: "job \<Rightarrow> bool" where
  "job_ok j \<longleftrightarrow> (\<forall>p\<in>set (j_prs j). p_state p \<in> {0, 1, 2}) \<and>
     (j_active j \<noteq> 0 \<longleftrightarrow> (\<exists>p\<in>set (j_prs j). alive p))"

definition table_ok :: "jobs_state \<Rightarrow> bool" where
  "table_ok s \<longleftrightarrow> list_all job_ok (jobs s)"

lemma apply_status_range:
  "p_state p \<in> {0, 1, 2} \<Longrightarrow> p_state (apply_status st p) \<in> {0, 1, 2}"
  by (simp add: apply_status_def)

lemma job_ok_update_job:
  assumes "job_ok j"
  shows "job_ok (update_job pid st j)"
proof (cases "j_active j = 0")
  case True
  with assms show ?thesis by (simp add: update_job_def)
next
  case False
  let ?f = "\<lambda>p. if p_pid p = pid then apply_status st p else p"
  have "\<forall>p\<in>set (map ?f (j_prs j)). p_state p \<in> {0, 1, 2}"
    using assms apply_status_range by (auto simp: job_ok_def)
  with False show ?thesis
    by (simp add: job_ok_def update_job_def Let_def alive_def list_ex_iff)
qed

lemma job_ok_update_table: "list_all job_ok js \<Longrightarrow> list_all job_ok (update_table pid st js)"
  by (auto simp: update_table_def list_all_iff job_ok_update_job)

lemma job_ok_reap: "list_all job_ok js \<Longrightarrow> list_all job_ok (reap reports js)"
  by (induction reports js rule: reap.induct) (auto simp: job_ok_update_table)

lemma table_ok_update_state: "table_ok s \<Longrightarrow> table_ok (update_state pid st reports s)"
  by (simp add: table_ok_def update_state_def job_ok_update_table job_ok_reap)

lemma print_process_keeps [simp]:
  "p_state (snd (print_process p)) = p_state p" "p_pid (snd (print_process p)) = p_pid p"
  "alive (snd (print_process p)) = alive p"
  by (simp_all add: print_process_def alive_def)

lemma job_ok_print_job: "job_ok j \<Longrightarrow> job_ok (snd (print_job j))"
  by (simp add: job_ok_def print_job_def Let_def)

lemma table_ok_print_prs: "table_ok s \<Longrightarrow> table_ok (snd (print_prs reports s))"
  using table_ok_update_state [of s "-1" 0 reports]
  by (auto simp: print_prs_def Let_def table_ok_def list_all_iff job_ok_print_job)

lemma new_process_state [simp]: "p_state (new_process x) = 0"
  by (simp add: new_process_def split: prod.splits)

lemma table_ok_add_job:
  assumes "table_ok s" and "procs \<noteq> []" and "add_job jid pg procs bg cmd s = Some s'"
  shows "table_ok s'"
proof -
  have "job_ok \<lparr>j_id = jid, j_bg = bg, j_active = 1, j_pgid = pg,
      j_prs = map new_process procs, j_cmd = c\<rparr>" for c
    using assms(2) by (cases procs) (auto simp: job_ok_def alive_def)
  with assms(1,3) show ?thesis
    by (auto simp: add_job_def table_ok_def Let_def split: if_splits)
qed

lemma continue_process_keeps [simp]:
  "alive (continue_process p) = alive p"
  "p_state p \<in> {0, 1, 2} \<Longrightarrow> p_state (continue_process p) \<in> {0, 1, 2}"
  by (auto simp: continue_process_def alive_def)

lemma job_ok_continue: "job_ok j \<Longrightarrow> job_ok (continue_job j)"
  using continue_process_keeps(2) by (auto simp: job_ok_def continue_job_def simp del: insert_iff)

lemma table_ok_modify_job:
  "table_ok s \<Longrightarrow> i < length (jobs s) \<Longrightarrow> (\<And>j. job_ok j \<Longrightarrow> job_ok (f j)) \<Longrightarrow> table_ok (modify_job i f s)"
  by (auto simp: table_ok_def modify_job_def list_all_iff dest!: set_update_subset_insert [THEN subsetD])

lemma table_ok_wait_signals: "table_ok s \<Longrightarrow> table_ok (wait_signals e s)"
  using table_ok_update_state
  by (auto simp: wait_signals_def sigchld_def sigalrm_handler_def Let_def table_ok_def)

lemma table_ok_wait_proc: "table_ok s \<Longrightarrow> wait_proc es s = Some (st, s', es') \<Longrightarrow> table_ok s'"
  by (induction es s rule: wait_proc.induct)
    (auto simp: Let_def table_ok_wait_signals table_ok_update_state split: if_splits)

lemma table_ok_wait_procs: "table_ok s \<Longrightarrow> wait_procs i ks stop es s = Some (b, s') \<Longrightarrow> table_ok s'"
  by (induction i ks stop es s rule: wait_procs.induct)
    (auto split: if_splits option.splits dest: table_ok_wait_proc)

lemma find_job_Some:
  "find_job jid js = Some i \<Longrightarrow> i < length js \<and> j_active (js ! i) \<noteq> 0 \<and> j_id (js ! i) = jid"
  by (auto simp: find_job_def find_Some_iff)

lemma find_job_None:
  "find_job jid js = None \<longleftrightarrow> (\<forall>j\<in>set js. j_active j \<noteq> 0 \<longrightarrow> j_id j \<noteq> jid)"
  by (auto simp: find_job_def find_None_iff all_set_conv_all_nth)

lemma table_ok_resume_bg:
  "table_ok s \<Longrightarrow> i < length (jobs s) \<Longrightarrow> table_ok (snd (resume_bg i s))"
proof -
  assume "table_ok s" "i < length (jobs s)"
  moreover have "job_ok (continue_job (j\<lparr>j_bg := 1\<rparr>))" if "job_ok j" for j
    using that by (intro job_ok_continue) (simp add: job_ok_def)
  ultimately show ?thesis by (simp add: resume_bg_def Let_def table_ok_modify_job)
qed

lemma table_ok_timed_out [simp]: "table_ok (s\<lparr>timed_out := b\<rparr>) = table_ok s"
  by (simp add: table_ok_def)

lemma resume_fg_SomeE:
  assumes "resume_fg self i timeout waits late final s = Some (eff, s')"
  obtains stop s3 where
    "wait_procs i [0..<length (j_prs (jobs s ! i))] False waits
       (let s1 = modify_job i continue_job s
        in if timeout > 0 then s1\<lparr>timed_out := False\<rparr> else s1) = Some (stop, s3)"
    "s' = snd (print_prs final (if timed_out s3 then update_state (-1) 0 late s3 else s3))"
    "eff = [say (j_cmd (jobs s ! i)), Tcsetpgrp (j_pgid (jobs s ! i)),
        Kill (- j_pgid (jobs s ! i)) SIGCONT] @ (if timeout > 0 then [Alarm timeout] else []) @
      (if timeout > 0 then [Alarm 0] else []) @
      (if timed_out s3
       then [Kill (- j_pgid (jobs s ! i)) SIGTERM, say ''resume: job timed out''] else []) @
      [Tcsetpgrp self] @
      (if stop \<and> \<not> timed_out s3
       then [say (''['' @ show_int (j_id (jobs s ! i)) @ ''] + Stopped    '' @
         j_cmd (jobs s ! i))] else []) @
      fst (print_prs final (if timed_out s3 then update_state (-1) 0 late s3 else s3))"
  using assms unfolding resume_fg_def Let_def
  by (auto simp: update_state_def split: option.splits prod.splits if_splits)

lemma table_ok_resume_fg:
  assumes "table_ok s" and "i < length (jobs s)"
    and "resume_fg self i timeout waits late final s = Some (eff, s')"
  shows "table_ok s'"
  using assms(3)
proof (cases rule: resume_fg_SomeE)
  case (1 stop s3)
  have "table_ok (modify_job i continue_job s)"
    using assms(1,2) by (intro table_ok_modify_job job_ok_continue)
  then have "table_ok (let s1 = modify_job i continue_job s
      in if timeout > 0 then s1\<lparr>timed_out := False\<rparr> else s1)"
    by (simp add: Let_def)
  from this 1(1) have "table_ok s3" by (rule table_ok_wait_procs)
  with 1(2) show ?thesis
    by (auto intro!: table_ok_print_prs table_ok_update_state)
qed

lemma table_ok_resume:
  assumes "table_ok s" and "resume self reports waits late final input s = Some (eff, s')"
  shows "table_ok s'"
  using assms table_ok_update_state [OF assms(1), of "-1" 0 reports]
  by (auto simp: resume_def Let_def split: option.splits resume_mode.splits dest!: find_job_Some
      dest: table_ok_resume_bg table_ok_resume_fg
      simp: prod_eq_iff)

section \<open>Runs of the shell's job control\<close>

text \<open>
  One step is a signal handler or an operation the shell's loop performs; \<open>add_job\<close> is called
  with at least one process, since \<open>execute\<close> counts one command more than there are pipes.
\<close>

inductive jobs_step :: "jobs_state \<Rightarrow> jobs_state \<Rightarrow> bool" where
  sigchld: "jobs_step s (sigchld reports s)"
| sigalrm: "jobs_step s (sigalrm_handler s)"
| waited: "pid > 0 \<Longrightarrow> jobs_step s (update_state pid status [] s)"
| report: "jobs_step s (snd (print_prs reports s))"
| activities: "jobs_step s (snd (print_activities reports s))"
| add: "procs \<noteq> [] \<Longrightarrow> add_job jid pgid procs bg cmd s = Some t \<Longrightarrow> jobs_step s t"
| stopped: "jobs_step s (snd (stopped reports s))"
| sighup: "jobs_step s (snd (send_sighup reports s))"
| resume: "resume self reports waits late final input s = Some (eff, t) \<Longrightarrow> jobs_step s t"
| ping: "jobs_step s (snd (ping reports input s))"

definition jobs_init :: "jobs_state \<Rightarrow> bool" where
  "jobs_init s \<longleftrightarrow> jobs s = [] \<and> \<not> timed_out s"

lemma jobs_step_table_ok: "jobs_step s t \<Longrightarrow> table_ok s \<Longrightarrow> table_ok t"
  by (induction rule: jobs_step.induct)
    (auto simp: sigchld_def sigalrm_handler_def print_activities_def stopped_def send_sighup_def
      ping_def Let_def table_ok_update_state table_ok_print_prs
      intro: table_ok_add_job table_ok_resume)

interpretation jobs: safety jobs_init jobs_step table_ok
proof unfold_locales
  show "jobs_init s \<Longrightarrow> table_ok s" for s by (simp add: jobs_init_def table_ok_def)
qed (rule jobs_step_table_ok)

text \<open>A table with one background job of one process, as the first \<open>sleep 5 &\<close> makes it.\<close>

definition one_job :: jobs_state where
  "one_job = \<lparr>jobs = [\<lparr>j_id = 1, j_bg = 1, j_active = 1, j_pgid = 100,
     j_prs = [new_process (100, ''sleep'')], j_cmd = ''sleep 5''\<rparr>], timed_out = False\<rparr>"

lemma one_job_reachable: "reachable jobs_init jobs_step one_job"
proof (rule reachable.step)
  show "reachable jobs_init jobs_step \<lparr>jobs = [], timed_out = False\<rparr>"
    by (rule reachable.start) (simp add: jobs_init_def)
  show "jobs_step \<lparr>jobs = [], timed_out = False\<rparr> one_job"
    by (rule jobs_step.add [where jid = 1 and pgid = 100 and procs = "[(100, ''sleep'')]" and bg = 1
          and cmd = "Some ''sleep 5''"])
      (simp_all add: one_job_def add_job_def MAX_JOBS_def MAX_PRS_def CMD_LEN_def NAME_LEN_def)
qed

lemmas table_eval = one_job_def new_process_def update_state_def update_table_def update_job_def
  apply_status_def WIFEXITED_def print_prs_def print_job_def print_process_def Let_def

text \<open>
  C13. In every state the shell's job control reaches, a job is marked active exactly when one of
  its processes has not finished, and every process is running, stopped or finished.
\<close>

theorem reachable_table_ok:
  assumes "reachable jobs_init jobs_step s"
  shows "table_ok s"
  using assms by (rule jobs.reachable_inv)

theorem reachable_table_ok_witness: "table_ok one_job"
  by (rule reachable_table_ok) (rule one_job_reachable)

section \<open>What no operation changes\<close>

text \<open>
  \<open>extends s t\<close>: \<open>t\<close> has the jobs of \<open>s\<close> at their indices, with the same ids, process groups,
  command lines, pids and names, and no announcement undone; it may have more jobs.
\<close>

definition ext_proc :: "process \<Rightarrow> process \<Rightarrow> bool" where
  "ext_proc p q \<longleftrightarrow> p_pid q = p_pid p \<and> p_name q = p_name p \<and>
     (p_printed p \<noteq> 0 \<longrightarrow> p_printed q \<noteq> 0)"

definition ext_job :: "job \<Rightarrow> job \<Rightarrow> bool" where
  "ext_job j k \<longleftrightarrow> j_id k = j_id j \<and> j_pgid k = j_pgid j \<and> j_cmd k = j_cmd j \<and>
     list_all2 ext_proc (j_prs j) (j_prs k)"

definition extends :: "jobs_state \<Rightarrow> jobs_state \<Rightarrow> bool" where
  "extends s t \<longleftrightarrow> length (jobs s) \<le> length (jobs t) \<and>
     list_all2 ext_job (jobs s) (take (length (jobs s)) (jobs t))"

lemma ext_proc_refl [simp]: "ext_proc p p"
  by (simp add: ext_proc_def)

lemma ext_job_refl [simp]: "ext_job j j"
  by (simp add: ext_job_def list.rel_refl)

lemma ext_job_trans: "ext_job i j \<Longrightarrow> ext_job j k \<Longrightarrow> ext_job i k"
proof -
  have "ext_proc p q \<Longrightarrow> ext_proc q r \<Longrightarrow> ext_proc p r" for p q r by (simp add: ext_proc_def)
  then show "ext_job i j \<Longrightarrow> ext_job j k \<Longrightarrow> ext_job i k"
    by (auto simp: ext_job_def elim: list_all2_trans [rotated])
qed

lemma extends_nth:
  "extends s t \<longleftrightarrow> length (jobs s) \<le> length (jobs t) \<and>
     (\<forall>i<length (jobs s). ext_job (jobs s ! i) (jobs t ! i))"
  by (auto simp: extends_def list_all2_conv_all_nth)

lemma extends_slot:
  assumes "extends s t" and "i < length (jobs s)"
  shows "i < length (jobs t)"
    and "length (j_prs (jobs t ! i)) = length (j_prs (jobs s ! i))"
    and "k < length (j_prs (jobs s ! i)) \<Longrightarrow> ext_proc (j_prs (jobs s ! i) ! k) (j_prs (jobs t ! i) ! k)"
  using assms by (auto simp: extends_nth ext_job_def list_all2_conv_all_nth)

lemma extends_refl [simp]: "extends s s"
  by (simp add: extends_nth)

lemma extends_trans: "extends s t \<Longrightarrow> extends t u \<Longrightarrow> extends s u"
  unfolding extends_nth by (meson ext_job_trans order_less_le_trans order_trans)

lemma extends_map:
  assumes "\<And>j. j \<in> set (jobs s) \<Longrightarrow> ext_job j (f j)" and "jobs t = map f (jobs s)"
  shows "extends s t"
  using assms by (simp add: extends_nth)

lemma ext_job_map: "(\<And>p. ext_proc p (f p)) \<Longrightarrow> ext_job j (j\<lparr>j_prs := map f (j_prs j)\<rparr>)"
  by (simp add: ext_job_def list_all2_conv_all_nth)

lemma ext_proc_apply_status [simp]: "ext_proc p (apply_status st p)"
  by (simp add: ext_proc_def apply_status_def)

lemma ext_job_update_job [simp]: "ext_job j (update_job pid st j)"
proof -
  let ?f = "\<lambda>p. if p_pid p = pid then apply_status st p else p"
  have "ext_job j (j\<lparr>j_prs := map ?f (j_prs j)\<rparr>)" by (rule ext_job_map) simp
  then show ?thesis by (simp add: update_job_def Let_def) (simp add: ext_job_def)
qed

lemma ext_reap:
  "length (reap reports js) = length js \<and> (\<forall>i<length js. ext_job (js ! i) (reap reports js ! i))"
proof (induction reports js rule: reap.induct)
  case (2 pid status reports js)
  then show ?case
    by (auto simp: update_table_def intro: ext_job_trans [OF ext_job_update_job])
qed simp

lemma extends_update_state [simp]: "extends s (update_state pid st reports s)"
  using ext_reap [of reports "jobs s"] by (auto simp: extends_nth update_state_def update_table_def)

lemma ext_job_print_job [simp]: "ext_job j (snd (print_job j))"
  by (auto simp: print_job_def Let_def intro!: ext_job_map)
    (simp add: ext_proc_def print_process_def)

lemma extends_print_prs [simp]: "extends s (snd (print_prs reports s))"
proof -
  have "extends (update_state (-1) 0 reports s) (snd (print_prs reports s))"
    by (rule extends_map [where f = "\<lambda>j. snd (print_job j)"]) (simp_all add: print_prs_def Let_def)
  then show ?thesis by (rule extends_trans [OF extends_update_state])
qed

lemma extends_add_job: "add_job jid pg procs bg cmd s = Some t \<Longrightarrow> extends s t"
  by (auto simp: add_job_def extends_nth nth_append Let_def split: if_splits)

lemma ext_job_continue [simp]: "ext_job j (continue_job j)"
  by (auto simp: continue_job_def intro!: ext_job_map)
    (simp add: ext_proc_def continue_process_def)

lemma extends_modify_job: "(\<And>j. ext_job j (f j)) \<Longrightarrow> extends s (modify_job i f s)"
  by (cases "i < length (jobs s)")
    (auto simp: extends_nth modify_job_def nth_list_update list_update_beyond)

lemma extends_timed_out [simp]: "extends s (t\<lparr>timed_out := b\<rparr>) = extends s t"
  "extends (s\<lparr>timed_out := b\<rparr>) t = extends s t"
  by (simp_all add: extends_nth)

lemma extends_wait_signals [simp]: "extends s (wait_signals e s)"
  by (simp add: wait_signals_def sigchld_def sigalrm_handler_def Let_def)

lemma extends_wait_proc: "wait_proc es s = Some (st, s', es') \<Longrightarrow> extends s s'"
  by (induction es s rule: wait_proc.induct)
    (auto simp: Let_def split: if_splits
      intro: extends_trans [OF extends_wait_signals] extends_trans [OF extends_wait_signals extends_update_state])

lemma extends_wait_procs: "wait_procs i ks stop es s = Some (b, s') \<Longrightarrow> extends s s'"
  by (induction i ks stop es s rule: wait_procs.induct)
    (auto split: if_splits option.splits dest: extends_wait_proc intro: extends_trans)

lemma extends_resume_bg: "extends s (snd (resume_bg i s))"
proof -
  have "ext_job j (continue_job (j\<lparr>j_bg := 1\<rparr>))" for j
    using ext_job_continue [of "j\<lparr>j_bg := 1\<rparr>"] by (simp add: ext_job_def continue_job_def)
  then show ?thesis by (simp add: resume_bg_def Let_def extends_modify_job)
qed

lemma extends_resume_fg:
  assumes "resume_fg self i timeout waits late final s = Some (eff, s')"
  shows "extends s s'"
  using assms
proof (cases rule: resume_fg_SomeE)
  case (1 stop s3)
  have "extends s (let s1 = modify_job i continue_job s
      in if timeout > 0 then s1\<lparr>timed_out := False\<rparr> else s1)"
    by (simp add: Let_def extends_modify_job)
  from extends_trans [OF this extends_wait_procs [OF 1(1)]] have s3: "extends s s3" .
  have "extends s3 (if timed_out s3 then update_state (-1) 0 late s3 else s3)" by simp
  with s3 have "extends s (if timed_out s3 then update_state (-1) 0 late s3 else s3)"
    by (rule extends_trans)
  then show ?thesis unfolding 1(2) by (rule extends_trans) simp
qed

lemma extends_resume:
  assumes "resume self reports waits late final input s = Some (eff, s')"
  shows "extends s s'"
proof (cases "parse_resume input")
  case None
  with assms show ?thesis by (simp add: resume_def)
next
  case (Some r)
  let ?u = "update_state (-1) 0 reports s"
  have "extends ?u s'"
    using assms Some
    by (auto simp: resume_def Let_def split: option.splits resume_mode.splits prod.splits
        dest: extends_resume_fg) (metis extends_resume_bg snd_conv)
  then show ?thesis by (rule extends_trans [OF extends_update_state])
qed

lemma jobs_step_extends: "jobs_step s t \<Longrightarrow> extends s t"
  by (induction rule: jobs_step.induct)
    (auto simp: sigchld_def sigalrm_handler_def print_activities_def stopped_def send_sighup_def
      ping_def Let_def intro: extends_add_job extends_resume)

lemma jobs_steps_extends: "jobs_step\<^sup>*\<^sup>* s t \<Longrightarrow> extends s t"
  by (induction rule: rtranclp_induct) (auto intro: extends_trans jobs_step_extends)

section \<open>Exits are announced once\<close>

lemma print_process_silent: "p_printed p \<noteq> 0 \<Longrightarrow> fst (print_process p) = []"
  by (simp add: print_process_def)

lemma print_process_twice: "fst (print_process (snd (print_process p))) = []"
  by (simp add: print_process_def)

lemma print_process_marks: "fst (print_process p) \<noteq> [] \<Longrightarrow> p_printed (snd (print_process p)) \<noteq> 0"
  by (simp add: print_process_def split: if_splits)

text \<open>
  C18. The exit of a background process is announced at most once. If \<open>print_prs\<close> announces
  process \<open>k\<close> of job \<open>i\<close>, then after any further steps of the job control and any further
  reports from the system it has nothing to announce for that process.
\<close>

theorem exit_announced_once:
  assumes i: "i < length (jobs s)" and k: "k < length (j_prs (jobs s ! i))"
    and announced: "fst (print_process (j_prs (jobs (update_state (-1) 0 reports s) ! i) ! k)) \<noteq> []"
    and bg: "j_bg (jobs (update_state (-1) 0 reports s) ! i) \<noteq> 0"
    and steps: "jobs_step\<^sup>*\<^sup>* (snd (print_prs reports s)) t"
  shows "fst (print_process (j_prs (jobs (update_state (-1) 0 later t) ! i) ! k)) = []"
proof -
  let ?u = "update_state (-1) 0 reports s" and ?v = "snd (print_prs reports s)"
  have su: "extends s ?u" by simp
  have iu: "i < length (jobs ?u)" and ku: "k < length (j_prs (jobs ?u ! i))"
    using extends_slot(1,2) [OF su i] k by simp_all
  have "jobs ?v ! i = snd (print_job (jobs ?u ! i))"
    using iu by (simp add: print_prs_def Let_def)
  then have "j_prs (jobs ?v ! i) ! k = snd (print_process (j_prs (jobs ?u ! i) ! k))"
    using bg ku by (simp add: print_job_def Let_def)
  with announced have marked: "p_printed (j_prs (jobs ?v ! i) ! k) \<noteq> 0"
    by (simp add: print_process_marks)
  have iv: "i < length (jobs ?v)" using iu by (simp add: print_prs_def Let_def)
  have kv: "k < length (j_prs (jobs ?v ! i))"
    using \<open>jobs ?v ! i = _\<close> ku by (simp add: print_job_def Let_def)
  have "extends ?v (update_state (-1) 0 later t)"
    using jobs_steps_extends [OF steps] by (rule extends_trans) simp
  then have "ext_proc (j_prs (jobs ?v ! i) ! k) (j_prs (jobs (update_state (-1) 0 later t) ! i) ! k)"
    using iv kv by (rule extends_slot(3))
  with marked show ?thesis by (simp add: ext_proc_def print_process_silent)
qed

theorem exit_announced_once_witness:
  "fst (print_process (j_prs (jobs (update_state (-1) 0 [(100, 0)]
     (snd (print_prs [(100, 0)] one_job))) ! 0) ! 0)) = []"
  by (rule exit_announced_once [where s = one_job and reports = "[(100, 0)]"])
    (simp_all add: table_eval)

section \<open>Polling is one update per report\<close>

lemma reap_fold:
  "s\<lparr>jobs := reap reports (jobs s)\<rparr> =
   foldl (\<lambda>t (pid, st). update_state pid st [] t) s (takeWhile (\<lambda>(pid, _). pid > 0) reports)"
proof (induction reports arbitrary: s)
  case Nil
  then show ?case by simp
next
  case (Cons r reports)
  obtain pid st where r: "r = (pid, st)" by (cases r)
  show ?case
  proof (cases "pid > 0")
    case True
    have "s\<lparr>jobs := reap (r # reports) (jobs s)\<rparr> =
        (update_state pid st [] s)\<lparr>jobs := reap reports (jobs (update_state pid st [] s))\<rparr>"
      using True r by (simp add: update_state_def)
    also note Cons.IH [of "update_state pid st [] s"]
    finally show ?thesis using True r by simp
  next
    case False
    with r show ?thesis by simp
  qed
qed


section \<open>Leaving the shell\<close>

text \<open>
  C20. On leaving, the shell sends \<open>SIGHUP\<close> to the process group of every job that still has a live
  process, and to no other group.
\<close>

theorem sighup_reaches_live_jobs:
  assumes "reachable jobs_init jobs_step s"
  shows "Kill t g \<in> set (fst (send_sighup reports s)) \<longleftrightarrow>
    g = SIGHUP \<and> (\<exists>j\<in>set (jobs (snd (send_sighup reports s))).
      t = - j_pgid j \<and> j_pgid j > 0 \<and> (\<exists>p\<in>set (j_prs j). alive p))"
proof -
  have "table_ok (update_state (-1) 0 reports s)"
    using jobs.reachable_inv [OF assms] by (rule table_ok_update_state)
  then have "j_active j \<noteq> 0 \<longleftrightarrow> (\<exists>p\<in>set (j_prs j). alive p)"
    if "j \<in> set (jobs (update_state (-1) 0 reports s))" for j
    using that by (simp add: table_ok_def list_all_iff job_ok_def)
  then show ?thesis by (auto simp: send_sighup_def Let_def split: if_splits)
qed

theorem sighup_reaches_live_jobs_witness: "Kill (-100) 1 \<in> set (fst (send_sighup [] one_job))"
  by (subst sighup_reaches_live_jobs [OF one_job_reachable])
    (simp add: send_sighup_def SIGHUP_def alive_def table_eval)

section \<open>Timeouts of \<open>resume\<close>\<close>

lemma timed_out_update_state [simp]: "timed_out (update_state pid st reports s) = timed_out s"
  by (simp add: update_state_def)

lemma timed_out_wait_signals [simp]: "timed_out (wait_signals e s) \<longleftrightarrow> timed_out s \<or> we_alarm e"
  by (simp add: wait_signals_def sigchld_def sigalrm_handler_def Let_def)

lemma wait_proc_timed_out:
  assumes "wait_proc es s = Some (st, s', es')"
  shows "timed_out s \<longrightarrow> timed_out s'"
    and "\<forall>e\<in>set es. \<not> we_alarm e \<Longrightarrow> timed_out s' = timed_out s \<and> set es' \<subseteq> set es"
  using assms by (induction es s rule: wait_proc.induct) (auto simp: Let_def split: if_splits)

lemma wait_procs_timed_out_mono:
  "wait_procs i ks stop es s = Some (b, s') \<Longrightarrow> timed_out s \<Longrightarrow> timed_out s'"
  by (induction i ks stop es s rule: wait_procs.induct)
    (auto split: if_splits option.splits dest: wait_proc_timed_out(1))

lemma wait_procs_no_alarm:
  "wait_procs i ks stop es s = Some (b, s') \<Longrightarrow> \<forall>e\<in>set es. \<not> we_alarm e \<Longrightarrow>
   timed_out s' = timed_out s"
proof (induction i ks stop es s rule: wait_procs.induct)
  case (2 i k ks stop es s)
  then show ?case
    by (auto split: if_splits option.splits dest!: wait_proc_timed_out(2)) blast+
qed simp

lemma print_prs_no_kill [simp]: "Kill t g \<notin> set (fst (print_prs reports s))"
  by (auto simp: print_prs_def print_job_def print_process_def Let_def split: if_splits)

text \<open>The flag as \<open>resume_fg\<close> leaves it before the waits: only a timeout clears it.\<close>

definition fg_flag :: "int \<Rightarrow> jobs_state \<Rightarrow> bool" where
  "fg_flag timeout s \<longleftrightarrow> timeout \<le> 0 \<and> timed_out s"

lemma resume_fg_flag:
  assumes "resume_fg self i timeout waits late final s = Some (eff, s')"
  shows "Kill t SIGTERM \<in> set eff \<Longrightarrow>
      t = - j_pgid (jobs s ! i) \<and> (fg_flag timeout s \<or> (\<exists>e\<in>set waits. we_alarm e))"
    and "fg_flag timeout s \<Longrightarrow> Kill (- j_pgid (jobs s ! i)) SIGTERM \<in> set eff"
proof -
  let ?s1 = "modify_job i continue_job s"
  let ?s2 = "if timeout > 0 then ?s1\<lparr>timed_out := False\<rparr> else ?s1"
  have flag: "timed_out ?s2 = fg_flag timeout s" by (simp add: modify_job_def fg_flag_def)
  from assms obtain stop s3 where
      w: "wait_procs i [0..<length (j_prs (jobs s ! i))] False waits ?s2 = Some (stop, s3)"
      and k: "\<And>t. Kill t SIGTERM \<in> set eff \<longleftrightarrow> timed_out s3 \<and> t = - j_pgid (jobs s ! i)"
    by (auto simp: resume_fg_def Let_def say_def SIGTERM_def SIGCONT_def
        split: option.splits prod.splits if_splits dest!: arg_cong [where f = fst])
  have "fg_flag timeout s \<Longrightarrow> timed_out s3" and
      "timed_out s3 \<Longrightarrow> fg_flag timeout s \<or> (\<exists>e\<in>set waits. we_alarm e)"
    using w wait_procs_timed_out_mono wait_procs_no_alarm flag by blast+
  with k show "Kill t SIGTERM \<in> set eff \<Longrightarrow>
      t = - j_pgid (jobs s ! i) \<and> (fg_flag timeout s \<or> (\<exists>e\<in>set waits. we_alarm e))"
    and "fg_flag timeout s \<Longrightarrow> Kill (- j_pgid (jobs s ! i)) SIGTERM \<in> set eff"
    by blast+
qed

definition interrupted :: wait_ev where
  "interrupted = \<lparr>we_reaped = [], we_alarm = True, we_res = -1, we_status = 0, we_eintr = True\<rparr>"

definition exited :: wait_ev where
  "exited = \<lparr>we_reaped = [], we_alarm = False, we_res = 100, we_status = 0, we_eintr = False\<rparr>"

text \<open>
  C21. \<open>resume\<close> sends \<open>SIGTERM\<close> only to the group of the job it brings to the foreground, and only if
  the alarm went off while it waited or, without \<open>--timeout\<close>, if the flag was already set.
\<close>

theorem resume_sigterm_needs_alarm:
  assumes "resume self reports waits late final input s = Some (eff, s')"
    and "Kill t SIGTERM \<in> set eff"
  shows "\<exists>job_id timeout i. parse_resume input = Some (job_id, FG timeout) \<and>
    find_job job_id (jobs (update_state (-1) 0 reports s)) = Some i \<and>
    t = - j_pgid (jobs (update_state (-1) 0 reports s) ! i) \<and>
    ((\<exists>e\<in>set waits. we_alarm e) \<or> timeout \<le> 0 \<and> timed_out s)"
proof -
  let ?u = "update_state (-1) 0 reports s"
  from assms obtain job_id timeout i where p: "parse_resume input = Some (job_id, FG timeout)"
      and f: "find_job job_id (jobs ?u) = Some i"
      and r: "resume_fg self i timeout waits late final ?u = Some (eff, s')"
    by (auto simp: resume_def resume_bg_def say_def SIGCONT_def SIGTERM_def Let_def
        split: option.splits resume_mode.splits)
  from resume_fg_flag(1) [OF r assms(2)] p f show ?thesis
    by (auto simp: fg_flag_def)
qed

lemma resume_interrupted:
  "case resume 50 [] [interrupted] [] [] [''resume'', ''%1'', ''fg'', ''--timeout'', ''5''] one_job of
     None \<Rightarrow> False | Some (eff, s') \<Rightarrow> Kill (-100) SIGTERM \<in> set eff \<and> timed_out s'"
  by code_simp

theorem resume_sigterm_needs_alarm_witness:
  "\<exists>job_id timeout i.
    parse_resume [''resume'', ''%1'', ''fg'', ''--timeout'', ''5''] = Some (job_id, FG timeout) \<and>
    find_job job_id (jobs (update_state (-1) 0 [] one_job)) = Some i \<and>
    -100 = - j_pgid (jobs (update_state (-1) 0 [] one_job) ! i) \<and>
    ((\<exists>e\<in>set [interrupted]. we_alarm e) \<or> timeout \<le> 0 \<and> timed_out one_job)"
proof -
  obtain eff s' where
    "resume 50 [] [interrupted] [] [] [''resume'', ''%1'', ''fg'', ''--timeout'', ''5''] one_job =
      Some (eff, s')" and "Kill (-100) SIGTERM \<in> set eff"
    using resume_interrupted by (auto split: option.splits)
  then show ?thesis by (rule resume_sigterm_needs_alarm)
qed

text \<open>
  C22. The flag \<open>timed_out\<close> is cleared only by a \<open>resume\<close> with \<open>--timeout\<close>. Once it is set, a
  \<open>resume %id fg\<close> that names a job and returns terminates the job, although it has no timeout and
  no alarm arrives.
\<close>

theorem resume_stale_timeout:
  assumes "timed_out s" and "parse_resume input = Some (job_id, FG 0)"
    and "find_job job_id (jobs (update_state (-1) 0 reports s)) = Some i"
    and "resume self reports waits late final input s = Some (eff, s')"
  shows "Kill (- j_pgid (jobs (update_state (-1) 0 reports s) ! i)) SIGTERM \<in> set eff"
proof -
  have "resume_fg self i 0 waits late final (update_state (-1) 0 reports s) = Some (eff, s')"
    using assms(2-4) by (simp add: resume_def Let_def)
  from resume_fg_flag(2) [OF this] assms(1) show ?thesis by (simp add: fg_flag_def)
qed

lemma resume_after_timeout:
  "parse_resume [''resume'', ''%1'', ''fg''] = Some (1, FG 0)"
  "find_job 1 (jobs (update_state (-1) 0 [] (one_job\<lparr>timed_out := True\<rparr>))) = Some 0"
  "resume 50 [] [exited] [] [] [''resume'', ''%1'', ''fg''] (one_job\<lparr>timed_out := True\<rparr>) \<noteq> None"
  "j_pgid (jobs (update_state (-1) 0 [] (one_job\<lparr>timed_out := True\<rparr>)) ! 0) = 100"
  by code_simp+

theorem resume_stale_timeout_witness:
  "\<exists>eff s'. resume 50 [] [exited] [] [] [''resume'', ''%1'', ''fg''] (one_job\<lparr>timed_out := True\<rparr>) =
     Some (eff, s') \<and> Kill (-100) SIGTERM \<in> set eff"
proof -
  obtain eff s' where r:
    "resume 50 [] [exited] [] [] [''resume'', ''%1'', ''fg''] (one_job\<lparr>timed_out := True\<rparr>) = Some (eff, s')"
    using resume_after_timeout(3) by auto
  have "Kill (- j_pgid (jobs (update_state (-1) 0 [] (one_job\<lparr>timed_out := True\<rparr>)) ! 0)) SIGTERM \<in> set eff"
    by (rule resume_stale_timeout [OF _ resume_after_timeout(1,2) r]) simp
  with r resume_after_timeout(4) show ?thesis by simp
qed

section \<open>Targets of \<open>ping\<close>\<close>

lemma c_rem_bound: "b > 0 \<Longrightarrow> \<bar>c_rem a b\<bar> < b"
  by (auto simp: c_rem_def abs_mult sgn_if)

lemma ping_target_kill:
  assumes "Kill t g \<in> set (ping_target sig target js)"
  shows "g = c_rem sig 64 \<and> (\<exists>j\<in>set js. j_active j \<noteq> 0 \<and>
    (t = - j_pgid j \<or> (\<exists>p\<in>set (j_prs j). alive p \<and> t = p_pid p)))"
proof -
  have none: "Kill t g \<notin> set ping_missing" "Kill t g \<noteq> ping_sent sig target"
    by (simp_all add: ping_missing_def ping_sent_def say_def)
  consider i num where "find_job (atoi num) js = Some i" "t = - j_pgid (js ! i)" "g = c_rem sig 64"
    | pid where "list_ex (\<lambda>j. j_active j \<noteq> 0 \<and>
             list_ex (\<lambda>p. p_pid p = pid \<and> p_state p \<noteq> 2) (j_prs j)) js" "t = pid" "g = c_rem sig 64"
    using assms none by (auto simp: ping_target_def Let_def split: if_splits option.splits)
  then show ?thesis
  proof cases
    case 1
    then have "js ! i \<in> set js" "j_active (js ! i) \<noteq> 0" by (simp_all add: find_job_Some)
    with 1 show ?thesis by blast
  next
    case 2
    then show ?thesis by (auto simp: list_ex_iff alive_def)
  qed
qed

text \<open>
  C23. \<open>ping\<close> signals the group of a job with a live process or a live process of the table, never
  anything else, and the signal it sends is below 64 in size.
\<close>

theorem ping_targets_known:
  assumes "reachable jobs_init jobs_step s" and "Kill t g \<in> set (fst (ping reports input s))"
  shows "g = c_rem (atoi (input ! 2)) 64 \<and> \<bar>g\<bar> < 64 \<and>
    (\<exists>j\<in>set (jobs (snd (ping reports input s))). \<exists>p\<in>set (j_prs j).
      alive p \<and> (t = - j_pgid j \<or> t = p_pid p))"
proof -
  let ?u = "update_state (-1) 0 reports s"
  have ok: "table_ok ?u" using jobs.reachable_inv [OF assms(1)] by (rule table_ok_update_state)
  have act: "\<exists>p\<in>set (j_prs j). alive p" if "j \<in> set (jobs ?u)" "j_active j \<noteq> 0" for j
    using ok that by (simp add: table_ok_def list_all_iff job_ok_def)
  have "snd (ping reports input s) = ?u" and k: "Kill t g \<in> set (ping_target (atoi (input ! 2)) (input ! 1) (jobs ?u))"
    using assms(2) by (auto simp: ping_def say_def Let_def split: if_splits)
  moreover from ping_target_kill [OF k] act have "g = c_rem (atoi (input ! 2)) 64"
      and "\<exists>j\<in>set (jobs ?u). \<exists>p\<in>set (j_prs j). alive p \<and> (t = - j_pgid j \<or> t = p_pid p)"
    by blast+
  ultimately show ?thesis by (simp add: c_rem_bound)
qed

lemma ping_process: "Kill 100 9 \<in> set (fst (ping [] [''ping'', ''100'', ''73''] one_job))"
  by code_simp

theorem ping_targets_known_witness:
  "\<exists>j\<in>set (jobs (snd (ping [] [''ping'', ''100'', ''73''] one_job))). \<exists>p\<in>set (j_prs j).
     alive p \<and> (100 = - j_pgid j \<or> 100 = p_pid p)"
  using ping_targets_known [OF one_job_reachable ping_process] by blast

end
