(* ===== verification/Shell_Locate.thy ===== *)
theory Shell_Locate
  imports Prelude
begin

text \<open>
  Finding programs: \<open>locate\<close> of \<^verbatim>\<open>c-shell/src/locate.c\<close> and the static \<open>path\<close> of
  \<^verbatim>\<open>c-shell/src/execution.c\<close>, which \<open>execute\<close> uses. Which paths are executable regular files, the current
  directory and \<open>PATH\<close> are given. Path names are assumed to fit \<open>PATH_MAX\<close>.
\<close>

record exec_env =
  is_exe :: "string \<Rightarrow> bool"
  cwd_of :: "string option"
  path_var :: "string option"

section \<open>strtok\<close>

lemma dropWhile_shorter: "dropWhile P s = c # t \<Longrightarrow> length (dropWhile Q t) < length s"
  using length_dropWhile_le [of P s] length_dropWhile_le [of Q t] by simp

text \<open>The successive results of \<open>strtok\<close> with the delimiters \<open>ds\<close>.\<close>

function strtok :: "string \<Rightarrow> string \<Rightarrow> string list" where
  "strtok ds s =
     (case dropWhile (\<lambda>c. c \<in> set ds) s of
        [] \<Rightarrow> []
      | c # t \<Rightarrow> (c # takeWhile (\<lambda>c. c \<notin> set ds) t) # strtok ds (dropWhile (\<lambda>c. c \<notin> set ds) t))"
  by pat_completeness auto
termination
  by (relation "measure (\<lambda>(ds, s). length s)") (auto intro: dropWhile_shorter)

declare strtok.simps [simp del]

section \<open>The two searches\<close>

text \<open>\<open>isfile\<close> of either file.\<close>

definition isfile :: "exec_env \<Rightarrow> string \<Rightarrow> bool" where
  "isfile env p = is_exe env p"

definition in_dir :: "string \<Rightarrow> string \<Rightarrow> string" where
  "in_dir dir name = (if dir \<noteq> [] \<and> last dir = CHR ''/'' then dir @ name else dir @ ''/'' @ name)"

text \<open>The loop of \<open>path\<close> over the directories of \<open>PATH\<close>.\<close>

fun search_dirs :: "exec_env \<Rightarrow> string list \<Rightarrow> string \<Rightarrow> string option" where
  "search_dirs env [] search = None"
| "search_dirs env (dir # dirs) search =
     (if isfile env (in_dir dir search) then Some (in_dir dir search) else search_dirs env dirs search)"

definition path_of :: "exec_env \<Rightarrow> string \<Rightarrow> string option" where
  "path_of env cmd =
     (let t = (take 1 cmd = ''%''); search = (if t then drop 1 cmd else cmd) in
      if \<not> t \<and> CHR ''/'' \<in> set cmd then (if isfile env search then Some search else None)
      else
        case (if t then None else cwd_of env) of
          Some cwd \<Rightarrow>
            (if isfile env (cwd @ ''/'' @ search) then Some (cwd @ ''/'' @ search)
             else case path_var env of None \<Rightarrow> None | Some p \<Rightarrow> search_dirs env (strtok '':'' p) search)
        | None \<Rightarrow> (case path_var env of None \<Rightarrow> None | Some p \<Rightarrow> search_dirs env (strtok '':'' p) search))"

text \<open>One round of the loop of \<open>locate\<close>: what it prints for one name.\<close>

definition locate_one :: "exec_env \<Rightarrow> string \<Rightarrow> string \<Rightarrow> effect list" where
  "locate_one env cwd inp =
     (let p = (if cwd = ''/'' then ''/'' @ inp else cwd @ ''/'' @ inp);
          here = (if isfile env p then [Out (p @ [newline])] else []);
          there = (case path_var env of
              None \<Rightarrow> []
            | Some dirs \<Rightarrow> concat (map (\<lambda>dir. if isfile env (in_dir dir inp) then [Out (in_dir dir inp @ [newline])] else [])
                (strtok '':'' dirs)))
      in if here @ there = [] then [Err (''locate: command not found ('' @ inp @ '')'' @ [newline])] else here @ there)"

definition locate :: "exec_env \<Rightarrow> string list \<Rightarrow> effect list" where
  "locate env input =
     (if input = [] then [Err (''locate: invalid syntax'' @ [newline])]
      else case cwd_of env of
          None \<Rightarrow> [Err ''locate error'']
        | Some cwd \<Rightarrow> concat (map (locate_one env cwd) input))"

section \<open>The searches agree\<close>

text \<open>The executable files of that name, in the order in which they are looked at.\<close>

definition hits :: "exec_env \<Rightarrow> string list \<Rightarrow> string \<Rightarrow> string list" where
  "hits env dirs name = filter (isfile env) (map (\<lambda>dir. in_dir dir name) dirs)"

definition all_hits :: "exec_env \<Rightarrow> string \<Rightarrow> string \<Rightarrow> string list" where
  "all_hits env cwd name = filter (isfile env) [cwd @ ''/'' @ name] @
     (case path_var env of None \<Rightarrow> [] | Some p \<Rightarrow> hits env (strtok '':'' p) name)"

lemma search_dirs_first: "search_dirs env dirs name = (case hits env dirs name of [] \<Rightarrow> None | p # _ \<Rightarrow> Some p)"
  by (induction dirs) (auto simp: hits_def)

lemma locate_lines: "concat (map (\<lambda>dir. if isfile env (in_dir dir name) then [Out (in_dir dir name @ [newline])] else []) dirs) =
    map (\<lambda>q. Out (q @ [newline])) (hits env dirs name)"
  by (induction dirs) (auto simp: hits_def)

lemma locate_one_hits:
  "cwd \<noteq> ''/'' \<Longrightarrow> locate_one env cwd cmd =
     (if all_hits env cwd cmd = [] then [Err (''locate: command not found ('' @ cmd @ '')'' @ [newline])]
      else map (\<lambda>q. Out (q @ [newline])) (all_hits env cwd cmd))"
  by (auto simp: locate_one_def locate_lines all_hits_def Let_def split: option.split)

lemma path_of_first:
  assumes "cwd_of env = Some cwd" and "CHR ''/'' \<notin> set cmd" and "take 1 cmd \<noteq> ''%''"
  shows "path_of env cmd = (case all_hits env cwd cmd of [] \<Rightarrow> None | p # _ \<Rightarrow> Some p)"
  using assms by (auto simp: path_of_def all_hits_def search_dirs_first split: option.split)

text \<open>
  C40. The program that runs for a command name is the one \<open>locate\<close> lists first, and \<open>locate\<close> reports
  that there is none exactly when the command is not found, for a name without a slash or a leading
  percent sign, outside the root directory.
\<close>

theorem locate_lists_what_runs:
  assumes "cwd_of env = Some cwd" and "cwd \<noteq> ''/''" and "CHR ''/'' \<notin> set cmd" and "take 1 cmd \<noteq> ''%''"
  shows "case path_of env cmd of
      None \<Rightarrow> locate env [cmd] = [Err (''locate: command not found ('' @ cmd @ '')'' @ [newline])]
    | Some p \<Rightarrow> \<exists>ps. locate env [cmd] = map (\<lambda>q. Out (q @ [newline])) (p # ps)"
  using assms by (auto simp: path_of_first [OF assms(1,3,4)] locate_def locate_one_hits split: list.split)

definition two_places :: exec_env where
  "two_places = \<lparr>is_exe = (\<lambda>p. p \<in> {''/usr/bin/ls'', ''/bin/ls''}), cwd_of = Some ''/home'', path_var = Some ''/usr/bin:/bin''\<rparr>"

theorem locate_lists_what_runs_witness:
  "path_of two_places ''ls'' = Some ''/usr/bin/ls'' \<and> (\<exists>ps. locate two_places [''ls''] = map (\<lambda>q. Out (q @ [newline])) (''/usr/bin/ls'' # ps))"
proof -
  have "path_of two_places ''ls'' = Some ''/usr/bin/ls''" by (simp add: path_of_def two_places_def isfile_def strtok.simps in_dir_def)
  with locate_lists_what_runs [of two_places "''/home''" "''ls''"] show ?thesis by (simp add: two_places_def)
qed

end
