(* ===== verification/Shell_Execution.thy ===== *)
theory Shell_Execution
  imports Shell_Jobs Shell_Locate
begin

text \<open>
  Running a command line: \<open>execute\<close> of \<^verbatim>\<open>c-shell/src/execution.c\<close>. The model follows the file
  descriptors of the shell and of every process it forks. Which files can be opened, how many
  descriptors a process may have, the results of \<open>fork\<close> and the returns of \<open>waitpid\<close> are given; \<open>pipe\<close>
  fails only for want of descriptors. Messages of \<open>perror\<close> are cut to their prefix, and what is written to files
  is not followed. A process forked is recorded with the descriptors it has when
  it starts its program or, for the helpers that feed and collect redirections, its copy loop.
\<close>

section \<open>Descriptors\<close>

datatype desc = Inherited int | ReadFile string | WriteFile string | AppendFile string | PipeR nat | PipeW nat | DevNull

type_synonym fds = "int \<Rightarrow> desc option"

record run_env = exec_env +
  can_read :: "string \<Rightarrow> bool"
  can_write :: "string \<Rightarrow> bool"
  fd_limit :: nat

datatype role = Command string "string list" | Feeder "int list" int | Writer int "int list"

text \<open>\<open>k_group\<close> is the argument of \<open>setpgid\<close>, \<open>None\<close> for a helper, which stays in the shell's group.\<close>

record kid =
  k_pid :: int
  k_role :: role
  k_group :: "int option"
  k_fds :: fds

record xstate =
  x_fds :: fds
  x_pipes :: nat
  x_forks :: "int list"
  x_kids :: "kid list"
  x_out :: "effect list"

definition close_fd :: "int \<Rightarrow> fds \<Rightarrow> fds" where
  "close_fd fd t = t(fd := None)"

definition close_all :: "int list \<Rightarrow> fds \<Rightarrow> fds" where
  "close_all fs t = fold close_fd fs t"

definition dup2 :: "int \<Rightarrow> int \<Rightarrow> fds \<Rightarrow> fds" where
  "dup2 a b t = (case t a of None \<Rightarrow> t | Some d \<Rightarrow> t(b := Some d))"

text \<open>The lowest descriptor not in use.\<close>

definition new_fd :: "nat \<Rightarrow> fds \<Rightarrow> int option" where
  "new_fd limit t = find (\<lambda>fd. t fd = None) (map int [0..<limit])"

definition upd_fds :: "(fds \<Rightarrow> fds) \<Rightarrow> xstate \<Rightarrow> xstate" where
  "upd_fds f st = st\<lparr>x_fds := f (x_fds st)\<rparr>"

definition emit :: "effect \<Rightarrow> xstate \<Rightarrow> xstate" where
  "emit e st = st\<lparr>x_out := x_out st @ [e]\<rparr>"

definition make_pipe :: "nat \<Rightarrow> xstate \<Rightarrow> (int \<times> int \<times> xstate) option" where
  "make_pipe limit st =
     (case new_fd limit (x_fds st) of
        None \<Rightarrow> None
      | Some r \<Rightarrow>
          let t = (x_fds st)(r := Some (PipeR (x_pipes st))) in
          case new_fd limit t of
            None \<Rightarrow> None
          | Some w \<Rightarrow> Some (r, w, st\<lparr>x_fds := t(w := Some (PipeW (x_pipes st))), x_pipes := x_pipes st + 1\<rparr>))"

definition do_fork :: "xstate \<Rightarrow> int \<times> xstate" where
  "do_fork st = (case x_forks st of [] \<Rightarrow> (-1, st) | p # ps \<Rightarrow> (if p > 0 then p else -1, st\<lparr>x_forks := ps\<rparr>))"

definition add_kid :: "int \<Rightarrow> role \<Rightarrow> int option \<Rightarrow> fds \<Rightarrow> xstate \<Rightarrow> xstate" where
  "add_kid pid r g t st = st\<lparr>x_kids := x_kids st @ [\<lparr>k_pid = pid, k_role = r, k_group = g, k_fds = t\<rparr>]\<rparr>"

section \<open>One stage of a pipeline\<close>

text \<open>
  Arguments, input files and output files of a stage, \<open>True\<close> for an output file to append to; \<open>None\<close> when
  a redirection is the last word.
\<close>

fun parse_stage :: "string list \<Rightarrow> (string list \<times> string list \<times> (bool \<times> string) list) option" where
  "parse_stage [] = Some ([], [], [])"
| "parse_stage (w # ws) =
     (if w = ''<'' then
        (case ws of [] \<Rightarrow> None | f # r \<Rightarrow> map_option (\<lambda>(args, files, outs). (args, f # files, outs)) (parse_stage r))
      else if w = ''>'' then
        (case ws of [] \<Rightarrow> None | f # r \<Rightarrow> map_option (\<lambda>(args, files, outs). (args, files, (False, f) # outs)) (parse_stage r))
      else if w = ''>>'' then
        (case ws of [] \<Rightarrow> None | f # r \<Rightarrow> map_option (\<lambda>(args, files, outs). (args, files, (True, f) # outs)) (parse_stage r))
      else map_option (\<lambda>(args, files, outs). (w # args, files, outs)) (parse_stage ws))"

text \<open>Opening files one by one up to the first that fails: the descriptors, and whether all were opened.\<close>

fun open_all :: "nat \<Rightarrow> (bool \<times> desc) list \<Rightarrow> fds \<Rightarrow> int list \<times> bool \<times> fds" where
  "open_all limit [] t = ([], True, t)"
| "open_all limit ((ok, d) # ds) t =
     (case (if ok then new_fd limit t else None) of
        None \<Rightarrow> ([], False, t)
      | Some fd \<Rightarrow> let (fs, all, t') = open_all limit ds (t(fd := Some d)) in (fd # fs, all, t'))"

definition in_files :: "run_env \<Rightarrow> string list \<Rightarrow> (bool \<times> desc) list" where
  "in_files env files = map (\<lambda>f. (can_read env f, ReadFile f)) files"

definition out_files :: "run_env \<Rightarrow> (bool \<times> string) list \<Rightarrow> (bool \<times> desc) list" where
  "out_files env outs = map (\<lambda>(app, f). (can_write env f, if app then AppendFile f else WriteFile f)) outs"

text \<open>What \<open>execute\<close> does with the pipe for background jobs before it gives up.\<close>

definition close_sync :: "bool \<Rightarrow> int \<times> int \<Rightarrow> fds \<Rightarrow> fds" where
  "close_sync bg sync t = (if bg \<and> fst sync \<noteq> -1 then close_all [fst sync, snd sync] t else t)"

text \<open>A helper with a pipe of its own, for more than one file: its pid, the pipe, the state.\<close>

definition helper :: "nat \<Rightarrow> bool \<Rightarrow> (int \<times> int \<Rightarrow> role) \<Rightarrow> (int \<times> int \<Rightarrow> int) \<Rightarrow> xstate \<Rightarrow> int \<times> (int \<times> int) \<times> xstate" where
  "helper limit needed r unused st =
     (if \<not> needed then (-1, (-1, -1), st)
      else
        let (p, st1) = (case make_pipe limit st of None \<Rightarrow> ((-1, -1), emit (Err ''pipe error'') st) | Some (a, b, s) \<Rightarrow> ((a, b), s));
            (pid, st2) = do_fork st1
        in (pid, p, if pid > 0 then add_kid pid (r p) None (close_fd (unused p) (x_fds st2)) st2 else st2))"

text \<open>
  The descriptors of a command when it calls \<open>execv\<close>: a background job waits for the shell and reads from
  \<^verbatim>\<open>/dev/null\<close> if nothing else is given, then standard input and output are set.
\<close>

definition start_fds :: "nat \<Rightarrow> bool \<Rightarrow> int \<times> int \<Rightarrow> bool \<Rightarrow> fds \<Rightarrow> fds" where
  "start_fds limit bg sync tty t =
     (if bg then
        let u = close_fd (fst sync) (close_fd (snd sync) t) in
        if tty then (case new_fd limit u of None \<Rightarrow> u | Some dev \<Rightarrow> close_fd dev (dup2 dev 0 (u(dev := Some DevNull)))) else u
      else t)"

definition wire_in :: "int list \<Rightarrow> int \<times> int \<Rightarrow> int \<Rightarrow> fds \<Rightarrow> fds" where
  "wire_in stored pipefd in_fd t =
     (if length stored = 1 then dup2 (hd stored) 0 t
      else if length stored > 1 then close_all [fst pipefd, snd pipefd] (dup2 (fst pipefd) 0 t)
      else if in_fd \<noteq> 0 then dup2 in_fd 0 t else t)"

definition wire_out :: "int list \<Rightarrow> int \<times> int \<Rightarrow> bool \<Rightarrow> int \<times> int \<Rightarrow> fds \<Rightarrow> fds" where
  "wire_out out_stored out_pipefd is_last fd t =
     (if length out_stored = 1 then dup2 (hd out_stored) 1 t
      else if length out_stored > 1 then close_all [fst out_pipefd, snd out_pipefd] (dup2 (snd out_pipefd) 1 t)
      else if \<not> is_last then dup2 (snd fd) 1 t else t)"

definition command_fds ::
  "nat \<Rightarrow> bool \<Rightarrow> int \<times> int \<Rightarrow> bool \<Rightarrow> int \<Rightarrow> int \<times> int \<Rightarrow> int list \<Rightarrow> int \<times> int \<Rightarrow> int list \<Rightarrow> int \<times> int \<Rightarrow> fds \<Rightarrow> fds" where
  "command_fds limit bg sync is_last in_fd fd stored pipefd out_stored out_pipefd t =
     (let t1 = start_fds limit bg sync (stored = [] \<and> in_fd = 0) t;
          t3 = wire_out out_stored out_pipefd is_last fd (wire_in stored pipefd in_fd t1);
          t4 = (if in_fd \<noteq> 0 then close_fd in_fd t3 else t3);
          t5 = (if \<not> is_last then close_all [fst fd, snd fd] t4 else t4)
      in close_all out_stored (close_all stored t5))"

text \<open>The descriptors of the shell after it has forked a command.\<close>

definition shell_fds :: "bool \<Rightarrow> int \<Rightarrow> int \<times> int \<Rightarrow> int list \<Rightarrow> int \<times> int \<Rightarrow> int list \<Rightarrow> int \<times> int \<Rightarrow> fds \<Rightarrow> fds" where
  "shell_fds is_last in_fd fd stored pipefd out_stored out_pipefd t =
     (let t1 = (if length stored > 1 then close_all [fst pipefd, snd pipefd] t else t);
          t2 = (if length out_stored > 1 then close_all [fst out_pipefd, snd out_pipefd] t1 else t1);
          t3 = close_all out_stored (close_all stored t2);
          t4 = (if in_fd \<noteq> 0 then close_fd in_fd t3 else t3)
      in if \<not> is_last then close_fd (snd fd) t4 else t4)"

text \<open>
  \<open>Undefined\<close> is a copy past the 256 bytes of a name, \<open>Return\<close> a \<open>return 0\<close>, \<open>Skip\<close> a \<open>continue\<close>; \<open>Spawned\<close> gives
  the next \<open>in_fd\<close>, the pids of the command, the feeder and the writer, and the name.
\<close>

datatype stage_result = Undefined | Return xstate | Skip xstate | Spawned xstate int int int int string

text \<open>The forks of a stage whose files are open.\<close>

definition spawn :: "run_env \<Rightarrow> bool \<Rightarrow> int \<times> int \<Rightarrow> bool \<Rightarrow> int list \<Rightarrow> int \<Rightarrow> int \<times> int \<Rightarrow> string \<Rightarrow> string list \<Rightarrow> string \<Rightarrow>
    int list \<Rightarrow> int list \<Rightarrow> xstate \<Rightarrow> stage_result" where
  "spawn env bg sync is_last pids in_fd fd p args name stored out_stored st =
     (let (feeder, pipefd, st1) = helper (fd_limit env) (length stored > 1) (\<lambda>(a, b). Feeder stored b) fst st;
          (writer, out_pipefd, st2) = helper (fd_limit env) (length out_stored > 1) (\<lambda>(a, b). Writer a out_stored) snd st1;
          (pid, st3) = do_fork st2
      in if pid < 0 then Return (upd_fds (close_sync bg sync) (emit (Err ''fork error'') st3))
         else
           Spawned
             (upd_fds (shell_fds is_last in_fd fd stored pipefd out_stored out_pipefd)
               (add_kid pid (Command p (name # tl args)) (Some (if pids = [] then 0 else hd pids))
                 (command_fds (fd_limit env) bg sync is_last in_fd fd stored pipefd out_stored out_pipefd (x_fds st3)) st3))
             (if is_last then in_fd else fst fd) pid feeder writer name)"

text \<open>The body of the loop; \<open>pids\<close> are those of the stages before.\<close>

definition run_stage :: "run_env \<Rightarrow> bool \<Rightarrow> int \<times> int \<Rightarrow> bool \<Rightarrow> int list \<Rightarrow> int \<Rightarrow> string list \<Rightarrow> xstate \<Rightarrow> stage_result" where
  "run_stage env bg sync is_last pids in_fd input st =
     (let give_up = (\<lambda>e s. Return (upd_fds (close_sync bg sync) (emit (Err e) s))) in
      if input = [] then give_up (''cshell: syntax error near unexpected token `|`'' @ [newline]) st
      else
        case (if is_last then Some (-1, -1, st) else make_pipe (fd_limit env) st) of
          None \<Rightarrow> give_up ''pipe error'' st
        | Some (fd0, fd1, st1) \<Rightarrow>
            (case parse_stage input of
               None \<Rightarrow> give_up (''cshell: syntax error'' @ [newline]) st1
             | Some (args, files, outs) \<Rightarrow>
                 if args = [] then Skip st1
                 else
                   let name = (if take 1 (hd args) = ''%'' then drop 1 (hd args) else hd args) in
                   if length name \<ge> NAME_LEN then Undefined
                   else
                     let (stored, ok, t) = open_all (fd_limit env) (in_files env files) (x_fds st1) in
                     if \<not> ok then
                       give_up (''cshell: no such file or directory'' @ [newline]) (st1\<lparr>x_fds := close_all stored t\<rparr>)
                     else
                       let (out_stored, out_ok, t2) = open_all (fd_limit env) (out_files env outs) t in
                       if \<not> out_ok then
                         give_up (''cshell: unable to create file for writing'' @ [newline])
                           (st1\<lparr>x_fds := close_all out_stored (close_all stored t2)\<rparr>)
                       else
                         (case path_of (exec_env.truncate env) (hd args) of
                            None \<Rightarrow>
                              give_up (''cshell: command not found ('' @ name @ '')'' @ [newline])
                                (st1\<lparr>x_fds := close_all out_stored (close_all stored t2)\<rparr>)
                          | Some p \<Rightarrow> spawn env bg sync is_last pids in_fd (fd0, fd1) p args name stored out_stored (st1\<lparr>x_fds := t2\<rparr>))))"

section \<open>The pipeline\<close>

text \<open>The words between pipes.\<close>

fun split_pipes :: "string list \<Rightarrow> string list list" where
  "split_pipes [] = [[]]"
| "split_pipes (w # ws) =
     (if w = ''|'' then [] # split_pipes ws
      else case split_pipes ws of [] \<Rightarrow> [[w]] | g # gs \<Rightarrow> (w # g) # gs)"

text \<open>What is known of the stages so far; a stage that was skipped has no name and pid \<open>-1\<close>.\<close>

record stages =
  s_pids :: "int list"
  s_helpers :: "(int \<times> int) list"
  s_names :: "string option list"

datatype loop_result = LUndefined | LReturn xstate | LDone xstate stages

definition add_stage :: "int \<Rightarrow> int \<Rightarrow> int \<Rightarrow> string option \<Rightarrow> stages \<Rightarrow> stages" where
  "add_stage pid feeder writer name g =
     \<lparr>s_pids = s_pids g @ [pid], s_helpers = s_helpers g @ [(feeder, writer)], s_names = s_names g @ [name]\<rparr>"

fun run_stages :: "run_env \<Rightarrow> bool \<Rightarrow> int \<times> int \<Rightarrow> string list list \<Rightarrow> stages \<Rightarrow> int \<Rightarrow> xstate \<Rightarrow> loop_result" where
  "run_stages env bg sync [] g in_fd st = LDone st g"
| "run_stages env bg sync (input # rest) g in_fd st =
     (case run_stage env bg sync (rest = []) (s_pids g) in_fd input st of
        Undefined \<Rightarrow> LUndefined
      | Return st' \<Rightarrow> LReturn st'
      | Skip st' \<Rightarrow> run_stages env bg sync rest (add_stage (-1) (-1) (-1) None g) in_fd st'
      | Spawned st' in_fd' pid feeder writer name \<Rightarrow>
          run_stages env bg sync rest (add_stage pid feeder writer (Some name) g) in_fd' st')"

section \<open>execute\<close>

text \<open>
  The waits for a job in the foreground. Each consumes one return of \<open>waitpid\<close>; its result is not looked
  at, so the status recorded is whatever the variable holds. \<open>None\<close> when \<open>waitpid\<close> does not return.
\<close>

definition wait_helper :: "int \<Rightarrow> wait_ev list \<Rightarrow> jobs_state \<Rightarrow> (jobs_state \<times> wait_ev list) option" where
  "wait_helper pid es s =
     (if pid > 0 then (case es of [] \<Rightarrow> None | e # es' \<Rightarrow> Some (wait_signals e s, es')) else Some (s, es))"

definition wait_command :: "int \<Rightarrow> wait_ev list \<Rightarrow> jobs_state \<Rightarrow> (bool \<times> jobs_state \<times> wait_ev list) option" where
  "wait_command pid es s =
     (if pid > 0 then
        (case es of
           [] \<Rightarrow> None
         | e # es' \<Rightarrow> Some (WIFSTOPPED (we_status e), update_state pid (we_status e) [] (wait_signals e s), es'))
      else Some (False, s, es))"

fun wait_stages :: "(int \<times> int \<times> int) list \<Rightarrow> bool \<Rightarrow> wait_ev list \<Rightarrow> jobs_state \<Rightarrow> (bool \<times> jobs_state) option" where
  "wait_stages [] stop es s = Some (stop, s)"
| "wait_stages ((pid, feeder, writer) # ks) stop es s =
     (case wait_command pid es s of
        None \<Rightarrow> None
      | Some (st, s1, es1) \<Rightarrow>
          (case wait_helper feeder es1 s1 of
             None \<Rightarrow> None
           | Some (s2, es2) \<Rightarrow>
               (case wait_helper writer es2 s2 of
                  None \<Rightarrow> None
                | Some (s3, es3) \<Rightarrow> wait_stages ks (stop \<or> st) es3 s3)))"

record shell =
  sh_x :: xstate
  sh_jobs :: jobs_state
  sh_prs_id :: int

fun join_words :: "string list \<Rightarrow> string" where
  "join_words [] = []"
| "join_words [w] = w"
| "join_words (w # v # ws) = w @ '' '' @ join_words (v # ws)"

definition opt_pipe :: "nat \<Rightarrow> bool \<Rightarrow> xstate \<Rightarrow> (int \<times> int) \<times> xstate" where
  "opt_pipe limit bg st =
     (if bg then (case make_pipe limit st of None \<Rightarrow> ((-1, -1), emit (Err ''pipe error'') st) | Some (a, b, s) \<Rightarrow> ((a, b), s))
      else ((-1, -1), st))"

text \<open>
  The end of \<open>execute\<close>, once every stage runs. \<open>self\<close> is \<open>getpid()\<close>, \<open>final\<close> what the closing \<open>print_prs\<close> polls.
  \<open>None\<close> also when the name of a skipped stage, which was never set, is copied.
\<close>

definition start_job ::
  "int \<Rightarrow> wait_ev list \<Rightarrow> report list \<Rightarrow> bool \<Rightarrow> int \<times> int \<Rightarrow> string \<Rightarrow> xstate \<Rightarrow> stages \<Rightarrow> shell \<Rightarrow> (int \<times> shell) option" where
  "start_job self waits final bg sync cmd st g sh =
     (let job_id = sh_prs_id sh; pgid = hd (s_pids g) in
      if None \<in> set (s_names g) then None
      else
        case add_job job_id pgid (zip (s_pids g) (map the (s_names g))) (if bg then 1 else 0) (Some cmd) (sh_jobs sh) of
          None \<Rightarrow> None
        | Some js \<Rightarrow>
            if bg then
              let st1 = emit (Out (''['' @ show_int job_id @ ''] '' @ show_int pgid @ [newline])) (upd_fds (close_fd (fst sync)) st)
              in Some (1, \<lparr>sh_x = upd_fds (close_fd (snd sync)) st1, sh_jobs = js, sh_prs_id = job_id + 1\<rparr>)
            else
              case wait_stages (zip (s_pids g) (s_helpers g)) False waits js of
                None \<Rightarrow> None
              | Some (stop, js1) \<Rightarrow>
                  let (out, js2) = print_prs final js1;
                      note = (if stop then [Out (''['' @ show_int job_id @ ''] + Stopped    '' @ cmd @ [newline])] else [])
                  in Some (1, \<lparr>sh_x = st\<lparr>x_out := x_out st @ [Tcsetpgrp pgid, Tcsetpgrp self] @ note @ out\<rparr>,
                       sh_jobs = js2, sh_prs_id = job_id + 1\<rparr>))"

definition execute :: "run_env \<Rightarrow> int \<Rightarrow> wait_ev list \<Rightarrow> report list \<Rightarrow> string list \<Rightarrow> bool \<Rightarrow> shell \<Rightarrow> (int \<times> shell) option" where
  "execute env self waits final input bg sh =
     (if input = [] then Some (1, sh)
      else if length (join_words input) \<ge> CMD_LEN then None
      else
        let (sync, st) = opt_pipe (fd_limit env) bg (sh_x sh) in
        case run_stages env bg sync (split_pipes input) \<lparr>s_pids = [], s_helpers = [], s_names = []\<rparr> 0 st of
          LUndefined \<Rightarrow> None
        | LReturn st' \<Rightarrow> Some (0, sh\<lparr>sh_x := st'\<rparr>)
        | LDone st' g \<Rightarrow> start_job self waits final bg sync (join_words input) st' g sh)"

section \<open>No descriptor is left open\<close>

text \<open>Tables that agree outside a set of descriptors.\<close>

definition agree :: "fds \<Rightarrow> fds \<Rightarrow> int set \<Rightarrow> bool" where
  "agree t0 t A \<longleftrightarrow> (\<forall>fd. fd \<notin> A \<longrightarrow> t fd = t0 fd)"

lemma agree_mono: "agree t0 t A \<Longrightarrow> A \<subseteq> B \<Longrightarrow> agree t0 t B"
  by (auto simp: agree_def)

lemma agree_empty: "agree t0 t {} \<longleftrightarrow> t = t0"
  by (auto simp: agree_def)

lemma agree_close: "agree t0 t A \<Longrightarrow> t0 fd = None \<Longrightarrow> agree t0 (close_fd fd t) (A - {fd})"
  by (auto simp: agree_def close_fd_def)

lemma agree_close_all: "agree t0 t A \<Longrightarrow> \<forall>fd\<in>set fs. t0 fd = None \<Longrightarrow> agree t0 (close_all fs t) (A - set fs)"
proof (induction fs arbitrary: t A)
  case (Cons fd fs)
  then have "agree t0 (close_all fs (close_fd fd t)) (A - {fd} - set fs)" by (intro Cons.IH agree_close) auto
  then show ?case by (simp add: close_all_def Diff_insert [symmetric] insert_Diff_if) (metis Diff_insert Diff_insert2)
qed (simp add: close_all_def)

lemma agree_dup2: "agree t0 t A \<Longrightarrow> agree t0 (dup2 a b t) (insert b A)"
  by (auto simp: agree_def dup2_def split: option.split)

lemma agree_upd: "agree t0 t A \<Longrightarrow> agree t0 (t(fd := d)) (insert fd A)"
  by (auto simp: agree_def)

lemma new_fd_free: "new_fd limit t = Some fd \<Longrightarrow> t fd = None \<and> fd \<ge> 0"
  by (auto simp: new_fd_def find_Some_iff)

text \<open>Descriptors that were free to begin with.\<close>

definition spare :: "fds \<Rightarrow> int set \<Rightarrow> bool" where
  "spare t0 A \<longleftrightarrow> (\<forall>fd\<in>A. t0 fd = None)"

lemma spare_simps [simp]: "spare t0 {}" "spare t0 (insert fd A) \<longleftrightarrow> t0 fd = None \<and> spare t0 A" "spare t0 (A \<union> B) \<longleftrightarrow> spare t0 A \<and> spare t0 B"
  by (auto simp: spare_def)

lemma new_fd_spare: "agree t0 t A \<Longrightarrow> spare t0 A \<Longrightarrow> new_fd limit t = Some fd \<Longrightarrow> t0 fd = None"
  using new_fd_free [of limit t fd] by (cases "fd \<in> A") (auto simp: agree_def spare_def)

lemma open_all_agree:
  assumes "agree t0 t A" and "spare t0 A" and "open_all limit ds t = (fs, all, t')"
  shows "agree t0 t' (A \<union> set fs) \<and> spare t0 (set fs) \<and> (\<forall>fd\<in>set fs. fd \<ge> 0)"
  using assms
proof (induction limit ds t arbitrary: A fs all t' rule: open_all.induct)
  case (2 limit ok d ds t)
  show ?case
  proof (cases "ok \<and> new_fd limit t \<noteq> None")
    case True
    then obtain fd fs1 ok1 where fd: "new_fd limit t = Some fd" "open_all limit ds (t(fd := Some d)) = (fs1, ok1, t')" "fs = fd # fs1"
      using "2.prems"(3) by (auto split: prod.splits)
    have "agree t0 t' (insert fd A \<union> set fs1) \<and> spare t0 (set fs1) \<and> (\<forall>fd\<in>set fs1. fd \<ge> 0)"
      using True "2.prems" fd new_fd_spare [OF "2.prems"(1,2) fd(1)] by (intro "2.IH" [OF _ _ _ fd(2)] agree_upd) simp_all
    then show ?thesis using fd(3) new_fd_spare [OF "2.prems"(1,2) fd(1)] new_fd_free [OF fd(1)] by simp
  qed (use "2.prems" in \<open>auto split: option.splits if_splits\<close>)
qed auto

lemma make_pipe_agree:
  assumes "agree t0 (x_fds st) A" and "spare t0 A" and "make_pipe limit st = Some (r, w, st')"
  shows "agree t0 (x_fds st') (insert r (insert w A)) \<and> t0 r = None \<and> t0 w = None \<and> r \<ge> 0 \<and> w \<ge> 0"
proof -
  let ?t = "(x_fds st)(r := Some (PipeR (x_pipes st)))"
  have r: "new_fd limit (x_fds st) = Some r" and w: "new_fd limit ?t = Some w" and st': "x_fds st' = ?t(w := Some (PipeW (x_pipes st)))"
    using assms(3) by (auto simp: make_pipe_def Let_def split: option.splits)
  have r0: "t0 r = None" by (rule new_fd_spare [OF assms(1,2) r])
  have a: "agree t0 ?t (insert r A)" by (rule agree_upd [OF assms(1)])
  have "t0 w = None" by (rule new_fd_spare [OF a _ w]) (use r0 assms(2) in simp)
  then show ?thesis using agree_upd [OF a, of w] r0 new_fd_free [OF r] new_fd_free [OF w] st' by (simp add: insert_commute)
qed

definition is_command :: "kid \<Rightarrow> bool" where
  "is_command k = (case k_role k of Command p args \<Rightarrow> True | _ \<Rightarrow> False)"

text \<open>A pipe, or the pair of \<open>-1\<close> where there is none.\<close>

definition ends :: "int \<times> int \<Rightarrow> int set" where
  "ends p = {fst p, snd p} - {-1}"

lemma ends_spare: "spare t0 (ends p) \<Longrightarrow> t0 (-1) = None \<Longrightarrow> t0 (fst p) = None \<and> t0 (snd p) = None"
  by (cases "fst p = -1"; cases "snd p = -1") (simp_all add: ends_def spare_def)

lemma fds_simps [simp]:
  "x_fds (emit e st) = x_fds st" "x_kids (emit e st) = x_kids st" "x_pipes (emit e st) = x_pipes st" "x_fds (add_kid pid r g t st) = x_fds st"
  "x_fds (upd_fds f st) = f (x_fds st)" "x_kids (upd_fds f st) = x_kids st" "x_pipes (upd_fds f st) = x_pipes st"
  "x_kids (add_kid pid r g t st) = x_kids st @ [\<lparr>k_pid = pid, k_role = r, k_group = g, k_fds = t\<rparr>]" "x_pipes (add_kid pid r g t st) = x_pipes st"
  by (simp_all add: emit_def add_kid_def upd_fds_def)

lemma do_fork_simps: "do_fork st = (pid, st') \<Longrightarrow> x_fds st' = x_fds st \<and> x_kids st' = x_kids st \<and> x_pipes st' = x_pipes st"
  by (auto simp: do_fork_def split: list.splits)

lemma make_pipe_kids: "make_pipe limit st = Some (r, w, st') \<Longrightarrow> x_kids st' = x_kids st"
  by (auto simp: make_pipe_def Let_def split: option.splits)

lemma helper_agree:
  assumes a: "agree t0 (x_fds st) A" "spare t0 A" "t0 (-1) = None" and h: "helper limit needed r u st = (pid, p, st')"
    and r: "\<And>p. \<not> is_command \<lparr>k_pid = pid, k_role = r p, k_group = None, k_fds = t\<rparr>"
  shows "agree t0 (x_fds st') (A \<union> ends p) \<and> spare t0 (ends p) \<and> (needed \<or> ends p = {}) \<and>
    filter is_command (x_kids st') = filter is_command (x_kids st)"
proof (cases needed)
  case True
  define q where "q = (case make_pipe limit st of None \<Rightarrow> ((-1, -1), emit (Err ''pipe error'') st) | Some (a, b, s) \<Rightarrow> ((a, b), s))"
  obtain st1 where q': "q = (p, st1)" and st': "x_fds st' = x_fds st1" "filter is_command (x_kids st') = filter is_command (x_kids st1)"
  proof -
    obtain p1 st1 where q1: "q = (p1, st1)" by fastforce
    obtain pid1 st2 where f: "do_fork st1 = (pid1, st2)" by fastforce
    have "pid = pid1 \<and> p = p1 \<and> st' = (if pid1 > 0 then add_kid pid1 (r p1) None (close_fd (u p1) (x_fds st2)) st2 else st2)"
      using h True q1 f unfolding helper_def q_def by (auto split: prod.splits if_splits)
    then show ?thesis using q1 do_fork_simps [OF f] r that by (auto simp: is_command_def split: role.splits)
  qed
  show ?thesis
  proof (cases "make_pipe limit st")
    case None
    then show ?thesis using q' a st' \<open>needed\<close> by (auto simp: q_def ends_def intro: agree_mono)
  next
    case (Some x)
    obtain w r' s where x: "x = (r', w, s)" by (cases x)
    with Some q' have p: "p = (r', w)" "st1 = s" by (simp_all add: q_def)
    have m: "agree t0 (x_fds st1) (insert r' (insert w A)) \<and> t0 r' = None \<and> t0 w = None \<and> r' \<ge> 0 \<and> w \<ge> 0"
      using make_pipe_agree [OF a(1,2)] Some x p by blast
    then have "insert r' (insert w A) = A \<union> ends p" "spare t0 (ends p)" by (auto simp: ends_def spare_def p)
    then show ?thesis using m st' make_pipe_kids [of limit st r' w s] Some x p \<open>needed\<close> by simp
  qed
qed (use a h in \<open>auto simp: helper_def ends_def\<close>)

lemma close_all_simps [simp]: "close_all [] t = t" "close_all (fd # fs) t = close_all fs (close_fd fd t)" "close_all fs (close_all gs t) = close_all (gs @ fs) t"
  by (simp_all add: close_all_def)

lemma shell_fds_closes:
  "shell_fds is_last in_fd fd stored pipefd out_stored out_pipefd t =
     close_all ((if length stored > 1 then [fst pipefd, snd pipefd] else []) @
       (if length out_stored > 1 then [fst out_pipefd, snd out_pipefd] else []) @ stored @ out_stored @
       (if in_fd \<noteq> 0 then [in_fd] else []) @ (if is_last then [] else [snd fd])) t"
  by (simp add: shell_fds_def Let_def close_all_def)

text \<open>Descriptors of a stage: those of the stages around it, its files and its helpers' pipes.\<close>

definition stage_set :: "bool \<Rightarrow> int \<times> int \<Rightarrow> int \<Rightarrow> int \<times> int \<Rightarrow> int list \<Rightarrow> int \<times> int \<Rightarrow> int list \<Rightarrow> int \<times> int \<Rightarrow> int set" where
  "stage_set is_last sync in_fd fd stored pipefd out_stored out_pipefd =
     ends sync \<union> ({in_fd} - {0}) \<union> (if is_last then {} else {fst fd, snd fd}) \<union> set stored \<union> set out_stored \<union>
     (if length stored > 1 then ends pipefd else {}) \<union> (if length out_stored > 1 then ends out_pipefd else {})"

lemma shell_fds_agree:
  assumes a: "agree t0 t (stage_set is_last sync in_fd fd stored pipefd out_stored out_pipefd)"
    and s: "spare t0 (stage_set is_last sync in_fd fd stored pipefd out_stored out_pipefd)" "t0 (-1) = None"
  shows "agree t0 (shell_fds is_last in_fd fd stored pipefd out_stored out_pipefd t) (ends sync \<union> (if is_last then {} else {fst fd}))"
  unfolding shell_fds_closes
  by (rule agree_mono [OF agree_close_all [OF a]])
    (use s in \<open>auto simp: stage_set_def spare_def ends_def split: if_splits\<close>)

lemma agree_close01: "agree t0 t (insert 0 (insert 1 A)) \<Longrightarrow> t0 fd = None \<Longrightarrow> agree t0 (close_fd fd t) (insert 0 (insert 1 (A - {fd})))"
  by (auto simp: agree_def close_fd_def)

lemma agree_closes01: "agree t0 t (insert 0 (insert 1 A)) \<Longrightarrow> \<forall>fd\<in>set fs. t0 fd = None \<Longrightarrow>
    agree t0 (close_all fs t) (insert 0 (insert 1 (A - set fs)))"
  by (rule agree_mono [OF agree_close_all]) auto

lemma agree_dup01: "agree t0 t (insert 0 (insert 1 A)) \<Longrightarrow> b = 0 \<or> b = 1 \<Longrightarrow> agree t0 (dup2 a b t) (insert 0 (insert 1 A))"
  using agree_dup2 [of t0 t "insert 0 (insert 1 A)" a b] by (auto simp: insert_absorb)

lemma start_fds_agree:
  assumes a: "agree t0 t A" "spare t0 A" "t0 (-1) = None" "-1 \<notin> A" and sy: "ends sync \<subseteq> A" "bg \<or> ends sync = {}"
  shows "agree t0 (start_fds limit bg sync tty t) (insert 0 (insert 1 (A - ends sync)))"
proof (cases bg)
  case True
  have snn: "t0 (fst sync) = None \<and> t0 (snd sync) = None" using a(2) sy(1) by (intro ends_spare a(3)) (auto simp: spare_def)
  define u where "u = close_fd (fst sync) (close_fd (snd sync) t)"
  have "agree t0 u (A - {snd sync} - {fst sync})" unfolding u_def using snn by (intro agree_close a) simp_all
  then have ag: "agree t0 u (A - ends sync)" by (rule agree_mono) (auto simp: ends_def)
  show ?thesis
  proof (cases "tty \<and> new_fd limit u \<noteq> None")
    case True
    then obtain dev where dev: "new_fd limit u = Some dev" by auto
    have "t0 dev = None" using new_fd_spare [OF ag _ dev] a(2) by (auto simp: spare_def)
    then have "agree t0 (close_fd dev (dup2 dev 0 (u(dev := Some DevNull)))) (insert 0 (insert dev (A - ends sync)) - {dev})"
      by (intro agree_close agree_dup2 agree_upd ag)
    then show ?thesis using True dev \<open>bg\<close> by (auto simp: start_fds_def u_def [symmetric] intro: agree_mono)
  qed (use \<open>bg\<close> ag in \<open>auto simp: start_fds_def u_def [symmetric] intro: agree_mono\<close>)
qed (use assms in \<open>auto simp: start_fds_def intro: agree_mono\<close>)

lemma wire_in_agree:
  assumes t: "agree t0 t (insert 0 (insert 1 A))" and p: "length stored > 1 \<Longrightarrow> t0 (fst pipefd) = None \<and> t0 (snd pipefd) = None"
  shows "agree t0 (wire_in stored pipefd in_fd t) (insert 0 (insert 1 (A - (if length stored > 1 then ends pipefd else {}))))"
proof (cases "length stored > 1")
  case True
  have "agree t0 (close_all [fst pipefd, snd pipefd] (dup2 (fst pipefd) 0 t)) (insert 0 (insert 1 (A - set [fst pipefd, snd pipefd])))"
    using p [OF True] by (intro agree_closes01 agree_dup01 t) auto
  then have "agree t0 (wire_in stored pipefd in_fd t) (insert 0 (insert 1 (A - set [fst pipefd, snd pipefd])))"
    using True by (simp add: wire_in_def del: close_all_simps)
  then show ?thesis by (rule agree_mono) (use True in \<open>auto simp: ends_def\<close>)
qed (use t in \<open>auto simp: wire_in_def intro: agree_dup01\<close>)

lemma wire_out_agree:
  assumes t: "agree t0 t (insert 0 (insert 1 A))" and p: "length out_stored > 1 \<Longrightarrow> t0 (fst out_pipefd) = None \<and> t0 (snd out_pipefd) = None"
  shows "agree t0 (wire_out out_stored out_pipefd is_last fd t) (insert 0 (insert 1 (A - (if length out_stored > 1 then ends out_pipefd else {}))))"
proof (cases "length out_stored > 1")
  case True
  have "agree t0 (close_all [fst out_pipefd, snd out_pipefd] (dup2 (snd out_pipefd) 1 t)) (insert 0 (insert 1 (A - set [fst out_pipefd, snd out_pipefd])))"
    using p [OF True] by (intro agree_closes01 agree_dup01 t) auto
  then have "agree t0 (wire_out out_stored out_pipefd is_last fd t) (insert 0 (insert 1 (A - set [fst out_pipefd, snd out_pipefd])))"
    using True by (simp add: wire_out_def del: close_all_simps)
  then show ?thesis by (rule agree_mono) (use True in \<open>auto simp: ends_def\<close>)
qed (use t in \<open>auto simp: wire_out_def intro: agree_dup01\<close>)

text \<open>A command starts with the descriptors of the shell, its standard input and output aside.\<close>

lemma command_fds_agree:
  assumes a: "agree t0 t (stage_set is_last sync in_fd fd stored pipefd out_stored out_pipefd)"
    and s: "spare t0 (stage_set is_last sync in_fd fd stored pipefd out_stored out_pipefd)" "t0 (-1) = None"
      "-1 \<notin> stage_set is_last sync in_fd fd stored pipefd out_stored out_pipefd"
    and sy: "bg \<or> ends sync = {}"
  shows "agree t0 (command_fds limit bg sync is_last in_fd fd stored pipefd out_stored out_pipefd t) {0, 1}"
proof -
  let ?A = "stage_set is_last sync in_fd fd stored pipefd out_stored out_pipefd"
  have nn: "t0 x = None" if "x \<in> ?A" for x using s(1) that by (auto simp: spare_def)
  define t1 where "t1 = start_fds limit bg sync (stored = [] \<and> in_fd = 0) t"
  define A1 where "A1 = ?A - ends sync"
  have t1: "agree t0 t1 (insert 0 (insert 1 A1))"
    unfolding t1_def A1_def by (intro start_fds_agree a s sy) (auto simp: stage_set_def)
  have p: "t0 (fst pipefd) = None \<and> t0 (snd pipefd) = None" if "length stored > 1"
    using that s(1) by (intro ends_spare s(2)) (auto simp: stage_set_def)
  have q: "t0 (fst out_pipefd) = None \<and> t0 (snd out_pipefd) = None" if "length out_stored > 1"
    using that s(1) by (intro ends_spare s(2)) (auto simp: stage_set_def)
  define A3 where "A3 = A1 - (if length stored > 1 then ends pipefd else {}) - (if length out_stored > 1 then ends out_pipefd else {})"
  define t3 where "t3 = wire_out out_stored out_pipefd is_last fd (wire_in stored pipefd in_fd t1)"
  have t3: "agree t0 t3 (insert 0 (insert 1 A3))"
    unfolding t3_def A3_def by (rule wire_out_agree [OF wire_in_agree [OF t1]]) (use p q in blast)+
  define fs where "fs = (if in_fd \<noteq> 0 then [in_fd] else []) @ (if is_last then [] else [fst fd, snd fd]) @ stored @ out_stored"
  have "command_fds limit bg sync is_last in_fd fd stored pipefd out_stored out_pipefd t = close_all fs t3"
    unfolding command_fds_def fs_def t3_def t1_def Let_def by (simp add: close_all_def)
  moreover have "agree t0 (close_all fs t3) (insert 0 (insert 1 (A3 - set fs)))"
    using nn by (intro agree_closes01 t3) (auto simp: fs_def stage_set_def)
  moreover have "A3 - set fs = {}" by (auto simp: A3_def A1_def fs_def stage_set_def)
  ultimately show ?thesis by simp
qed

definition base_fds :: "fds \<Rightarrow> bool" where
  "base_fds t0 \<longleftrightarrow> t0 (-1) = None \<and> t0 0 \<noteq> None \<and> t0 1 \<noteq> None"

definition stage_inv :: "fds \<Rightarrow> bool \<Rightarrow> int \<times> int \<Rightarrow> int \<Rightarrow> xstate \<Rightarrow> bool" where
  "stage_inv t0 bg sync in_fd st \<longleftrightarrow> agree t0 (x_fds st) (ends sync \<union> ({in_fd} - {0})) \<and>
     spare t0 (ends sync \<union> ({in_fd} - {0})) \<and> in_fd \<noteq> -1 \<and> (bg \<or> ends sync = {})"

text \<open>One more command, which starts with the descriptors \<open>t0\<close> but for standard input and output.\<close>

definition one_more :: "fds \<Rightarrow> xstate \<Rightarrow> xstate \<Rightarrow> bool" where
  "one_more t0 st st' \<longleftrightarrow>
     (\<exists>k. filter is_command (x_kids st') = filter is_command (x_kids st) @ [k] \<and> agree t0 (k_fds k) {0, 1})"

lemma spawn_agree:
  assumes t0: "t0 (-1) = None" and sy: "bg \<or> ends sync = {}" and fd: "\<not> is_last \<Longrightarrow> fst fd \<noteq> -1 \<and> snd fd \<noteq> -1"
    and A: "A = ends sync \<union> ({in_fd} - {0}) \<union> (if is_last then {} else {fst fd, snd fd}) \<union> set stored \<union> set out_stored"
    and a: "agree t0 (x_fds st) A" "spare t0 A" "-1 \<notin> A"
    and sp: "spawn env bg sync is_last pids in_fd fd p args name stored out_stored st = Spawned st' in_fd' pid feeder writer name'"
  shows "agree t0 (x_fds st') (ends sync \<union> (if is_last then {} else {fst fd})) \<and> in_fd' = (if is_last then in_fd else fst fd) \<and> one_more t0 st st'"
proof -
  obtain f1 pipefd st1 where h1: "helper (fd_limit env) (length stored > 1) (\<lambda>(a, b). Feeder stored b) fst st = (f1, pipefd, st1)"
    by (metis prod_cases3)
  obtain w1 out_pipefd st2 where h2: "helper (fd_limit env) (length out_stored > 1) (\<lambda>(a, b). Writer a out_stored) snd st1 = (w1, out_pipefd, st2)"
    by (metis prod_cases3)
  obtain pid1 st3 where f: "do_fork st2 = (pid1, st3)" by fastforce
  have H1: "agree t0 (x_fds st1) (A \<union> ends pipefd) \<and> spare t0 (ends pipefd) \<and> (length stored > 1 \<or> ends pipefd = {}) \<and>
      filter is_command (x_kids st1) = filter is_command (x_kids st)"
    by (rule helper_agree [OF a(1,2) t0 h1]) (simp add: is_command_def split: prod.split)
  then have s1: "agree t0 (x_fds st1) (A \<union> ends pipefd)" "spare t0 (A \<union> ends pipefd)" using a(2) by simp_all
  have H2: "agree t0 (x_fds st2) (A \<union> ends pipefd \<union> ends out_pipefd) \<and> spare t0 (ends out_pipefd) \<and> (length out_stored > 1 \<or> ends out_pipefd = {}) \<and>
      filter is_command (x_kids st2) = filter is_command (x_kids st1)"
    by (rule helper_agree [OF s1 t0 h2]) (simp add: is_command_def split: prod.split)
  let ?S = "stage_set is_last sync in_fd fd stored pipefd out_stored out_pipefd"
  have S: "?S = A \<union> ends pipefd \<union> ends out_pipefd" using H1 H2 by (auto simp: stage_set_def A)
  have g: "agree t0 (x_fds st3) ?S" "spare t0 ?S" "-1 \<notin> ?S"
    unfolding S using H2 s1(2) a(3) do_fork_simps [OF f] by (auto simp: ends_def)
  let ?k = "command_fds (fd_limit env) bg sync is_last in_fd fd stored pipefd out_stored out_pipefd (x_fds st3)"
  have st': "st' = upd_fds (shell_fds is_last in_fd fd stored pipefd out_stored out_pipefd)
      (add_kid pid1 (Command p (name # tl args)) (Some (if pids = [] then 0 else hd pids)) ?k st3)"
    and in': "in_fd' = (if is_last then in_fd else fst fd)"
    using sp h1 h2 f by (auto simp: spawn_def Let_def split: if_splits)
  have "agree t0 (x_fds st') (ends sync \<union> (if is_last then {} else {fst fd}))"
    using shell_fds_agree [OF g(1,2) t0] by (simp add: st')
  moreover have "one_more t0 st st'"
    using command_fds_agree [OF g(1,2) t0 g(3) sy] do_fork_simps [OF f] H1 H2 by (auto simp: one_more_def st' is_command_def)
  ultimately show ?thesis using in' by blast
qed

lemma run_stage_agree:
  assumes t0: "t0 (-1) = None" "t0 0 \<noteq> None" and inv: "stage_inv t0 bg sync in_fd st"
    and r: "run_stage env bg sync is_last pids in_fd input st = Spawned st' in_fd' pid feeder writer name"
  shows "agree t0 (x_fds st') (ends sync \<union> (if is_last then {} else {in_fd'})) \<and> (\<not> is_last \<longrightarrow> stage_inv t0 bg sync in_fd' st') \<and>
    one_more t0 st st'"
proof -
  let ?A = "ends sync \<union> ({in_fd} - {0})"
  have a: "agree t0 (x_fds st) ?A" "spare t0 ?A" "-1 \<notin> ?A" "bg \<or> ends sync = {}" using inv by (auto simp: stage_inv_def ends_def)
  obtain fd0 fd1 st1 where mp: "(if is_last then Some (-1, -1, st) else make_pipe (fd_limit env) st) = Some (fd0, fd1, st1)"
    using r by (auto simp: run_stage_def Let_def split: if_splits option.splits)
  obtain args files outs where ps: "parse_stage input = Some (args, files, outs)"
    using r mp by (auto simp: run_stage_def Let_def split: if_splits option.splits)
  obtain stored ok t where o1: "open_all (fd_limit env) (in_files env files) (x_fds st1) = (stored, ok, t)" by (metis prod_cases3)
  obtain out_stored ok2 t2 where o2: "open_all (fd_limit env) (out_files env outs) t = (out_stored, ok2, t2)" by (metis prod_cases3)
  obtain p nm where sp: "spawn env bg sync is_last pids in_fd (fd0, fd1) p args nm stored out_stored (st1\<lparr>x_fds := t2\<rparr>) =
      Spawned st' in_fd' pid feeder writer name"
    using r mp ps o1 o2 by (auto simp: run_stage_def Let_def split: if_splits option.splits)
  let ?B = "?A \<union> (if is_last then {} else {fd0, fd1})"
  have B: "agree t0 (x_fds st1) ?B \<and> spare t0 ?B \<and> -1 \<notin> ?B \<and> filter is_command (x_kids st1) = filter is_command (x_kids st) \<and> (\<not> is_last \<longrightarrow> fd0 \<ge> 0)"
  proof (cases is_last)
    case False
    then have m: "make_pipe (fd_limit env) st = Some (fd0, fd1, st1)" using mp by simp
    have "insert fd0 (insert fd1 ?A) = ?B" using False by auto
    then show ?thesis using make_pipe_agree [OF a(1,2) m] make_pipe_kids [OF m] a(2,3) False by auto
  qed (use mp a in auto)
  have C: "agree t0 t (?B \<union> set stored) \<and> spare t0 (set stored) \<and> (\<forall>fd\<in>set stored. fd \<ge> 0)" by (rule open_all_agree [OF _ _ o1]) (use B in blast)+
  have D: "agree t0 t2 (?B \<union> set stored \<union> set out_stored) \<and> spare t0 (set out_stored) \<and> (\<forall>fd\<in>set out_stored. fd \<ge> 0)"
    by (rule open_all_agree [OF _ _ o2]) (use B C in auto)
  have E: "agree t0 (x_fds st') (ends sync \<union> (if is_last then {} else {fst (fd0, fd1)})) \<and> in_fd' = (if is_last then in_fd else fst (fd0, fd1)) \<and>
      one_more t0 (st1\<lparr>x_fds := t2\<rparr>) st'"
  proof (rule spawn_agree [where ?t0.0 = t0, OF t0(1) a(4) _ _ _ _ _ sp])
    show "?B \<union> set stored \<union> set out_stored = ends sync \<union> ({in_fd} - {0}) \<union> (if is_last then {} else {fst (fd0, fd1), snd (fd0, fd1)}) \<union> set stored \<union> set out_stored"
      by simp
    show "fst (fd0, fd1) \<noteq> - 1 \<and> snd (fd0, fd1) \<noteq> - 1" if "\<not> is_last" using B that by auto
  qed (use B C D in auto)
  have "t0 fd0 = None" "fd0 \<noteq> 0" if "\<not> is_last" using B that t0(2) by (auto simp: spare_def)
  then have "stage_inv t0 bg sync in_fd' st'" if "\<not> is_last" using E a(2,4) B that by (auto simp: stage_inv_def)
  moreover have "one_more t0 st st'" using E B by (auto simp: one_more_def)
  ultimately show ?thesis using E by auto
qed

lemma run_stages_names:
  "run_stages env bg sync stages g in_fd st = LDone st' g' \<Longrightarrow> set (s_names g) \<subseteq> set (s_names g')"
  by (induction env bg sync stages g in_fd st rule: run_stages.induct) (auto simp: add_stage_def split: stage_result.splits)

lemma run_stages_agree:
  assumes "t0 (-1) = None" and "t0 0 \<noteq> None" and "stage_inv t0 bg sync in_fd st" and "stages \<noteq> []"
    and "run_stages env bg sync stages g in_fd st = LDone st' g'" and "None \<notin> set (s_names g')"
  shows "agree t0 (x_fds st') (ends sync) \<and> (\<exists>ks. filter is_command (x_kids st') = filter is_command (x_kids st) @ ks \<and>
    length ks = length stages \<and> (\<forall>k\<in>set ks. agree t0 (k_fds k) {0, 1}))"
  using assms(3-6)
proof (induction stages arbitrary: g in_fd st)
  case (Cons input rest)
  have ns: "run_stage env bg sync (rest = []) (s_pids g) in_fd input st \<noteq> Skip s" for s
    using Cons.prems(3,4) run_stages_names [of env bg sync rest "add_stage (-1) (-1) (-1) None g" in_fd s st' g']
    by (auto simp: add_stage_def)
  then obtain st1 in_fd1 pid feeder writer name
    where r: "run_stage env bg sync (rest = []) (s_pids g) in_fd input st = Spawned st1 in_fd1 pid feeder writer name"
      and rest: "run_stages env bg sync rest (add_stage pid feeder writer (Some name) g) in_fd1 st1 = LDone st' g'"
    using Cons.prems(3) by (auto split: stage_result.splits)
  note R = run_stage_agree [where ?t0.0 = t0, OF assms(1,2) Cons.prems(1) r]
  then obtain k where k: "filter is_command (x_kids st1) = filter is_command (x_kids st) @ [k]" "agree t0 (k_fds k) {0, 1}"
    by (auto simp: one_more_def)
  show ?case
  proof (cases "rest = []")
    case True
    then show ?thesis using R rest k by auto
  next
    case False
    from Cons.IH [OF _ False rest Cons.prems(4)] R False obtain ks where
      "agree t0 (x_fds st') (ends sync)" "filter is_command (x_kids st') = filter is_command (x_kids st1) @ ks"
      "length ks = length rest" "\<forall>k\<in>set ks. agree t0 (k_fds k) {0, 1}" by auto
    then show ?thesis using k by (intro conjI exI [of _ "k # ks"]) auto
  qed
qed simp

lemma split_pipes_nonempty: "split_pipes ws \<noteq> []"
  by (induction ws) (auto split: list.split)

lemma start_job_fds:
  assumes "start_job self waits final bg sync cmd st g sh = Some (r, sh')"
  shows "r = 1 \<and> None \<notin> set (s_names g) \<and> x_kids (sh_x sh') = x_kids st \<and>
    x_fds (sh_x sh') = (if bg then close_all [fst sync, snd sync] (x_fds st) else x_fds st)"
  using assms by (auto simp: start_job_def Let_def split: if_splits option.splits prod.splits)

lemma opt_pipe_inv:
  assumes "opt_pipe limit bg st = (sync, st1)" and "x_fds st (-1) = None"
  shows "stage_inv (x_fds st) bg sync 0 st1 \<and> x_kids st1 = x_kids st"
proof (cases "bg \<and> make_pipe limit st \<noteq> None")
  case True
  then obtain r w where m: "make_pipe limit st = Some (r, w, st1)" "sync = (r, w)" using assms(1) by (auto simp: opt_pipe_def)
  have "agree (x_fds st) (x_fds st) {}" by (simp add: agree_empty)
  from make_pipe_agree [OF this _ m(1)] show ?thesis using True m make_pipe_kids [OF m(1)] by (auto simp: stage_inv_def ends_def)
qed (use assms in \<open>auto simp: opt_pipe_def stage_inv_def ends_def agree_empty split: option.splits if_splits\<close>)


definition demo_env :: run_env where
  "demo_env = \<lparr>is_exe = (\<lambda>p. take 5 p = ''/bin/''), cwd_of = Some ''/home'', path_var = Some ''/bin'',
     can_read = (\<lambda>f. True), can_write = (\<lambda>f. True), fd_limit = 12\<rparr>"

definition demo_shell :: shell where
  "demo_shell = \<lparr>sh_x = \<lparr>x_fds = (\<lambda>fd. if 0 \<le> fd \<and> fd \<le> 2 then Some (Inherited fd) else None), x_pipes = 0,
     x_forks = [100, 101, 102, 103], x_kids = [], x_out = []\<rparr>, sh_jobs = \<lparr>jobs = [], timed_out = False\<rparr>, sh_prs_id = 1\<rparr>"

lemmas run_eval = demo_env_def demo_shell_def execute_def opt_pipe_def make_pipe_def new_fd_def run_stage_def Let_def
  in_files_def out_files_def path_of_def isfile_def strtok.simps in_dir_def exec_env.defs spawn_def helper_def do_fork_def
  add_kid_def upd_fds_def emit_def add_stage_def start_job_def add_job_def CMD_LEN_def NAME_LEN_def MAX_JOBS_def MAX_PRS_def
  upt_rec numeral_nat

lemma demo_runs: "\<exists>sh'. execute demo_env 1 [] [] [''cat'', ''|'', ''wc''] True demo_shell = Some (1, sh')"
  by (simp add: run_eval)


section \<open>What errors and background jobs leave open\<close>

text \<open>
  An error in one stage leaves the pipe to the next stage open in the shell, which never closes it.
\<close>

lemma failed_stage_leaks_pipe:
  "\<exists>sh'. execute (demo_env\<lparr>is_exe := \<lambda>p. False\<rparr>) 1 [] [] [''nosuch'', ''|'', ''wc''] False demo_shell = Some (0, sh') \<and>
     x_fds (sh_x sh') 3 = Some (PipeR 0) \<and> x_fds (sh_x sh') 4 = Some (PipeW 0)"
  by (simp add: run_eval close_sync_def)

text \<open>
  The helper that copies the output of a background job to two files keeps the write end of the pipe on
  which the command waits for the shell (pipe 0, descriptor 4). The command reads that pipe until every
  write end is closed, and the helper reads from the command: neither goes on.
\<close>

lemma writer_keeps_sync_pipe:
  "\<exists>sh' w ks. execute demo_env 1 [] [] [''ls'', ''>'', ''a'', ''>'', ''b''] True demo_shell = Some (1, sh') \<and>
     x_kids (sh_x sh') = w # ks \<and> k_role w = Writer 7 [5, 6] \<and> k_fds w 4 = Some (PipeW 0) \<and> k_fds w 8 = None"
  by (simp add: run_eval close_fd_def)

end
