(* ===== verification/Shell_Peek.thy ===== *)
theory Shell_Peek
  imports Prelude
begin

text \<open>
  The \<open>peek\<close> command of the interactive shell, \<^verbatim>\<open>c-shell/src/peek.c\<close>. Files and standard input are
  given by their contents; a file that does not change while it is read is assumed, and that a \<open>read\<close> of
  it returns as many bytes as asked for, as it does for regular files. Path names are assumed to
  fit \<open>PATH_MAX\<close>.
\<close>

section \<open>Lines\<close>

definition CR :: char where
  "CR = CHR 0x0D"

text \<open>The lines successive calls of \<open>getline\<close> return, with their newline.\<close>

fun getlines :: "string \<Rightarrow> string list" where
  "getlines [] = []"
| "getlines (c # cs) =
     (if c = newline then [c] # getlines cs
      else case getlines cs of [] \<Rightarrow> [[c]] | l # ls \<Rightarrow> (c # l) # ls)"

definition nonblank :: "string \<Rightarrow> bool" where
  "nonblank l \<longleftrightarrow> list_ex (\<lambda>c. c \<noteq> newline \<and> c \<noteq> CR \<and> c \<noteq> NUL) l"

section \<open>Input files\<close>

record File =
  f_name :: string
  f_lines :: "string list"
  f_nonempty :: int
  f_line_num :: int

record surroundings =
  home_shell :: string
  file_stat :: "string \<Rightarrow> bool option"
  file_open :: "string \<Rightarrow> string option"

text \<open>\<open>path\<close>; the home directory of the shell replaces a tilde.\<close>

definition expand :: "string \<Rightarrow> string \<Rightarrow> string" where
  "expand home inp =
     (if inp = ''-'' then ''-''
      else if inp = ''~'' then home
      else if take 2 inp = ''~/'' then home @ ''/'' @ drop 2 inp
      else inp)"

text \<open>A line as \<open>buff\<close> stores it.\<close>

definition chomp :: "string \<Rightarrow> string" where
  "chomp raw =
     (let r = length raw;
          l1 = (if r > 0 \<and> raw ! (r - 1) = newline then raw[r - 1 := NUL] else raw);
          l2 = (if r > 1 \<and> l1 ! (r - 2) = CR then l1[r - 2 := NUL] else l1)
      in c_str l2)"

definition buff :: "string \<Rightarrow> File \<Rightarrow> File" where
  "buff input f =
     (let ls = map chomp (getlines input)
      in f\<lparr>f_lines := ls, f_nonempty := int (length (filter nonblank ls))\<rparr>)"

definition cnt :: "surroundings \<Rightarrow> File \<Rightarrow> File" where
  "cnt w f =
     (case file_open w (f_name f) of
        None \<Rightarrow> f
      | Some s \<Rightarrow> f\<lparr>f_nonempty := int (length (filter nonblank (getlines s)))\<rparr>)"

section \<open>Forward\<close>

definition number :: "bool \<Rightarrow> int \<Rightarrow> string \<Rightarrow> string" where
  "number n k l = (if n \<and> nonblank l then show_int k @ '' '' else [])"

text \<open>The loop of \<open>print\<close>: what it writes, and the counter after it.\<close>

fun print_lines :: "bool \<Rightarrow> string list \<Rightarrow> int \<Rightarrow> string \<times> int" where
  "print_lines n [] k = ([], k)"
| "print_lines n (l # ls) k =
     (let (out, k') = print_lines n ls (if n \<and> nonblank l then k + 1 else k)
      in (number n k l @ l @ out, k'))"

definition print_fwd :: "surroundings \<Rightarrow> string \<Rightarrow> File \<Rightarrow> bool \<Rightarrow> int \<Rightarrow> effect list \<times> int \<times> string" where
  "print_fwd w input f n k =
     (if f_name f = ''-'' then
        let (out, k') = print_lines n (getlines input) k in ([Out out], k', [])
      else
        case file_open w (f_name f) of
          None \<Rightarrow> ([Err ''peek error''], k, input)
        | Some s \<Rightarrow> let (out, k') = print_lines n (getlines s) k in ([Out out], k', input))"

section \<open>Backward\<close>

text \<open>From the stored lines of standard input, last line first.\<close>

fun rev_stored :: "bool \<Rightarrow> string list \<Rightarrow> int \<Rightarrow> string" where
  "rev_stored n [] cur = []"
| "rev_stored n (l # ls) cur =
     number n cur l @ l @ [newline] @ rev_stored n ls (if n \<and> nonblank l then cur - 1 else cur)"

text \<open>
  One chunk, from its end: \<open>e\<close> is \<open>end + 1\<close>, the number of bytes of the chunk that are not yet part of a
  line printed, and the first argument \<open>j + 1\<close>. The result is \<open>e\<close>, the tail, the line number and
  the output.
\<close>

type_synonym back_state = "nat \<times> string \<times> int \<times> string"

fun scan_back :: "bool \<Rightarrow> string \<Rightarrow> nat \<Rightarrow> back_state \<Rightarrow> back_state" where
  "scan_back n chunk 0 st = st"
| "scan_back n chunk (Suc j) (e, tail, cur, out) =
     (if chunk ! j = newline then
        let part = take (e - Suc j) (drop (Suc j) chunk);
            full = nonblank part \<or> nonblank tail
        in scan_back n chunk j
             (j, [], if full \<and> n then cur - 1 else cur,
              out @ (if full \<and> n then show_int cur @ '' '' else []) @ part @ tail @ [newline])
      else scan_back n chunk j (e, tail, cur, out))"

definition CHUNK :: nat where
  "CHUNK = 4096"

text \<open>The loop over the chunks; \<open>pos\<close> bytes are left.\<close>

function rev_chunks :: "bool \<Rightarrow> string \<Rightarrow> nat \<Rightarrow> bool \<Rightarrow> string \<Rightarrow> int \<Rightarrow> string \<Rightarrow> string \<times> int \<times> string" where
  "rev_chunks n s pos first tail cur out =
     (if pos > 0 then
        let r = (if pos > CHUNK then CHUNK else pos);
            pos' = pos - r;
            chunk = take r (drop pos' s);
            e = (if first \<and> chunk ! (r - 1) = newline then r - 1 else r);
            (e', tail', cur', out') = scan_back n chunk e (e, tail, cur, out)
        in rev_chunks n s pos' False (if e' > 0 then take e' chunk @ tail' else tail') cur' out'
      else (tail, cur, out))"
  by pat_completeness auto
termination
  by (relation "measure (\<lambda>(n, s, pos, first, tail, cur, out). pos)") (auto simp: CHUNK_def)

declare rev_chunks.simps [simp del]

definition rev_file :: "bool \<Rightarrow> string \<Rightarrow> int \<Rightarrow> string" where
  "rev_file n s cur =
     (let (tail, cur', out) = rev_chunks n s (length s) True [] cur []
      in if length tail > 0 then out @ number n cur' tail @ tail @ [newline] else out)"

definition print_rev :: "surroundings \<Rightarrow> File \<Rightarrow> bool \<Rightarrow> effect list" where
  "print_rev w f n =
     (if f_name f = ''-'' then [Out (rev_stored n (rev (f_lines f)) (f_line_num f))]
      else
        case file_open w (f_name f) of
          None \<Rightarrow> [Err ''peek error'']
        | Some s \<Rightarrow> [Out (rev_file n s (f_line_num f))])"

section \<open>The command\<close>

fun flag_chars :: "string \<Rightarrow> bool \<times> bool \<Rightarrow> (bool \<times> bool) option" where
  "flag_chars [] (n, r) = Some (n, r)"
| "flag_chars (c # cs) (n, r) =
     (if c = CHR ''n'' then flag_chars cs (True, r)
      else if c = CHR ''r'' then flag_chars cs (n, True)
      else None)"

fun peek_args :: "string list \<Rightarrow> bool \<times> bool \<Rightarrow> string list \<Rightarrow> (bool \<times> bool \<times> string list) option" where
  "peek_args [] (n, r) all = Some (n, r, all)"
| "peek_args (a # as) (n, r) all =
     (if a \<noteq> [] \<and> hd a = CHR ''-'' \<and> length a > 1 then
        case flag_chars (tl a) (n, r) of None \<Rightarrow> None | Some nr \<Rightarrow> peek_args as nr all
      else peek_args as (n, r) (all @ [a]))"

text \<open>The first loop: names, buffered lines and line numbers.\<close>

fun peek_inputs :: "surroundings \<Rightarrow> bool \<Rightarrow> bool \<Rightarrow> string list \<Rightarrow> int \<Rightarrow> string \<Rightarrow> File list \<times> string" where
  "peek_inputs w n r [] counter input = ([], input)"
| "peek_inputs w n r (a # as) counter input =
     (let f0 = \<lparr>f_name = expand (home_shell w) a, f_lines = [], f_nonempty = 0, f_line_num = 0\<rparr>;
          (f1, input') =
            (if f_name f0 = ''-'' then (if r then (buff input f0, []) else (f0, input))
             else if n \<and> r then (cnt w f0, input) else (f0, input));
          (f2, counter') =
            (if r \<and> n then (f1\<lparr>f_line_num := counter + f_nonempty f1\<rparr>, counter + f_nonempty f1) else (f1, counter));
          (fs, input'') = peek_inputs w n r as counter' input'
      in (f2 # fs, input''))"

fun peek_print :: "surroundings \<Rightarrow> bool \<Rightarrow> bool \<Rightarrow> File list \<Rightarrow> int \<Rightarrow> string \<Rightarrow> effect list" where
  "peek_print w n r [] k input = []"
| "peek_print w n r (f # fs) k input =
     (if f_name f \<noteq> ''-'' \<and> file_stat w (f_name f) = None then
        Err ''peek: no such file or directory'' # peek_print w n r fs k input
      else if f_name f \<noteq> ''-'' \<and> file_stat w (f_name f) = Some True then
        Err ''peek: is a directory'' # peek_print w n r fs k input
      else if \<not> r then
        let (out, k', input') = print_fwd w input f n k in out @ peek_print w n r fs k' input'
      else print_rev w f n @ peek_print w n r fs k input)"

definition peek :: "surroundings \<Rightarrow> string \<Rightarrow> string list \<Rightarrow> effect list" where
  "peek w input args =
     (case peek_args args (False, False) [] of
        None \<Rightarrow> [Err ''peek: invalid syntax'']
      | Some (n, r, all) \<Rightarrow>
          let (fs, input') = peek_inputs w n r (if all = [] then [''-''] else all) 0 input
          in peek_print w n r fs 1 input')"

section \<open>Reading backwards in chunks\<close>

text \<open>The lines of a text, and what is shown of them backwards: all but an empty first line.\<close>

primrec split_nl :: "string \<Rightarrow> string list" where
  "split_nl [] = [[]]"
| "split_nl (c # cs) =
     (if c = newline then [] # split_nl cs else (c # hd (split_nl cs)) # tl (split_nl cs))"

definition shown_lines :: "string \<Rightarrow> string list" where
  "shown_lines t = (let ls = split_nl t in if hd ls = [] then tl ls else ls)"

definition shown :: "string \<Rightarrow> string list" where
  "shown s = shown_lines (if s \<noteq> [] \<and> last s = newline then butlast s else s)"

lemma split_nl_nonempty [simp]: "split_nl t \<noteq> []"
  by (induction t) auto

lemma split_nl_plain: "newline \<notin> set v \<Longrightarrow> split_nl v = [v]"
  by (induction v) auto

lemma split_nl_last: "newline \<notin> set v \<Longrightarrow> split_nl (u @ newline # v) = split_nl u @ [v]"
  by (induction u) (auto simp: split_nl_plain)

lemma shown_lines_last: "newline \<notin> set v \<Longrightarrow> shown_lines (u @ newline # v) = shown_lines u @ [v]"
  by (cases "split_nl u") (auto simp: shown_lines_def Let_def split_nl_last split_nl_plain)

lemma shown_lines_plain: "newline \<notin> set v \<Longrightarrow> shown_lines v = (if v = [] then [] else [v])"
  by (simp add: shown_lines_def split_nl_plain)

lemma nonblank_append [simp]: "nonblank (a @ b) \<longleftrightarrow> nonblank a \<or> nonblank b"
  by (simp add: nonblank_def)

text \<open>What is still to be shown, after what has been written.\<close>

definition progress :: "bool \<Rightarrow> string \<Rightarrow> int \<Rightarrow> string \<Rightarrow> string" where
  "progress n rest cur out = out @ rev_stored n (rev (shown_lines rest)) cur"

lemma progress_line:
  assumes "newline \<notin> set l"
  shows "progress n (rest @ newline # l) cur out =
    progress n rest (if nonblank l \<and> n then cur - 1 else cur)
      (out @ (if nonblank l \<and> n then show_int cur @ '' '' else []) @ l @ [newline])"
  using assms by (simp add: progress_def shown_lines_last number_def)

lemma scan_back_progress:
  assumes "scan_back n chunk j (e, tail, cur, out) = (e', tail', cur', out')" and "j \<le> e" and "e \<le> length chunk"
    and "newline \<notin> set (drop j (take e chunk))" and "newline \<notin> set tail"
  shows "e' \<le> length chunk \<and> newline \<notin> set (take e' chunk) \<and> newline \<notin> set tail' \<and>
    progress n (p @ take e' chunk @ tail') cur' out' = progress n (p @ take e chunk @ tail) cur out"
  using assms
proof (induction j arbitrary: e tail cur out)
  case (Suc j)
  have j: "j < length chunk" "j < e" using Suc.prems by simp_all
  have d: "drop j (take e chunk) = chunk ! j # drop (Suc j) (take e chunk)"
    using j Suc.prems(3) Cons_nth_drop_Suc [of j "take e chunk"] by simp
  show ?case
  proof (cases "chunk ! j = newline")
    case False
    then have "newline \<notin> set (drop j (take e chunk))" using Suc.prems(4) by (simp add: d)
    then show ?thesis using False Suc.prems j by (intro Suc.IH) auto
  next
    case True
    let ?part = "take (e - Suc j) (drop (Suc j) chunk)"
    have part: "?part = drop (Suc j) (take e chunk)" by (simp add: drop_take)
    have l: "newline \<notin> set (?part @ tail)" using Suc.prems(4,5) by (simp add: part)
    have split: "take e chunk = take j chunk @ newline # ?part"
      using append_take_drop_id [of j "take e chunk"] j by (simp add: d True part min_def)
    define cur1 where "cur1 = (if nonblank (?part @ tail) \<and> n then cur - 1 else cur)"
    define out1 where "out1 = out @ (if nonblank (?part @ tail) \<and> n then show_int cur @ '' '' else []) @ (?part @ tail) @ [newline]"
    have "progress n (p @ take e chunk @ tail) cur out = progress n ((p @ take j chunk) @ newline # (?part @ tail)) cur out"
      by (simp add: split)
    also have "\<dots> = progress n (p @ take j chunk) cur1 out1" unfolding cur1_def out1_def by (rule progress_line [OF l])
    finally have e: "progress n (p @ take e chunk @ tail) cur out = progress n (p @ take j chunk @ []) cur1 out1" by simp
    have "scan_back n chunk j (j, [], cur1, out1) = (e', tail', cur', out')"
      using Suc.prems(1) True by (simp add: Let_def cur1_def out1_def)
    then show ?thesis unfolding e using j by (intro Suc.IH) auto
  qed
qed auto

lemma rev_chunks_progress:
  assumes "rev_chunks n s pos first tail cur out = (tail', cur', out')" and "pos \<le> length s" and "newline \<notin> set tail"
    and "first \<Longrightarrow> tail = []"
  shows "newline \<notin> set tail' \<and> progress n tail' cur' out' =
    progress n (take (if first \<and> 0 < pos \<and> s ! (pos - 1) = newline then pos - 1 else pos) s @ tail) cur out"
  using assms
proof (induction pos arbitrary: first tail cur out rule: less_induct)
  case (less pos)
  show ?case
  proof (cases "pos > 0")
    case True
    define r where "r = (if pos > CHUNK then CHUNK else pos)"
    define chunk where "chunk = take r (drop (pos - r) s)"
    define e where "e = (if first \<and> chunk ! (r - 1) = newline then r - 1 else r)"
    obtain e1 t1 c1 o1 where sb: "scan_back n chunk e (e, tail, cur, out) = (e1, t1, c1, o1)" by (metis prod_cases4)
    have r: "0 < r" "r \<le> pos" using True by (auto simp: r_def CHUNK_def)
    have len: "length chunk = r" using r less(3) by (simp add: chunk_def)
    have c: "chunk ! (r - 1) = s ! (pos - 1)" using r less(3) by (simp add: chunk_def)
    have body: "take (if first \<and> 0 < pos \<and> s ! (pos - 1) = newline then pos - 1 else pos) s = take (pos - r) s @ take e chunk"
    proof -
      have "take (pos - r) s @ take k chunk = take (pos - r + k) s" if "k \<le> r" for k
        using that by (simp add: chunk_def take_add min_def)
      then show ?thesis using r True c by (auto simp: e_def)
    qed
    have e: "e \<le> length chunk" using len by (simp add: e_def)
    note S = scan_back_progress [OF sb le_refl e _ less(4), of "take (pos - r) s"]
    have "rev_chunks n s (pos - r) False (if e1 > 0 then take e1 chunk @ t1 else t1) c1 o1 = (tail', cur', out')"
      using less(2) True sb unfolding rev_chunks.simps [of n s pos] Let_def
      by (simp only: if_True r_def [symmetric] chunk_def [symmetric] e_def [symmetric] prod.case)
    then have "rev_chunks n s (pos - r) False (take e1 chunk @ t1) c1 o1 = (tail', cur', out')"
      by (cases "e1 = 0") simp_all
    then have "newline \<notin> set tail' \<and> progress n tail' cur' out' = progress n (take (pos - r) s @ take e1 chunk @ t1) c1 o1"
      using less(1) [of "pos - r" False "take e1 chunk @ t1" c1 o1] r S len less(3) by (simp add: e_def)
    then show ?thesis unfolding body using S by simp
  next
    case False
    then show ?thesis using less(2,4) by (simp add: rev_chunks.simps)
  qed
qed

lemma rev_file_shown: "rev_file n s cur = rev_stored n (rev (shown s)) cur"
proof -
  obtain t c out where r: "rev_chunks n s (length s) True [] cur [] = (t, c, out)" by (metis prod_cases3)
  have "take (if 0 < length s \<and> s ! (length s - 1) = newline then length s - 1 else length s) s =
      (if s \<noteq> [] \<and> last s = newline then butlast s else s)"
    by (auto simp: last_conv_nth butlast_conv_take)
  then have "newline \<notin> set t \<and> progress n t c out = progress n (if s \<noteq> [] \<and> last s = newline then butlast s else s) cur []"
    using rev_chunks_progress [OF r] by simp
  then show ?thesis using r by (auto simp: rev_file_def progress_def shown_def shown_lines_plain split: if_splits)
qed

section \<open>Numbers\<close>

fun numbered :: "bool \<Rightarrow> int \<Rightarrow> string list \<Rightarrow> string list" where
  "numbered n k [] = []"
| "numbered n k (l # ls) = (number n k l @ l) # numbered n (if nonblank l then k + 1 else k) ls"

abbreviation nlines :: "string list \<Rightarrow> int" where
  "nlines ls \<equiv> int (length (filter nonblank ls))"

lemma numbered_False [simp]: "numbered False k ls = ls"
  by (induction ls arbitrary: k) (auto simp: number_def)

lemma rev_stored_append:
  "rev_stored n (xs @ ys) cur = rev_stored n xs cur @ rev_stored n ys (if n then cur - nlines xs else cur)"
  by (induction xs arbitrary: cur) (auto simp: algebra_simps)

lemma rev_stored_numbered:
  "rev_stored n (rev ls) (if n then k + nlines ls else c) = concat (rev (map (\<lambda>l. l @ [newline]) (numbered n (k + 1) ls)))"
proof (induction ls arbitrary: k)
  case (Cons l ls)
  show ?case
  proof (cases "nonblank l")
    case True
    then show ?thesis using Cons [of "k + 1"] by (simp add: rev_stored_append number_def algebra_simps rev_filter [symmetric] split: if_splits)
  next
    case False
    then show ?thesis using Cons [of k] by (simp add: rev_stored_append number_def rev_filter [symmetric] split: if_splits)
  qed
qed simp

lemma print_lines_numbered:
  "print_lines n ls k = (concat (numbered n k ls), if n then k + nlines ls else k)"
proof (induction ls arbitrary: k)
  case (Cons l ls)
  then show ?case by (cases n) (auto simp: algebra_simps)
qed simp

lemma nonblank_simps [simp]: "\<not> nonblank []" "nonblank (newline # l) = nonblank l"
  by (simp_all add: nonblank_def)

lemma nonblank_Cons: "nonblank (c # l) \<longleftrightarrow> (c \<noteq> newline \<and> c \<noteq> CR \<and> c \<noteq> NUL) \<or> nonblank l"
  by (simp add: nonblank_def)

lemma nlines_split:
  "length (filter nonblank (tl (split_nl t))) = length (filter nonblank (tl (getlines t))) \<and>
   nonblank (hd (split_nl t)) = (getlines t \<noteq> [] \<and> nonblank (hd (getlines t)))"
proof (induction t)
  case (Cons c t)
  have "length (filter nonblank (split_nl t)) = length (filter nonblank (getlines t))"
    using Cons by (cases "split_nl t"; cases "getlines t") auto
  then show ?case using Cons by (auto simp: nonblank_Cons split: list.splits)
qed simp

lemma nlines_split_nl: "nlines (split_nl t) = nlines (getlines t)"
  using nlines_split [of t] by (cases "split_nl t"; cases "getlines t") auto

lemma nlines_shown_lines: "nlines (shown_lines t) = nlines (split_nl t)"
  by (cases "split_nl t") (auto simp: shown_lines_def Let_def)

lemma nlines_shown: "nlines (shown s) = nlines (getlines s)"
proof (cases "s \<noteq> [] \<and> last s = newline")
  case True
  then have "s = butlast s @ newline # []" by (metis append_butlast_last_id)
  then have "split_nl s = split_nl (butlast s) @ [[]]" using split_nl_last [of "[]" "butlast s"] by simp
  then have "nlines (split_nl s) = nlines (split_nl (butlast s))" by simp
  then show ?thesis using True by (simp add: shown_def nlines_shown_lines nlines_split_nl)
qed (auto simp: shown_def nlines_shown_lines nlines_split_nl)

text \<open>What \<open>peek\<close> writes for files with the given contents, the first line numbered \<open>k + 1\<close>.\<close>

fun forward :: "bool \<Rightarrow> int \<Rightarrow> string list \<Rightarrow> string list" where
  "forward n k [] = []"
| "forward n k (s # ss) = concat (numbered n (k + 1) (getlines s)) # forward n (k + nlines (getlines s)) ss"

fun backward :: "bool \<Rightarrow> int \<Rightarrow> string list \<Rightarrow> string list" where
  "backward n k [] = []"
| "backward n k (s # ss) =
     concat (rev (map (\<lambda>l. l @ [newline]) (numbered n (k + 1) (shown s)))) # backward n (k + nlines (getlines s)) ss"

definition readable :: "surroundings \<Rightarrow> string \<Rightarrow> bool" where
  "readable w a \<longleftrightarrow> a \<noteq> [] \<and> hd a \<noteq> CHR ''-'' \<and> expand (home_shell w) a \<noteq> ''-'' \<and>
     file_stat w (expand (home_shell w) a) = Some False \<and> file_open w (expand (home_shell w) a) \<noteq> None"

definition text_of :: "surroundings \<Rightarrow> string \<Rightarrow> string" where
  "text_of w a = the (file_open w (expand (home_shell w) a))"

lemma peek_args_names: "list_all (readable w) names \<Longrightarrow> peek_args names (n, r) all = Some (n, r, all @ names)"
  by (induction names arbitrary: all) (auto simp: readable_def)

lemma peek_forward:
  assumes "list_all (readable w) names"
  shows "peek_print w n False (fst (peek_inputs w n False names c input)) (k + 1) input' =
    map Out (forward n k (map (text_of w) names))"
  using assms
proof (induction names arbitrary: k c)
  case (Cons a names)
  have a: "file_open w (expand (home_shell w) a) = Some (text_of w a)" using Cons.prems by (auto simp: readable_def text_of_def)
  have e: "forward False k ss = map (\<lambda>s. concat (getlines s)) ss" for k ss
    by (induction ss arbitrary: k) auto
  obtain fs rest where p: "peek_inputs w n False names c input = (fs, rest)" by fastforce
  have IH: "peek_print w n False fs (k' + 1) input' = map Out (forward n k' (map (text_of w) names))" for k'
    using Cons.IH [of c k'] Cons.prems p by simp
  show ?case
  proof (cases n)
    case True
    then show ?thesis
      using Cons.prems a p IH [of "k + nlines (getlines (text_of w a))"]
      by (simp add: readable_def print_fwd_def print_lines_numbered add.assoc add.commute [of 1])
  next
    case False
    then show ?thesis
      using Cons.prems a p IH [of k] e by (simp add: readable_def print_fwd_def print_lines_numbered)
  qed
qed simp

lemma peek_backward:
  assumes "list_all (readable w) names"
  shows "peek_print w n True (fst (peek_inputs w n True names k input)) c input' =
    map Out (backward n k (map (text_of w) names))"
  using assms
proof (induction names arbitrary: k)
  case (Cons a names)
  have a: "file_open w (expand (home_shell w) a) = Some (text_of w a)" using Cons.prems by (auto simp: readable_def text_of_def)
  have e: "backward False k ss = map (\<lambda>s. concat (rev (map (\<lambda>l. l @ [newline]) (shown s)))) ss" for k ss
    by (induction ss arbitrary: k) auto
  have r: "rev_file True s (k + nlines (getlines s)) = concat (rev (map (\<lambda>l. l @ [newline]) (numbered True (k + 1) (shown s))))" for s
    using rev_stored_numbered [of True "shown s" k] by (simp add: rev_file_shown nlines_shown)
  have r': "rev_file False s c = concat (rev (map (\<lambda>l. l @ [newline]) (shown s)))" for s c
    using rev_stored_numbered [of False "shown s" 0 c] by (simp add: rev_file_shown)
  define k' where "k' = (if n then k + nlines (getlines (text_of w a)) else k)"
  obtain fs rest where p: "peek_inputs w n True names k' input = (fs, rest)" by fastforce
  have IH: "peek_print w n True fs c input' = map Out (backward n k' (map (text_of w) names))"
    using Cons.IH [of k'] Cons.prems p by simp
  show ?case
  proof (cases n)
    case True
    then show ?thesis
      using Cons.prems a p IH r by (simp add: readable_def print_rev_def cnt_def k'_def)
  next
    case False
    then show ?thesis
      using Cons.prems a p IH r' e by (simp add: readable_def print_rev_def k'_def)
  qed
qed simp


definition two_files :: surroundings where
  "two_files = \<lparr>home_shell = ''/h'', file_stat = (\<lambda>_. Some False),
     file_open = (\<lambda>p. Some (if p = ''/h/a'' then ''x'' @ [newline, newline] @ ''y'' else ''z'' @ [newline]))\<rparr>"


end
