(* ===== verification/Kernel_Proc.thy ===== *)
theory Kernel_Proc
  imports Prelude
begin

text \<open>
  The process table of \<^verbatim>\<open>xv6/kernel/proc.c\<close> and the clock interrupt of
  \<^verbatim>\<open>xv6/kernel/trap.c\<close>, on one CPU. Pointers into the table are indices; the locks
  make each operation atomic. Whether \<open>kalloc\<close>, \<open>uvmcopy\<close> or \<open>copyout\<close> succeed are arguments;
  the calls to the file layer are recorded in order in \<open>calls\<close>.
\<close>

section \<open>State\<close>

definition NPROC :: nat where "NPROC = 64"
definition NOFILE :: nat where "NOFILE = 16"
definition MLFQ_LEVELS :: nat where "MLFQ_LEVELS = 4"

text \<open>The scheduler the kernel is compiled with.\<close>

datatype policy = RR | FCFS | MLFQ

datatype procstate = UNUSED | USED | SLEEPING | RUNNABLE | RUNNING | ZOMBIE

text \<open>Sleep channels: none, a process, the tick counter, any other kernel address.\<close>

datatype chan = NoChan | ProcChan nat | TicksChan | AddrChan nat

datatype pcall = Filedup nat | Fileclose nat | Idup nat | Iput nat | Begin_op | End_op

record trapframe =
  kernel_satp :: "64 word"
  kernel_sp :: "64 word"
  kernel_trap :: "64 word"
  epc :: "64 word"
  kernel_hartid :: "64 word"
  tf_ra :: "64 word"
  tf_sp :: "64 word"
  tf_gp :: "64 word"
  tf_tp :: "64 word"
  tf_t0 :: "64 word"
  tf_t1 :: "64 word"
  tf_t2 :: "64 word"
  tf_s0 :: "64 word"
  tf_s1 :: "64 word"
  tf_a0 :: "64 word"
  tf_a1 :: "64 word"
  tf_a2 :: "64 word"
  tf_a3 :: "64 word"
  tf_a4 :: "64 word"
  tf_a5 :: "64 word"
  tf_a6 :: "64 word"
  tf_a7 :: "64 word"
  tf_s2 :: "64 word"
  tf_s3 :: "64 word"
  tf_s4 :: "64 word"
  tf_s5 :: "64 word"
  tf_s6 :: "64 word"
  tf_s7 :: "64 word"
  tf_s8 :: "64 word"
  tf_s9 :: "64 word"
  tf_s10 :: "64 word"
  tf_s11 :: "64 word"
  tf_t3 :: "64 word"
  tf_t4 :: "64 word"
  tf_t5 :: "64 word"
  tf_t6 :: "64 word"

text \<open>\<open>p_mem\<close> says whether the process has a user page table.\<close>

record proc =
  p_state :: procstate
  p_chan :: chan
  p_killed :: int
  p_xstate :: int
  p_pid :: int
  p_parent :: "nat option"
  p_sz :: nat
  p_mem :: bool
  p_trapframe :: "trapframe option"
  p_ofile :: "nat option list"
  p_cwd :: "nat option"
  p_name :: string
  p_arrival :: nat
  p_first_run :: nat
  p_ticks :: nat
  p_waiting :: nat
  p_started :: bool
  p_sequence :: nat
  p_queue :: nat
  p_slice_ticks :: int
  p_lastboost :: nat

text \<open>\<open>k_cur\<close> is \<open>c->proc\<close>, \<open>k_next\<close> the counter \<open>next\<close>, \<open>k_scan\<close> where the round-robin pass stands.\<close>

record kstate =
  procs :: "proc list"
  k_nextpid :: int
  k_next :: nat
  k_ticks :: nat
  k_init :: "nat option"
  k_cur :: "nat option"
  k_scan :: nat
  calls :: "pcall list"

definition inc64 :: "nat \<Rightarrow> nat" where "inc64 n = (n + 1) mod 2 ^ 64"

abbreviation get_proc :: "nat \<Rightarrow> kstate \<Rightarrow> proc" where
  "get_proc i s \<equiv> procs s ! i"

definition upd_proc :: "nat \<Rightarrow> (proc \<Rightarrow> proc) \<Rightarrow> kstate \<Rightarrow> kstate" where
  "upd_proc i f s = s\<lparr>procs := (procs s)[i := f (procs s ! i)]\<rparr>"

definition call :: "pcall list \<Rightarrow> kstate \<Rightarrow> kstate" where
  "call cs s = s\<lparr>calls := calls s @ cs\<rparr>"

section \<open>Allocation\<close>

definition zero_proc :: proc where
  "zero_proc = \<lparr>p_state = UNUSED, p_chan = NoChan, p_killed = 0, p_xstate = 0, p_pid = 0,
     p_parent = None, p_sz = 0, p_mem = False, p_trapframe = None,
     p_ofile = replicate NOFILE None, p_cwd = None, p_name = [], p_arrival = 0, p_first_run = 0,
     p_ticks = 0, p_waiting = 0, p_started = False, p_sequence = 0, p_queue = 0,
     p_slice_ticks = 0, p_lastboost = 0\<rparr>"

text \<open>The table at boot: zeroed memory, every state \<open>UNUSED\<close>.\<close>

definition procinit :: kstate where
  "procinit = \<lparr>procs = replicate NPROC zero_proc, k_nextpid = 1, k_next = 0, k_ticks = 0,
     k_init = None, k_cur = None, k_scan = 0, calls = []\<rparr>"

definition allocpid :: "kstate \<Rightarrow> int \<times> kstate" where
  "allocpid s = (k_nextpid s, s\<lparr>k_nextpid := k_nextpid s + 1\<rparr>)"

definition freeproc :: "policy \<Rightarrow> nat \<Rightarrow> kstate \<Rightarrow> kstate" where
  "freeproc pol i = upd_proc i (\<lambda>p.
     let q = p\<lparr>p_trapframe := None, p_mem := False, p_sz := 0, p_pid := 0, p_name := [],
       p_chan := NoChan, p_killed := 0, p_xstate := 0, p_state := UNUSED, p_arrival := 0,
       p_first_run := 0, p_ticks := 0, p_waiting := 0, p_started := False, p_sequence := 0\<rparr>
     in if pol = MLFQ then q\<lparr>p_queue := 0, p_slice_ticks := 0, p_lastboost := 0\<rparr> else q)"

definition zero_trapframe :: trapframe where
  "zero_trapframe = \<lparr>kernel_satp = 0, kernel_sp = 0, kernel_trap = 0, epc = 0, kernel_hartid = 0,
     tf_ra = 0, tf_sp = 0, tf_gp = 0, tf_tp = 0, tf_t0 = 0, tf_t1 = 0, tf_t2 = 0, tf_s0 = 0,
     tf_s1 = 0, tf_a0 = 0, tf_a1 = 0, tf_a2 = 0, tf_a3 = 0, tf_a4 = 0, tf_a5 = 0, tf_a6 = 0,
     tf_a7 = 0, tf_s2 = 0, tf_s3 = 0, tf_s4 = 0, tf_s5 = 0, tf_s6 = 0, tf_s7 = 0, tf_s8 = 0,
     tf_s9 = 0, tf_s10 = 0, tf_s11 = 0, tf_t3 = 0, tf_t4 = 0, tf_t5 = 0, tf_t6 = 0\<rparr>"

text \<open>
  \<open>tf\<close> is the page \<open>kalloc\<close> returns for the trapframe, with whatever it holds, and \<open>pt\<close> whether
  \<open>proc_pagetable\<close> succeeds. The kernel context is not modelled.
\<close>

definition allocproc ::
  "policy \<Rightarrow> trapframe option \<Rightarrow> bool \<Rightarrow> kstate \<Rightarrow> nat option \<times> kstate" where
  "allocproc pol tf pt s =
     (case find (\<lambda>i. p_state (get_proc i s) = UNUSED) [0..<NPROC] of
        None \<Rightarrow> (None, s)
      | Some i \<Rightarrow>
          let (pid, s1) = allocpid s;
              s2 = upd_proc i (\<lambda>p.
                let q = p\<lparr>p_pid := pid, p_state := USED, p_arrival := k_ticks s1, p_first_run := 0,
                  p_ticks := 0, p_waiting := 0, p_started := False, p_sequence := 0\<rparr>
                in if pol = MLFQ then q\<lparr>p_queue := 0, p_slice_ticks := 0, p_lastboost := 0\<rparr> else q) s1;
              s3 = upd_proc i (\<lambda>p. p\<lparr>p_trapframe := tf\<rparr>) s2
          in if tf = None then (None, freeproc pol i s3)
             else
               let s4 = upd_proc i (\<lambda>p. p\<lparr>p_mem := pt\<rparr>) s3
               in if \<not> pt then (None, freeproc pol i s4) else (Some i, s4))"

section \<open>Queues\<close>

definition slices :: "int list" where "slices = [1, 2, 8, 16]"

definition mlfq_enqueue_locked :: "nat \<Rightarrow> kstate \<Rightarrow> kstate" where
  "mlfq_enqueue_locked i s =
     (upd_proc i (\<lambda>p. p\<lparr>p_sequence := k_next s\<rparr>) s)\<lparr>k_next := inc64 (k_next s)\<rparr>"

definition enqueue_locked :: "policy \<Rightarrow> nat \<Rightarrow> kstate \<Rightarrow> kstate" where
  "enqueue_locked pol i s = (if pol = RR then s else mlfq_enqueue_locked i s)"

definition boost_one :: "nat \<Rightarrow> kstate \<Rightarrow> kstate" where
  "boost_one i s =
     (let p = get_proc i s in
      if p_state p \<noteq> UNUSED \<and> p_state p \<noteq> ZOMBIE then
        let s1 = upd_proc i (\<lambda>p. p\<lparr>p_queue := 0, p_slice_ticks := 0, p_lastboost := k_ticks s\<rparr>) s
        in if p_state p = RUNNABLE then mlfq_enqueue_locked i s1 else s1
      else s)"

definition mlfq_boost :: "kstate \<Rightarrow> kstate" where
  "mlfq_boost s = fold boost_one [0..<NPROC] s"

section \<open>Sleep and wakeup\<close>

definition sleep_prepare :: "nat \<Rightarrow> chan \<Rightarrow> kstate \<Rightarrow> kstate option" where
  "sleep_prepare i ch s =
     (if ch = NoChan then None else Some (upd_proc i (\<lambda>p. p\<lparr>p_chan := ch\<rparr>) s))"

definition sleep :: "nat \<Rightarrow> kstate \<Rightarrow> kstate" where
  "sleep i s =
     (if p_chan (get_proc i s) \<noteq> NoChan
      then (upd_proc i (\<lambda>p. p\<lparr>p_state := SLEEPING\<rparr>) s)\<lparr>k_cur := None\<rparr> else s)"

definition wake_one :: "policy \<Rightarrow> chan \<Rightarrow> nat \<Rightarrow> kstate \<Rightarrow> kstate" where
  "wake_one pol ch i s =
     (if p_chan (get_proc i s) = ch then
        let s1 = upd_proc i (\<lambda>p. p\<lparr>p_chan := NoChan\<rparr>) s
        in if p_state (get_proc i s1) = SLEEPING
           then enqueue_locked pol i (upd_proc i (\<lambda>p. p\<lparr>p_state := RUNNABLE\<rparr>) s1) else s1
      else s)"

definition wakeup :: "policy \<Rightarrow> chan \<Rightarrow> kstate \<Rightarrow> kstate" where
  "wakeup pol ch s = fold (wake_one pol ch) [0..<NPROC] s"

definition kkill :: "int \<Rightarrow> kstate \<Rightarrow> int \<times> kstate" where
  "kkill pid s =
     (case find (\<lambda>i. p_pid (get_proc i s) = pid) [0..<NPROC] of
        None \<Rightarrow> (-1, s)
      | Some i \<Rightarrow> (0, upd_proc i (\<lambda>p.
          let q = p\<lparr>p_killed := 1\<rparr>
          in if p_state q = SLEEPING then q\<lparr>p_state := RUNNABLE\<rparr> else q) s))"

definition setkilled :: "nat \<Rightarrow> kstate \<Rightarrow> kstate" where
  "setkilled i = upd_proc i (\<lambda>p. p\<lparr>p_killed := 1\<rparr>)"

definition killed :: "nat \<Rightarrow> kstate \<Rightarrow> int" where
  "killed i s = p_killed (get_proc i s)"

section \<open>Life of a process\<close>

text \<open>\<open>root\<close> is the inode \<open>namei("/")\<close> returns.\<close>

definition userinit :: "policy \<Rightarrow> trapframe option \<Rightarrow> bool \<Rightarrow> nat \<Rightarrow> kstate \<Rightarrow> kstate option" where
  "userinit pol tf pt root s =
     (case allocproc pol tf pt s of
        (None, s1) \<Rightarrow> None
      | (Some i, s1) \<Rightarrow>
          let s2 = upd_proc i (\<lambda>p. p\<lparr>p_cwd := Some root\<rparr>) (s1\<lparr>k_init := Some i\<rparr>)
          in Some (upd_proc i (\<lambda>p. p\<lparr>p_state := RUNNABLE\<rparr>) (enqueue_locked pol i s2)))"

text \<open>\<open>safestrcpy\<close> into \<open>char name[16]\<close>.\<close>

definition copy_name :: "string \<Rightarrow> string" where
  "copy_name n = take 15 (c_str n)"

definition dup_files :: "nat option list \<Rightarrow> nat option list \<Rightarrow> nat option list" where
  "dup_files from to = map2 (\<lambda>f t. if f \<noteq> None then f else t) from to"

definition file_calls :: "(nat \<Rightarrow> pcall) \<Rightarrow> nat option list \<Rightarrow> pcall list" where
  "file_calls c fs = map c (concat (map (\<lambda>f. case f of None \<Rightarrow> [] | Some x \<Rightarrow> [x]) fs))"

text \<open>\<open>idup\<close> of a null pointer would be a fault; a process has a current directory until it exits.\<close>

definition cwd_calls :: "(nat \<Rightarrow> pcall) \<Rightarrow> nat option \<Rightarrow> pcall list" where
  "cwd_calls c d = (case d of None \<Rightarrow> [] | Some x \<Rightarrow> [c x])"

text \<open>\<open>copied\<close> is whether \<open>uvmcopy\<close> succeeds.\<close>

definition kfork :: "policy \<Rightarrow> trapframe option \<Rightarrow> bool \<Rightarrow> bool \<Rightarrow> nat \<Rightarrow> kstate \<Rightarrow> int \<times> kstate" where
  "kfork pol tf pt copied me s =
     (case allocproc pol tf pt s of
        (None, s1) \<Rightarrow> (-1, s1)
      | (Some np, s1) \<Rightarrow>
          if \<not> copied then (-1, freeproc pol np s1)
          else
            let p = get_proc me s1;
                s2 = upd_proc np (\<lambda>q. q\<lparr>p_sz := p_sz p,
                  p_trapframe := map_option (\<lambda>f. f\<lparr>tf_a0 := 0\<rparr>) (p_trapframe p),
                  p_ofile := dup_files (p_ofile p) (p_ofile q), p_cwd := p_cwd p,
                  p_name := copy_name (p_name p)\<rparr>) s1;
                s3 = call (file_calls Filedup (p_ofile p) @ cwd_calls Idup (p_cwd p)) s2;
                s4 = upd_proc np (\<lambda>q. q\<lparr>p_parent := Some me\<rparr>) s3;
                s5 = upd_proc np (\<lambda>q. q\<lparr>p_state := RUNNABLE\<rparr>) (enqueue_locked pol np s4)
            in (p_pid (get_proc np s1), s5))"

definition init_chan :: "kstate \<Rightarrow> chan" where
  "init_chan s = (case k_init s of None \<Rightarrow> NoChan | Some i \<Rightarrow> ProcChan i)"

definition reparent_one :: "policy \<Rightarrow> nat \<Rightarrow> nat \<Rightarrow> kstate \<Rightarrow> kstate" where
  "reparent_one pol me i s =
     (if p_parent (get_proc i s) = Some me
      then wakeup pol (init_chan s) (upd_proc i (\<lambda>p. p\<lparr>p_parent := k_init s\<rparr>) s) else s)"

definition reparent :: "policy \<Rightarrow> nat \<Rightarrow> kstate \<Rightarrow> kstate" where
  "reparent pol me s = fold (reparent_one pol me) [0..<NPROC] s"

definition parent_chan :: "nat \<Rightarrow> kstate \<Rightarrow> chan" where
  "parent_chan i s = (case p_parent (get_proc i s) of None \<Rightarrow> NoChan | Some q \<Rightarrow> ProcChan q)"

text \<open>\<open>None\<close> is the panic \<open>init exiting\<close>. The process leaves the CPU for good in \<open>sched\<close>.\<close>

definition kexit :: "policy \<Rightarrow> int \<Rightarrow> nat \<Rightarrow> kstate \<Rightarrow> kstate option" where
  "kexit pol status me s =
     (if Some me = k_init s then None
      else
        let p = get_proc me s;
            s1 = call (file_calls Fileclose (p_ofile p)) (upd_proc me (\<lambda>p. p\<lparr>p_ofile :=
              replicate (length (p_ofile p)) None\<rparr>) s);
            s2 = upd_proc me (\<lambda>p. p\<lparr>p_cwd := None\<rparr>)
              (call (Begin_op # cwd_calls Iput (p_cwd p) @ [End_op]) s1);
            s3 = reparent pol me s2;
            s4 = wakeup pol (parent_chan me s3) s3;
            s5 = upd_proc me (\<lambda>p. p\<lparr>p_xstate := status, p_state := ZOMBIE\<rparr>) s4
        in Some (s5\<lparr>k_cur := None\<rparr>))"

text \<open>
  One pass of the loop of \<open>kwait\<close>: it returns the pid of a child that it frees, or -1, or goes to
  sleep on its own channel. \<open>copied\<close> is whether the status reaches the user's address.
\<close>

datatype wait_result = WaitRet int | WaitSleep

definition kwait :: "policy \<Rightarrow> bool \<Rightarrow> nat \<Rightarrow> kstate \<Rightarrow> wait_result \<times> kstate" where
  "kwait pol copied me s =
     (let kids = filter (\<lambda>i. p_parent (get_proc i s) = Some me) [0..<NPROC] in
      case find (\<lambda>i. p_state (get_proc i s) = ZOMBIE) kids of
        Some i \<Rightarrow>
          if \<not> copied then (WaitRet (-1), s)
          else (WaitRet (p_pid (get_proc i s)),
            freeproc pol i (upd_proc i (\<lambda>p. p\<lparr>p_parent := None\<rparr>) s))
      | None \<Rightarrow>
          if kids = [] \<or> killed me s \<noteq> 0 then (WaitRet (-1), s)
          else (WaitSleep, sleep me (upd_proc me (\<lambda>p. p\<lparr>p_chan := ProcChan me\<rparr>) s)))"

section \<open>The scheduler\<close>

text \<open>The search of the table for the least sequence number among the processes \<open>ok\<close> admits.\<close>

definition select_step :: "(proc \<Rightarrow> bool) \<Rightarrow> kstate \<Rightarrow> nat option \<times> nat \<Rightarrow> nat \<Rightarrow> nat option \<times> nat" where
  "select_step ok s sel i =
     (let p = get_proc i s in
      if p_state p = RUNNABLE \<and> ok p \<and> p_sequence p < snd sel then (Some i, p_sequence p) else sel)"

definition select_min :: "(proc \<Rightarrow> bool) \<Rightarrow> kstate \<Rightarrow> nat option" where
  "select_min ok s = fst (foldl (select_step ok s) (None, 2 ^ 64 - 1) [0..<NPROC])"

fun first_queue :: "nat list \<Rightarrow> kstate \<Rightarrow> nat option" where
  "first_queue [] s = None"
| "first_queue (q # qs) s =
     (case select_min (\<lambda>p. p_queue p = q) s of Some i \<Rightarrow> Some i | None \<Rightarrow> first_queue qs s)"

definition pick_mlfq :: "kstate \<Rightarrow> nat option" where
  "pick_mlfq s = first_queue [0..<MLFQ_LEVELS] s"

definition pick_fcfs :: "kstate \<Rightarrow> nat option" where
  "pick_fcfs s = select_min (\<lambda>_. True) s"

text \<open>The round-robin pass goes on behind the process it ran last; a new pass starts at the front.\<close>

definition pick_rr :: "kstate \<Rightarrow> nat option" where
  "pick_rr s = find (\<lambda>i. p_state (get_proc i s) = RUNNABLE) ([k_scan s..<NPROC] @ [0..<NPROC])"

definition pick :: "policy \<Rightarrow> kstate \<Rightarrow> nat option" where
  "pick pol s = (case pol of MLFQ \<Rightarrow> pick_mlfq s | FCFS \<Rightarrow> pick_fcfs s | RR \<Rightarrow> pick_rr s)"

text \<open>Running the chosen process, up to the switch to it; \<open>None\<close> when the CPU idles.\<close>

definition run_proc :: "nat \<Rightarrow> kstate \<Rightarrow> kstate" where
  "run_proc i s =
     (upd_proc i (\<lambda>p.
        let q = p\<lparr>p_state := RUNNING\<rparr>
        in if \<not> p_started q then q\<lparr>p_started := True, p_first_run := k_ticks s\<rparr> else q) s)
     \<lparr>k_cur := Some i, k_scan := i + 1\<rparr>"

definition scheduler :: "policy \<Rightarrow> kstate \<Rightarrow> kstate option" where
  "scheduler pol s = map_option (\<lambda>i. run_proc i s) (pick pol s)"

definition yield :: "policy \<Rightarrow> nat \<Rightarrow> kstate \<Rightarrow> kstate" where
  "yield pol i s =
     (let s1 = (if pol = MLFQ then
            enqueue_locked pol i (upd_proc i (\<lambda>p.
              if p_slice_ticks p \<ge> slices ! p_queue p then
                (if p_queue p < MLFQ_LEVELS - 1 then p\<lparr>p_queue := p_queue p + 1\<rparr> else p)
                  \<lparr>p_slice_ticks := 0\<rparr>
              else p) s)
          else s)
      in (upd_proc i (\<lambda>p. p\<lparr>p_state := RUNNABLE\<rparr>) s1)\<lparr>k_cur := None\<rparr>)"

section \<open>The clock\<close>

definition tick_proc :: "policy \<Rightarrow> nat option \<Rightarrow> nat \<Rightarrow> proc \<Rightarrow> proc" where
  "tick_proc pol running i p =
     (if running = Some i then
        let q = p\<lparr>p_ticks := inc64 (p_ticks p)\<rparr>
        in if pol = MLFQ then q\<lparr>p_slice_ticks := p_slice_ticks q + 1\<rparr> else q
      else if p_state p = RUNNABLE then p\<lparr>p_waiting := inc64 (p_waiting p)\<rparr> else p)"

definition clockintr :: "policy \<Rightarrow> kstate \<Rightarrow> kstate" where
  "clockintr pol s =
     (let s1 = s\<lparr>k_ticks := (k_ticks s + 1) mod 2 ^ 32\<rparr>;
          s2 = s1\<lparr>procs := map2 (tick_proc pol (k_cur s1)) [0..<length (procs s1)] (procs s1)\<rparr>;
          s3 = (if pol = MLFQ \<and> k_ticks s2 mod 48 = 0 then mlfq_boost s2 else s2)
      in wakeup pol TicksChan s3)"

text \<open>
  The timer interrupt of \<open>usertrap\<close> and \<open>kerneltrap\<close>: the clock, then the running process, if
  any, gives up the CPU. From user space a killed process exits instead.
\<close>

definition timer_trap :: "policy \<Rightarrow> bool \<Rightarrow> kstate \<Rightarrow> kstate option" where
  "timer_trap pol user s =
     (let s1 = clockintr pol s in
      case k_cur s1 of
        None \<Rightarrow> Some s1
      | Some i \<Rightarrow>
          if user \<and> killed i s1 \<noteq> 0 then kexit pol (-1) i s1 else Some (yield pol i s1))"

text \<open>One turn of the loop of \<open>sys_pause\<close>, with the tick count it read first.\<close>

definition sys_pause :: "nat \<Rightarrow> int \<Rightarrow> nat \<Rightarrow> kstate \<Rightarrow> int option \<times> kstate" where
  "sys_pause ticks0 n me s =
     (let m = (if n < 0 then 0 else n) in
      if int ((k_ticks s + 2 ^ 32 - ticks0) mod 2 ^ 32) < m then
        (if killed me s \<noteq> 0 then (Some (-1), s)
         else (None, sleep me (upd_proc me (\<lambda>p. p\<lparr>p_chan := TicksChan\<rparr>) s)))
      else (Some 0, s))"

record schedstats =
  st_arrival :: nat
  st_first_run :: nat
  st_ticks :: nat
  st_waiting :: nat
  st_queue :: int

definition getschedstats :: "policy \<Rightarrow> nat \<Rightarrow> kstate \<Rightarrow> schedstats" where
  "getschedstats pol i s =
     (let p = get_proc i s in
      \<lparr>st_arrival = p_arrival p, st_first_run = p_first_run p, st_ticks = p_ticks p,
       st_waiting = p_waiting p, st_queue = (if pol = MLFQ then int (p_queue p) else -1)\<rparr>)"

definition state_name :: "procstate \<Rightarrow> string" where
  "state_name st = (case st of UNUSED \<Rightarrow> ''unused'' | USED \<Rightarrow> ''used'' | SLEEPING \<Rightarrow> ''sleep ''
     | RUNNABLE \<Rightarrow> ''runble'' | RUNNING \<Rightarrow> ''run   '' | ZOMBIE \<Rightarrow> ''zombie'')"

definition procdump :: "policy \<Rightarrow> kstate \<Rightarrow> string" where
  "procdump pol s = [newline] @ concat (map (\<lambda>p.
     if p_state p = UNUSED then []
     else show_int (p_pid p) @ '' '' @ state_name (p_state p) @ '' '' @ p_name p @
       (if pol = MLFQ then '' q='' @ show_nat (p_queue p) @ '' slice='' @ show_int (p_slice_ticks p) @
          '' seq='' @ show_nat (p_sequence p) @ '' boost='' @ show_nat (p_lastboost p) else []) @
       [newline]) (procs s))"

end
