(* ===== verification/Kernel_Sched.thy ===== *)
theory Kernel_Sched
  imports Kernel_Proc
begin

text \<open>
  Properties of the process table and the scheduler: what each policy picks, how queues and
  sequence numbers move, the life of processes from fork to wait, sleep and wakeup, accounting.
\<close>

section \<open>Updates of the table\<close>

lemma procs_upd [simp]:
  "length (procs (upd_proc i f s)) = length (procs s)"
  "k_nextpid (upd_proc i f s) = k_nextpid s" "k_next (upd_proc i f s) = k_next s"
  "k_ticks (upd_proc i f s) = k_ticks s" "k_init (upd_proc i f s) = k_init s"
  "k_cur (upd_proc i f s) = k_cur s" "k_scan (upd_proc i f s) = k_scan s" "calls (upd_proc i f s) = calls s"
  by (simp_all add: upd_proc_def)

lemma get_upd:
  "procs (upd_proc i f s) ! j = (if j = i \<and> i < length (procs s) then f (procs s ! i) else procs s ! j)"
  by (cases "i < length (procs s)") (auto simp: upd_proc_def nth_list_update list_update_beyond)

lemma fold_inv:
  assumes "\<And>x s. x \<in> set xs \<Longrightarrow> P s \<Longrightarrow> P (f x s)" and "P s"
  shows "P (fold f xs s)"
  using assms by (induction xs arbitrary: s) auto

lemma fold_const:
  assumes "\<And>x s. g (f x s) = g s"
  shows "g (fold f xs s) = g s"
  by (induction xs arbitrary: s) (simp_all add: assms)

lemmas enq_defs = enqueue_locked_def mlfq_enqueue_locked_def

section \<open>What a policy picks\<close>

definition runnable :: "nat \<Rightarrow> kstate \<Rightarrow> bool" where
  "runnable i s \<longleftrightarrow> i < NPROC \<and> p_state (get_proc i s) = RUNNABLE"

text \<open>The state of the loop of \<open>select_min\<close> after the first \<open>k\<close> slots.\<close>

definition least_upto :: "(proc \<Rightarrow> bool) \<Rightarrow> kstate \<Rightarrow> nat \<Rightarrow> nat option \<times> nat \<Rightarrow> bool" where
  "least_upto ok s k sel \<longleftrightarrow>
     (case fst sel of
        None \<Rightarrow> snd sel = 2 ^ 64 - 1 \<and> (\<forall>j<k. p_state (get_proc j s) = RUNNABLE \<longrightarrow> \<not> ok (get_proc j s))
      | Some i \<Rightarrow> i < k \<and> p_state (get_proc i s) = RUNNABLE \<and> ok (get_proc i s) \<and>
          snd sel = p_sequence (get_proc i s) \<and>
          (\<forall>j<k. p_state (get_proc j s) = RUNNABLE \<longrightarrow> ok (get_proc j s) \<longrightarrow>
             p_sequence (get_proc i s) < p_sequence (get_proc j s) \<or>
             p_sequence (get_proc i s) = p_sequence (get_proc j s) \<and> i \<le> j))"

lemma select_loop:
  assumes "\<forall>j<k. p_state (get_proc j s) = RUNNABLE \<longrightarrow> p_sequence (get_proc j s) < 2 ^ 64 - 1"
  shows "least_upto ok s k (foldl (select_step ok s) (None, 2 ^ 64 - 1) [0..<k])"
  using assms
proof (induction k)
  case 0
  then show ?case by (simp add: least_upto_def)
next
  case (Suc k)
  define sel where "sel = foldl (select_step ok s) (None, 2 ^ 64 - 1) [0..<k]"
  have IH: "least_upto ok s k sel" using Suc unfolding sel_def by simp
  have b: "p_state (get_proc k s) = RUNNABLE \<Longrightarrow> p_sequence (get_proc k s) < 2 ^ 64 - 1"
    using Suc.prems by simp
  have "least_upto ok s (Suc k) (select_step ok s sel k)"
  proof (cases "fst sel")
    case None
    then show ?thesis
      using IH b by (auto simp: least_upto_def select_step_def Let_def less_Suc_eq)
  next
    case (Some i)
    then show ?thesis
      using IH by (fastforce simp: least_upto_def select_step_def Let_def less_Suc_eq)
  qed
  then show ?case by (simp add: sel_def)
qed

definition seqs_ok :: "kstate \<Rightarrow> bool" where
  "seqs_ok s \<longleftrightarrow> (\<forall>j<NPROC. p_state (get_proc j s) = RUNNABLE \<longrightarrow> p_sequence (get_proc j s) < 2 ^ 64 - 1)"

lemma select_min_None:
  assumes "seqs_ok s"
  shows "select_min ok s = None \<longleftrightarrow> (\<forall>j. runnable j s \<longrightarrow> \<not> ok (get_proc j s))"
  using select_loop [of NPROC s ok] assms
  by (force simp: least_upto_def select_min_def seqs_ok_def runnable_def split: option.splits)

lemma select_min_Some:
  assumes "seqs_ok s" and "select_min ok s = Some i"
  shows "runnable i s" and "ok (get_proc i s)"
    and "runnable j s \<Longrightarrow> ok (get_proc j s) \<Longrightarrow> p_sequence (get_proc i s) < p_sequence (get_proc j s) \<or>
      p_sequence (get_proc i s) = p_sequence (get_proc j s) \<and> i \<le> j"
  using select_loop [of NPROC s ok] assms
  by (auto simp: least_upto_def select_min_def seqs_ok_def runnable_def split: option.splits)

lemma first_queue_None:
  "seqs_ok s \<Longrightarrow> first_queue qs s = None \<longleftrightarrow> (\<forall>j. runnable j s \<longrightarrow> p_queue (get_proc j s) \<notin> set qs)"
  by (induction qs) (auto simp: select_min_None split: option.splits dest: select_min_Some(1,2))

text \<open>Process \<open>i\<close> has a higher queue than \<open>j\<close>, or the same and came no later.\<close>

definition before :: "kstate \<Rightarrow> nat \<Rightarrow> nat \<Rightarrow> bool" where
  "before s i j \<longleftrightarrow> p_queue (get_proc i s) < p_queue (get_proc j s) \<or>
     p_queue (get_proc i s) = p_queue (get_proc j s) \<and> p_sequence (get_proc i s) \<le> p_sequence (get_proc j s)"

lemma first_queue_Some:
  assumes ok: "seqs_ok s" and "first_queue qs s = Some i" and "sorted qs"
  shows "runnable i s \<and> p_queue (get_proc i s) \<in> set qs \<and>
    (\<forall>j. runnable j s \<longrightarrow> p_queue (get_proc j s) \<in> set qs \<longrightarrow> before s i j)"
  using assms(2,3)
proof (induction qs)
  case (Cons q qs)
  show ?case
  proof (cases "select_min (\<lambda>p. p_queue p = q) s")
    case None
    then have no: "\<forall>j. runnable j s \<longrightarrow> p_queue (get_proc j s) \<noteq> q"
      using select_min_None [OF ok, of "\<lambda>p. p_queue p = q"] by simp
    have "first_queue qs s = Some i" "sorted qs" using Cons.prems None by simp_all
    from Cons.IH [OF this] no show ?thesis by simp
  next
    case (Some i')
    note S = select_min_Some [OF ok Some]
    have i: "i' = i" using Cons.prems Some by simp
    have "before s i j" if "runnable j s" "p_queue (get_proc j s) \<in> set (q # qs)" for j
    proof (cases "p_queue (get_proc j s) = q")
      case True
      with S(2) S(3) [OF that(1)] i show ?thesis by (auto simp: before_def)
    next
      case False
      then have "p_queue (get_proc j s) > q" using that(2) Cons.prems(2) by auto
      with S(2) i show ?thesis by (simp add: before_def)
    qed
    with S(1,2) i show ?thesis by simp
  qed
qed simp

lemma pick_mlfq_spec:
  assumes "seqs_ok s" and "\<forall>j. runnable j s \<longrightarrow> p_queue (get_proc j s) < MLFQ_LEVELS"
  shows "case pick_mlfq s of
      None \<Rightarrow> \<forall>j. \<not> runnable j s
    | Some i \<Rightarrow> runnable i s \<and> (\<forall>j. runnable j s \<longrightarrow> before s i j)"
proof (cases "pick_mlfq s")
  case None
  then show ?thesis
    using first_queue_None [OF assms(1), of "[0..<MLFQ_LEVELS]"] assms(2) by (auto simp: pick_mlfq_def)
next
  case (Some i)
  then have "first_queue [0..<MLFQ_LEVELS] s = Some i" by (simp add: pick_mlfq_def)
  from first_queue_Some [OF assms(1) this] assms(2) Some show ?thesis by simp
qed

section \<open>The contract of a policy\<close>

text \<open>
  A policy picks a runnable process exactly when there is one. What follows for a scheduler from
  that alone is proved once.
\<close>

locale policy_contract =
  fixes chosen :: "kstate \<Rightarrow> nat option"
  assumes chosen_Some: "seqs_ok s \<Longrightarrow> \<forall>j. runnable j s \<longrightarrow> p_queue (get_proc j s) < MLFQ_LEVELS \<Longrightarrow>
      chosen s = Some i \<Longrightarrow> runnable i s"
    and chosen_None: "seqs_ok s \<Longrightarrow> \<forall>j. runnable j s \<longrightarrow> p_queue (get_proc j s) < MLFQ_LEVELS \<Longrightarrow>
      chosen s = None \<Longrightarrow> \<not> runnable j s"
begin

lemma dispatch:
  assumes "seqs_ok s" and "\<forall>j. runnable j s \<longrightarrow> p_queue (get_proc j s) < MLFQ_LEVELS"
    and len: "length (procs s) = NPROC"
  shows "case map_option (\<lambda>i. run_proc i s) (chosen s) of
      None \<Rightarrow> \<forall>j. \<not> runnable j s
    | Some t \<Rightarrow> \<exists>i. runnable i s \<and> k_cur t = Some i \<and> p_state (get_proc i t) = RUNNING \<and>
        (\<forall>j. j \<noteq> i \<longrightarrow> get_proc j t = get_proc j s)"
proof (cases "chosen s")
  case None
  then show ?thesis using chosen_None [OF assms(1,2)] by simp
next
  case (Some i)
  then have r: "runnable i s" using chosen_Some [OF assms(1,2)] by simp
  then have "i < length (procs s)" using len by (simp add: runnable_def)
  then show ?thesis using Some r by (auto simp: run_proc_def get_upd Let_def)
qed

end

interpretation mlfq: policy_contract pick_mlfq
proof
  fix s i j
  assume s: "seqs_ok s" "\<forall>j. runnable j s \<longrightarrow> p_queue (get_proc j s) < MLFQ_LEVELS"
  show "pick_mlfq s = Some i \<Longrightarrow> runnable i s" and "pick_mlfq s = None \<Longrightarrow> \<not> runnable j s"
    using first_queue_Some [OF s(1), of "[0..<MLFQ_LEVELS]" i]
      first_queue_None [OF s(1), of "[0..<MLFQ_LEVELS]"] s(2) by (auto simp: pick_mlfq_def)
qed

interpretation fcfs: policy_contract pick_fcfs
proof
  fix s i j
  assume s: "seqs_ok s"
  show "pick_fcfs s = Some i \<Longrightarrow> runnable i s" and "pick_fcfs s = None \<Longrightarrow> \<not> runnable j s"
    using select_min_Some(1) [OF s] select_min_None [OF s] by (auto simp: pick_fcfs_def)
qed

interpretation rr: policy_contract pick_rr
proof
  fix s i j
  show "pick_rr s = Some i \<Longrightarrow> runnable i s"
  proof -
    assume p: "pick_rr s = Some i"
    then have "p_state (get_proc i s) = RUNNABLE" "i \<in> set ([k_scan s..<NPROC] @ [0..<NPROC])"
      using nth_mem [of _ "[k_scan s..<NPROC] @ [0..<NPROC]"] by (auto simp: pick_rr_def find_Some_iff simp del: set_append)
    then show ?thesis by (auto simp: runnable_def)
  qed
  show "pick_rr s = None \<Longrightarrow> \<not> runnable j s"
    by (auto simp: pick_rr_def find_None_iff runnable_def)
qed

lemma scheduler_spec:
  assumes "seqs_ok s" and "\<forall>j. runnable j s \<longrightarrow> p_queue (get_proc j s) < MLFQ_LEVELS"
    and "length (procs s) = NPROC"
  shows "case scheduler pol s of
      None \<Rightarrow> \<forall>j. \<not> runnable j s
    | Some t \<Rightarrow> \<exists>i. runnable i s \<and> k_cur t = Some i \<and> p_state (get_proc i t) = RUNNING \<and>
        (\<forall>j. j \<noteq> i \<longrightarrow> get_proc j t = get_proc j s)"
  using mlfq.dispatch [OF assms] fcfs.dispatch [OF assms] rr.dispatch [OF assms]
  by (cases pol) (simp_all add: scheduler_def pick_def)

section \<open>What most operations keep\<close>

text \<open>
  The shape of a slot: free, live, zombie or being built, with parent, pid, open files and
  directory. Scheduling, sleeping, waking, killing and the clock keep the shape of the table.
\<close>

definition cls :: "procstate \<Rightarrow> nat" where
  "cls st = (case st of UNUSED \<Rightarrow> 0 | ZOMBIE \<Rightarrow> 2 | USED \<Rightarrow> 3 | _ \<Rightarrow> 1)"

lemma cls_simps [simp]:
  "cls UNUSED = 0" "cls ZOMBIE = 2" "cls USED = 3" "cls SLEEPING = 1" "cls RUNNABLE = 1" "cls RUNNING = 1"
  by (simp_all add: cls_def)

record shape =
  sh_cls :: nat
  sh_parent :: "nat option"
  sh_pid :: int
  sh_ofile :: "nat option list"
  sh_cwd :: "nat option"

definition shape_of :: "proc \<Rightarrow> shape" where
  "shape_of p = \<lparr>sh_cls = cls (p_state p), sh_parent = p_parent p, sh_pid = p_pid p,
     sh_ofile = p_ofile p, sh_cwd = p_cwd p\<rparr>"

definition shapes :: "kstate \<Rightarrow> shape list" where
  "shapes s = map shape_of (procs s)"

text \<open>The part of the state an operation on the shape may change, and its frame.\<close>

definition frame :: "kstate \<Rightarrow> shape list \<times> int \<times> nat option \<times> pcall list" where
  "frame s = (shapes s, k_nextpid s, k_init s, calls s)"

lemma frame_upd:
  assumes "shape_of (f (procs s ! i)) = shape_of (procs s ! i)"
  shows "frame (upd_proc i f s) = frame s"
proof -
  have "map shape_of ((procs s)[i := f (procs s ! i)]) = map shape_of (procs s)"
    using assms by (cases "i < length (procs s)")
      (simp_all add: map_update list_update_beyond list_update_same_conv)
  then show ?thesis by (simp add: frame_def shapes_def upd_proc_def)
qed

lemma frame_fields [simp]:
  "frame (s\<lparr>k_cur := c\<rparr>) = frame s" "frame (s\<lparr>k_next := n\<rparr>) = frame s" "frame (s\<lparr>k_ticks := t\<rparr>) = frame s"
  "frame (s\<lparr>k_scan := j\<rparr>) = frame s"
  by (simp_all add: frame_def shapes_def)

lemma frame_enqueue [simp]: "frame (enqueue_locked pol i s) = frame s" "frame (mlfq_enqueue_locked i s) = frame s"
  by (simp_all add: enq_defs frame_upd shape_of_def)

lemma frame_wake_one [simp]: "frame (wake_one pol ch i s) = frame s"
proof (cases "i < length (procs s)")
  case True
  then show ?thesis by (simp add: wake_one_def Let_def frame_upd shape_of_def get_upd)
next
  case False
  then have "upd_proc i f s = s" for f by (simp add: upd_proc_def list_update_beyond)
  then show ?thesis using False
    by (simp add: wake_one_def Let_def frame_upd shape_of_def)
qed

lemma frame_wakeup [simp]: "frame (wakeup pol ch s) = frame s"
  unfolding wakeup_def by (rule fold_const) simp

lemma frame_boost [simp]: "frame (mlfq_boost s) = frame s"
  unfolding mlfq_boost_def
  by (rule fold_const) (simp add: boost_one_def Let_def frame_upd shape_of_def)

lemma frame_sleep [simp]:
  assumes "cls (p_state (get_proc i s)) = 1"
  shows "frame (sleep i s) = frame s"
  using assms by (simp add: sleep_def frame_upd shape_of_def)

lemma frame_kkill [simp]: "frame (snd (kkill pid s)) = frame s"
  by (simp add: kkill_def frame_upd shape_of_def Let_def split: option.split)

lemma frame_yield:
  assumes "cls (p_state (get_proc i s)) = 1" and "i < length (procs s)"
  shows "frame (yield pol i s) = frame s"
proof -
  let ?f = "\<lambda>p. if p_slice_ticks p \<ge> slices ! p_queue p then
      (if p_queue p < MLFQ_LEVELS - 1 then p\<lparr>p_queue := p_queue p + 1\<rparr> else p)\<lparr>p_slice_ticks := 0\<rparr> else p"
  let ?s1 = "if pol = MLFQ then enqueue_locked pol i (upd_proc i ?f s) else s"
  have "frame ?s1 = frame s" by (simp add: frame_upd shape_of_def)
  moreover have "p_state (get_proc i ?s1) = p_state (get_proc i s)"
    using assms(2) by (simp add: enq_defs get_upd)
  ultimately show ?thesis
    using assms(1) by (simp add: yield_def Let_def frame_upd shape_of_def)
qed

lemma frame_run_proc:
  assumes "cls (p_state (get_proc i s)) = 1"
  shows "frame (run_proc i s) = frame s"
  using assms by (simp add: run_proc_def frame_upd shape_of_def Let_def)

lemma frame_clockintr [simp]: "frame (clockintr pol s) = frame s"
proof -
  have "shape_of (tick_proc pl c i p) = shape_of p" for pl c i p
    by (simp add: tick_proc_def shape_of_def Let_def)
  then have "map shape_of (map2 (tick_proc pl c) [0..<length ps] ps) = map shape_of ps" for pl c ps
    by (intro nth_equalityI) simp_all
  then have m: "frame (s\<lparr>k_ticks := t, procs := map2 (tick_proc pl c) [0..<length (procs s)] (procs s)\<rparr>) = frame s"
    for t pl c by (simp add: frame_def shapes_def)
  show ?thesis by (simp add: clockintr_def Let_def m if_distrib [of frame])
qed

section \<open>Runs of the kernel\<close>

text \<open>
  The steps of one CPU: system calls of the running process, the scheduler when there is none,
  the timer, and wakeups and kills from anywhere in the kernel. The bounds say that the 64-bit
  sequence counter and the 32-bit tick counter have not wrapped.
\<close>

definition room_for_step :: "kstate \<Rightarrow> bool" where
  "room_for_step s \<longleftrightarrow> k_next s + 5000 < 2 ^ 64 - 1 \<and> k_ticks s + 1 < 2 ^ 32"

inductive kstep :: "policy \<Rightarrow> kstate \<Rightarrow> kstate \<Rightarrow> bool" for pol where
  fork: "room_for_step s \<Longrightarrow> k_cur s = Some me \<Longrightarrow> kstep pol s (snd (kfork pol tf pt copied me s))"
| exit: "room_for_step s \<Longrightarrow> k_cur s = Some me \<Longrightarrow> kexit pol status me s = Some t \<Longrightarrow> kstep pol s t"
| wait: "room_for_step s \<Longrightarrow> k_cur s = Some me \<Longrightarrow> kstep pol s (snd (kwait pol copied me s))"
| sched: "room_for_step s \<Longrightarrow> k_cur s = None \<Longrightarrow> scheduler pol s = Some t \<Longrightarrow> kstep pol s t"
| timer: "room_for_step s \<Longrightarrow> timer_trap pol user s = Some t \<Longrightarrow> kstep pol s t"
| prepare: "room_for_step s \<Longrightarrow> k_cur s = Some me \<Longrightarrow> sleep_prepare me ch s = Some t \<Longrightarrow> kstep pol s t"
| sleep: "room_for_step s \<Longrightarrow> k_cur s = Some me \<Longrightarrow> kstep pol s (sleep me s)"
| wakeup: "room_for_step s \<Longrightarrow> ch \<noteq> NoChan \<Longrightarrow> kstep pol s (wakeup pol ch s)"
| kill: "room_for_step s \<Longrightarrow> kstep pol s (snd (kkill pid s))"
| setkilled: "room_for_step s \<Longrightarrow> k_cur s = Some me \<Longrightarrow> kstep pol s (setkilled me s)"
| pause: "room_for_step s \<Longrightarrow> k_cur s = Some me \<Longrightarrow> kstep pol s (snd (sys_pause ticks0 n me s))"

definition kinit :: "policy \<Rightarrow> kstate \<Rightarrow> bool" where
  "kinit pol s \<longleftrightarrow> (\<exists>tf root. userinit pol (Some tf) True root procinit = Some s)"

section \<open>The family of processes\<close>

text \<open>
  No slot is half built; a free slot has no parent and pid 0; pids in use are positive, below the
  next one and distinct; a parent is a live process, and so is \<open>init\<close>.
\<close>

definition slots_ok :: "shape list \<Rightarrow> int \<Rightarrow> bool" where
  "slots_ok sh np \<longleftrightarrow> length sh = NPROC \<and> 0 < np \<and> (\<forall>i<NPROC. sh_cls (sh ! i) \<noteq> 3 \<and>
     (sh_cls (sh ! i) = 0 \<longrightarrow> sh_parent (sh ! i) = None \<and> sh_pid (sh ! i) = 0) \<and>
     (sh_cls (sh ! i) \<noteq> 0 \<longrightarrow> 0 < sh_pid (sh ! i) \<and> sh_pid (sh ! i) < np))"

definition parents_ok :: "shape list \<Rightarrow> bool" where
  "parents_ok sh \<longleftrightarrow> (\<forall>i<NPROC. \<forall>j. sh_parent (sh ! i) = Some j \<longrightarrow> j < NPROC \<and> sh_cls (sh ! j) = 1)"

definition init_ok :: "shape list \<Rightarrow> nat option \<Rightarrow> bool" where
  "init_ok sh ini \<longleftrightarrow> (\<exists>r<NPROC. ini = Some r \<and> sh_cls (sh ! r) = 1)"

definition pids_ok :: "shape list \<Rightarrow> bool" where
  "pids_ok sh \<longleftrightarrow> (\<forall>i<NPROC. \<forall>j<NPROC. sh_cls (sh ! i) \<noteq> 0 \<longrightarrow> sh_cls (sh ! j) \<noteq> 0 \<longrightarrow>
     sh_pid (sh ! i) = sh_pid (sh ! j) \<longrightarrow> i = j)"

definition fam :: "shape list \<Rightarrow> int \<Rightarrow> nat option \<Rightarrow> bool" where
  "fam sh np ini \<longleftrightarrow> slots_ok sh np \<and> parents_ok sh \<and> init_ok sh ini \<and> pids_ok sh"

definition fam_ok :: "kstate \<Rightarrow> bool" where
  "fam_ok s \<longleftrightarrow> fam (shapes s) (k_nextpid s) (k_init s)"

lemma fam_ok_frame: "frame t = frame s \<Longrightarrow> fam_ok t = fam_ok s"
  by (simp add: fam_ok_def frame_def)

text \<open>The running process is the current one.\<close>

definition run_ok :: "kstate \<Rightarrow> bool" where
  "run_ok s \<longleftrightarrow> length (procs s) = NPROC \<and> (\<forall>i. k_cur s = Some i \<longrightarrow> i < NPROC) \<and>
     (\<forall>i<NPROC. p_state (get_proc i s) = RUNNING \<longleftrightarrow> k_cur s = Some i)"

lemma shapes_nth: "i < length (procs s) \<Longrightarrow> shapes s ! i = shape_of (get_proc i s)"
  by (simp add: shapes_def)

lemma fam_update:
  assumes "fam sh np ini" and i: "i < NPROC" and "np \<le> np'"
    and new: "sh_cls x \<noteq> 3" "sh_cls x = 0 \<longrightarrow> sh_parent x = None \<and> sh_pid x = 0"
      "sh_cls x \<noteq> 0 \<longrightarrow> 0 < sh_pid x \<and> sh_pid x < np'"
    and par: "\<forall>j. sh_parent x = Some j \<longrightarrow> j < NPROC \<and> sh_cls (if j = i then x else sh ! j) = 1"
    and gone: "sh_cls (sh ! i) = 1 \<longrightarrow> sh_cls x = 1 \<or>
      (\<forall>k<NPROC. k = i \<or> sh_parent (sh ! k) \<noteq> Some i) \<and> ini \<noteq> Some i"
    and pid: "sh_cls x = 0 \<or> sh_pid x = sh_pid (sh ! i) \<and> sh_cls (sh ! i) \<noteq> 0 \<or> sh_pid x = np"
  shows "fam (sh[i := x]) np' ini"
proof -
  have S: "slots_ok sh np" and P: "parents_ok sh" and I: "init_ok sh ini" and D: "pids_ok sh"
    using assms(1) by (simp_all add: fam_def)
  have len: "length sh = NPROC" using S by (simp add: slots_ok_def)
  have nth: "sh[i := x] ! j = (if j = i then x else sh ! j)" if "j < NPROC" for j
    using i len that by (simp add: nth_list_update)
  have "slots_ok (sh[i := x]) np'"
    unfolding slots_ok_def using S new \<open>np \<le> np'\<close> by (auto simp: slots_ok_def nth)
  moreover have "parents_ok (sh[i := x])"
    unfolding parents_ok_def
  proof (intro allI impI)
    fix k j assume k: "k < NPROC" and kj: "sh_parent (sh[i := x] ! k) = Some j"
    show "j < NPROC \<and> sh_cls (sh[i := x] ! j) = 1"
    proof (cases "k = i")
      case True
      with k kj par show ?thesis by (auto simp: nth)
    next
      case False
      with k kj P have "j < NPROC" "sh_cls (sh ! j) = 1" by (auto simp: nth parents_ok_def)
      then show ?thesis using gone k kj False by (auto simp: nth)
    qed
  qed
  moreover have "init_ok (sh[i := x]) ini" using I gone by (auto simp: init_ok_def nth)
  moreover have "pids_ok (sh[i := x])"
  proof -
    have clash: "sh_pid x \<noteq> sh_pid (sh ! j)" if "j < NPROC" "j \<noteq> i" "sh_cls (sh ! j) \<noteq> 0" "sh_cls x \<noteq> 0" for j
    proof -
      have "sh_pid (sh ! j) < np" using S that by (simp add: slots_ok_def)
      moreover have "sh_pid (sh ! i) = sh_pid (sh ! j) \<Longrightarrow> sh_cls (sh ! i) \<noteq> 0 \<Longrightarrow> False"
        using D i that unfolding pids_ok_def by metis
      ultimately show ?thesis using pid that(4) by auto
    qed
    have "k = j" if "k < NPROC" "j < NPROC" "sh_cls (sh[i := x] ! k) \<noteq> 0" "sh_cls (sh[i := x] ! j) \<noteq> 0"
        "sh_pid (sh[i := x] ! k) = sh_pid (sh[i := x] ! j)" for k j
      using that clash [of j] clash [of k] D unfolding pids_ok_def
      by (cases "k = i"; cases "j = i") (auto simp: nth)
    then show ?thesis unfolding pids_ok_def by blast
  qed
  ultimately show ?thesis by (simp add: fam_def)
qed

lemma shapes_fields [simp]:
  "shapes (s\<lparr>k_nextpid := n\<rparr>) = shapes s" "shapes (s\<lparr>k_cur := c\<rparr>) = shapes s"
  "shapes (s\<lparr>k_init := c\<rparr>) = shapes s" "shapes (call cs s) = shapes s"
  "shapes (s\<lparr>k_next := x\<rparr>) = shapes s" "shapes (s\<lparr>calls := cs\<rparr>) = shapes s"
  by (simp_all add: shapes_def call_def)

lemma shapes_upd:
  "i < length (procs s) \<Longrightarrow> shapes (upd_proc i f s) = (shapes s)[i := shape_of (f (procs s ! i))]"
  by (simp add: shapes_def upd_proc_def map_update)

lemma frame_call: "frame (call cs s) = (shapes s, k_nextpid s, k_init s, calls s @ cs)"
  by (simp add: frame_def call_def shapes_def)

lemma frameD:
  assumes "frame t = frame s"
  shows "shapes t = shapes s" "k_nextpid t = k_nextpid s" "k_init t = k_init s" "calls t = calls s"
    "length (procs t) = length (procs s)"
proof -
  show sh: "shapes t = shapes s" and "k_nextpid t = k_nextpid s" "k_init t = k_init s" "calls t = calls s"
    using assms by (simp_all add: frame_def)
  show "length (procs t) = length (procs s)"
    using arg_cong [OF sh, of length] by (simp add: shapes_def)
qed

lemma shape_congI:
  assumes "shapes t = shapes s" and "i < length (procs s)"
  shows "cls (p_state (get_proc i t)) = cls (p_state (get_proc i s))"
    and "p_parent (get_proc i t) = p_parent (get_proc i s)" and "p_pid (get_proc i t) = p_pid (get_proc i s)"
proof -
  have "length (shapes t) = length (shapes s)" by (simp only: assms(1))
  then have "i < length (procs t)" using assms(2) by (simp add: shapes_def)
  then have "shape_of (get_proc i t) = shape_of (get_proc i s)"
    using assms shapes_nth [of i s] shapes_nth [of i t] by simp
  then show "cls (p_state (get_proc i t)) = cls (p_state (get_proc i s))"
    "p_parent (get_proc i t) = p_parent (get_proc i s)" "p_pid (get_proc i t) = p_pid (get_proc i s)"
    by (simp_all add: shape_of_def)
qed

lemma fam_len: "fam_ok s \<Longrightarrow> length (procs s) = NPROC"
  by (simp add: fam_ok_def fam_def slots_ok_def shapes_def)

lemma find_upt: "find P [0..<n] = Some i \<Longrightarrow> i < n \<and> P i"
  using nth_mem [of _ "[0..<n]"] by (fastforce simp: find_Some_iff)

text \<open>What \<open>allocproc\<close> returns: nothing, or a slot that was free with the next pid.\<close>

lemma allocproc_cases:
  assumes "allocproc pol tf pt s = (r, t)" and len: "length (procs s) = NPROC"
  obtains "r = None" and "t = s"
  | i where "r = None" and "i < NPROC" and "p_state (get_proc i s) = UNUSED"
      and "shapes t = (shapes s)[i := (shape_of (get_proc i s))\<lparr>sh_pid := 0\<rparr>]"
      and "k_nextpid t = k_nextpid s + 1" "k_init t = k_init s" "k_cur t = k_cur s"
      "\<forall>j. j \<noteq> i \<longrightarrow> get_proc j t = get_proc j s" "p_state (get_proc i t) = UNUSED"
      "length (procs t) = NPROC" "calls t = calls s"
  | i where "r = Some i" and "i < NPROC" and "p_state (get_proc i s) = UNUSED"
      and "shapes t = (shapes s)[i := (shape_of (get_proc i s))\<lparr>sh_cls := 3, sh_pid := k_nextpid s\<rparr>]"
      and "k_nextpid t = k_nextpid s + 1" "k_init t = k_init s" "k_cur t = k_cur s"
      "\<forall>j. j \<noteq> i \<longrightarrow> get_proc j t = get_proc j s" "p_state (get_proc i t) = USED"
      "length (procs t) = NPROC" "calls t = calls s" "p_pid (get_proc i t) = k_nextpid s"
proof (cases "find (\<lambda>i. p_state (get_proc i s) = UNUSED) [0..<NPROC]")
  case None
  then show ?thesis using assms(1) that(1) by (simp add: allocproc_def)
next
  case (Some i)
  then have i: "i < NPROC" "p_state (get_proc i s) = UNUSED" using find_upt by blast+
  show ?thesis
  proof (cases "tf = None \<or> \<not> pt")
    case True
    then show ?thesis
      using assms(1) Some i len
      by (intro that(2) [OF _ i]) (auto simp: allocproc_def allocpid_def freeproc_def Let_def shapes_upd get_upd
          shape_of_def split: if_splits)
  next
    case False
    then show ?thesis
      using assms(1) Some i len
      by (intro that(3) [OF _ i]) (auto simp: allocproc_def allocpid_def Let_def shapes_upd get_upd shape_of_def
          split: if_splits)
  qed
qed

lemma fam_slotD:
  assumes "fam_ok s" and "i < NPROC"
  shows "cls (p_state (get_proc i s)) \<noteq> 3"
    and "cls (p_state (get_proc i s)) = 0 \<Longrightarrow> p_parent (get_proc i s) = None \<and> p_pid (get_proc i s) = 0"
    and "cls (p_state (get_proc i s)) \<noteq> 0 \<Longrightarrow> 0 < p_pid (get_proc i s) \<and> p_pid (get_proc i s) < k_nextpid s"
    and "p_parent (get_proc i s) = Some j \<Longrightarrow> j < NPROC \<and> cls (p_state (get_proc j s)) = 1"
proof -
  have sh: "shapes s ! k = shape_of (get_proc k s)" if "k < NPROC" for k
    using that fam_len [OF assms(1)] by (simp add: shapes_nth)
  have "slots_ok (shapes s) (k_nextpid s)" "parents_ok (shapes s)"
    using assms(1) by (simp_all add: fam_ok_def fam_def)
  then show "cls (p_state (get_proc i s)) \<noteq> 3"
    "cls (p_state (get_proc i s)) = 0 \<Longrightarrow> p_parent (get_proc i s) = None \<and> p_pid (get_proc i s) = 0"
    "cls (p_state (get_proc i s)) \<noteq> 0 \<Longrightarrow> 0 < p_pid (get_proc i s) \<and> p_pid (get_proc i s) < k_nextpid s"
    using assms(2) sh by (auto simp: slots_ok_def parents_ok_def shape_of_def)
  assume "p_parent (get_proc i s) = Some j"
  then have "sh_parent (shapes s ! i) = Some j" using sh [OF assms(2)] by (simp add: shape_of_def)
  with \<open>parents_ok (shapes s)\<close> assms(2) have "j < NPROC \<and> sh_cls (shapes s ! j) = 1"
    by (simp add: parents_ok_def)
  then show "j < NPROC \<and> cls (p_state (get_proc j s)) = 1" using sh [of j] by (simp add: shape_of_def)
qed

lemma fam_initD:
  assumes "fam_ok s"
  obtains r where "k_init s = Some r" and "r < NPROC" and "cls (p_state (get_proc r s)) = 1"
  using assms fam_len [OF assms]
  by (auto simp: fam_ok_def fam_def init_ok_def shapes_nth shape_of_def)

text \<open>The update lemma in terms of the table.\<close>

lemma fam_ok_update:
  assumes ok: "fam_ok s" and i: "i < NPROC" and t: "shapes t = (shapes s)[i := x]" "k_init t = k_init s"
    and np: "k_nextpid s \<le> k_nextpid t"
    and new: "sh_cls x \<noteq> 3" "sh_cls x = 0 \<longrightarrow> sh_parent x = None \<and> sh_pid x = 0"
      "sh_cls x \<noteq> 0 \<longrightarrow> 0 < sh_pid x \<and> sh_pid x < k_nextpid t"
    and par: "\<forall>j. sh_parent x = Some j \<longrightarrow> j < NPROC \<and> (if j = i then sh_cls x else cls (p_state (get_proc j s))) = 1"
    and gone: "cls (p_state (get_proc i s)) = 1 \<longrightarrow> sh_cls x = 1 \<or>
      (\<forall>k<NPROC. k = i \<or> p_parent (get_proc k s) \<noteq> Some i) \<and> k_init s \<noteq> Some i"
    and pid: "sh_cls x = 0 \<or> sh_pid x = p_pid (get_proc i s) \<and> cls (p_state (get_proc i s)) \<noteq> 0 \<or>
      sh_pid x = k_nextpid s"
  shows "fam_ok t"
proof -
  have sh: "shapes s ! k = shape_of (get_proc k s)" if "k < NPROC" for k
    using that fam_len [OF ok] by (simp add: shapes_nth)
  have "fam ((shapes s)[i := x]) (k_nextpid t) (k_init s)"
    using ok [unfolded fam_ok_def] i np new
  proof (rule fam_update)
    show "\<forall>j. sh_parent x = Some j \<longrightarrow> j < NPROC \<and> sh_cls (if j = i then x else shapes s ! j) = 1"
      using par sh by (auto simp: shape_of_def)
  qed (use gone pid sh i in \<open>auto simp: shape_of_def\<close>)
  then show ?thesis by (simp add: fam_ok_def t)
qed

lemma fam_kfork:
  assumes ok: "fam_ok s" and run: "run_ok s" and me: "k_cur s = Some me"
  shows "fam_ok (snd (kfork pol tf pt copied me s))"
proof -
  note len = fam_len [OF ok]
  obtain r t where a: "allocproc pol tf pt s = (r, t)" by (cases "allocproc pol tf pt s")
  have run_me: "me < NPROC" "p_state (get_proc me s) = RUNNING" using run me by (auto simp: run_ok_def)
  show ?thesis
  proof (rule allocproc_cases [OF a len])
    assume "r = None" "t = s"
    with a ok show ?thesis by (simp add: kfork_def)
  next
    fix i assume i: "r = None" "i < NPROC" "p_state (get_proc i s) = UNUSED"
      "shapes t = (shapes s)[i := (shape_of (get_proc i s))\<lparr>sh_pid := 0\<rparr>]" "k_nextpid t = k_nextpid s + 1"
      "k_init t = k_init s"
    have "fam_ok t"
      using i fam_slotD(2) [OF ok i(2)] by (intro fam_ok_update [OF ok i(2,4,6)]) (simp_all add: shape_of_def)
    with a i(1) show ?thesis by (simp add: kfork_def)
  next
    fix i assume i: "r = Some i" "i < NPROC" "p_state (get_proc i s) = UNUSED"
      and t: "shapes t = (shapes s)[i := (shape_of (get_proc i s))\<lparr>sh_cls := 3, sh_pid := k_nextpid s\<rparr>]"
        "k_nextpid t = k_nextpid s + 1" "k_init t = k_init s" "length (procs t) = NPROC"
        "\<forall>j. j \<noteq> i \<longrightarrow> get_proc j t = get_proc j s" "p_pid (get_proc i t) = k_nextpid s"
    have sl: "p_parent (get_proc i s) = None" "0 < k_nextpid s"
      using fam_slotD(2) [OF ok i(2)] i(3) fam_slotD(3) [OF ok run_me(1)] run_me(2) by auto
    have nei: "me \<noteq> i" using i(3) run_me(2) by auto
    have "length (shapes s) = NPROC" using len by (simp add: shapes_def)
    then have sh: "shape_of (get_proc i t) = (shape_of (get_proc i s))\<lparr>sh_cls := 3, sh_pid := k_nextpid s\<rparr>"
      using t(1,4) i(2) shapes_nth [of i t] by simp
    then have tp: "p_parent (get_proc i t) = None" using sl by (simp add: shape_of_def)
    show ?thesis
    proof (cases copied)
      case False
      have fr: "shapes (freeproc pol i t) = (shapes s)[i := (shape_of (get_proc i t))\<lparr>sh_cls := 0, sh_pid := 0\<rparr>]"
        using i(2) t by (simp add: freeproc_def Let_def shapes_upd shape_of_def)
      have kk: "k_nextpid (freeproc pol i t) = k_nextpid s + 1" "k_init (freeproc pol i t) = k_init s"
        using t by (simp_all add: freeproc_def)
      have "fam_ok (freeproc pol i t)"
        using kk tp i by (intro fam_ok_update [OF ok i(2) fr]) (simp_all add: shape_of_def)
      with a i(1) False show ?thesis by (simp add: kfork_def)
    next
      case True
      let ?u = "snd (kfork pol tf pt copied me s)"
      have sh_u: "shapes ?u = (shapes s)[i := \<lparr>sh_cls = 1, sh_parent = Some me, sh_pid = k_nextpid s,
          sh_ofile = dup_files (p_ofile (get_proc me t)) (p_ofile (get_proc i t)), sh_cwd = p_cwd (get_proc me t)\<rparr>]"
        using a i t True by (simp add: kfork_def Let_def shapes_upd get_upd enq_defs call_def shape_of_def)
      have "k_nextpid ?u = k_nextpid s + 1" "k_init ?u = k_init s"
        using a i t True by (simp_all add: kfork_def Let_def enq_defs call_def)
      then show ?thesis
        using run_me nei i sl by (intro fam_ok_update [OF ok i(2) sh_u]) simp_all
    qed
  qed
qed

lemma reparent_one_shapes:
  assumes "i < length (procs s)"
  shows "shapes (reparent_one pol me i s) = (shapes s)[i := if p_parent (get_proc i s) = Some me
      then (shape_of (get_proc i s))\<lparr>sh_parent := k_init s\<rparr> else shape_of (get_proc i s)]"
    and "k_init (reparent_one pol me i s) = k_init s" and "k_nextpid (reparent_one pol me i s) = k_nextpid s"
proof -
  let ?u = "upd_proc i (\<lambda>p. p\<lparr>p_parent := k_init s\<rparr>) s"
  note f = frameD [OF frame_wakeup [of pol "init_chan s" ?u]]
  have "(shapes s)[i := shape_of (get_proc i s)] = shapes s"
    using assms by (simp add: list_update_same_conv shapes_def)
  then show "shapes (reparent_one pol me i s) = (shapes s)[i := if p_parent (get_proc i s) = Some me
      then (shape_of (get_proc i s))\<lparr>sh_parent := k_init s\<rparr> else shape_of (get_proc i s)]"
    using f assms by (simp add: reparent_one_def shapes_upd shape_of_def)
  show "k_init (reparent_one pol me i s) = k_init s" "k_nextpid (reparent_one pol me i s) = k_nextpid s"
    using f by (simp_all add: reparent_one_def)
qed

lemma fam_reparent_one:
  assumes ok: "fam_ok s" and i: "i < NPROC"
  shows "fam_ok (reparent_one pol me i s)"
proof -
  note len = fam_len [OF ok]
  obtain r where r: "k_init s = Some r" "r < NPROC" "cls (p_state (get_proc r s)) = 1"
    using ok by (rule fam_initD)
  note sl = fam_slotD [OF ok i]
  note sh = reparent_one_shapes [of i s pol me, unfolded len, OF i]
  show ?thesis
    by (rule fam_ok_update [OF ok i sh(1,2)]) (use sl r sh(3) in \<open>auto simp: shape_of_def intro: gr0I\<close>)
qed

lemma shape_at:
  assumes "shapes t = (shapes s)[i := x]" and "length (procs s) = NPROC" and "j < NPROC"
  shows "shape_of (get_proc j t) = (if j = i then x else shape_of (get_proc j s))"
proof -
  have "length (procs t) = NPROC"
    using arg_cong [OF assms(1), of length] assms(2) by (simp add: shapes_def)
  then have "shape_of (get_proc j t) = (shapes s)[i := x] ! j"
    using assms(1,3) by (simp add: shapes_nth flip: assms(1))
  also have "\<dots> = (if j = i then x else shapes s ! j)"
    using assms(2,3) by (auto simp: nth_list_update shapes_def)
  finally show ?thesis using assms(2,3) by (simp add: shapes_nth)
qed

lemma reparent_upto:
  assumes "fam_ok s" and "k_init s \<noteq> Some me" and "n \<le> NPROC"
  shows "fam_ok (fold (reparent_one pol me) [0..<n] s) \<and> k_init (fold (reparent_one pol me) [0..<n] s) = k_init s \<and>
    (\<forall>j<NPROC. shape_of (get_proc j (fold (reparent_one pol me) [0..<n] s)) =
      (if j < n \<and> p_parent (get_proc j s) = Some me then (shape_of (get_proc j s))\<lparr>sh_parent := k_init s\<rparr>
       else shape_of (get_proc j s)))"
  using assms(3)
proof (induction n)
  case 0
  then show ?case using assms(1) by simp
next
  case (Suc n)
  define u where "u = fold (reparent_one pol me) [0..<n] s"
  have n: "n < NPROC" using Suc.prems by simp
  have u: "fam_ok u" "k_init u = k_init s"
    "\<forall>j<NPROC. shape_of (get_proc j u) = (if j < n \<and> p_parent (get_proc j s) = Some me
       then (shape_of (get_proc j s))\<lparr>sh_parent := k_init s\<rparr> else shape_of (get_proc j s))"
    using Suc by (simp_all add: u_def)
  note len = fam_len [OF u(1)]
  note sh = reparent_one_shapes [of n u pol me, unfolded len, OF n]
  have t: "fam_ok (reparent_one pol me n u)" using u(1) n by (rule fam_reparent_one)
  have p: "p_parent (get_proc n u) = p_parent (get_proc n s)" "shape_of (get_proc n u) = shape_of (get_proc n s)"
    using u(3) n by (auto simp: shape_of_def)
  have at: "shape_of (get_proc j (reparent_one pol me n u)) = (if j = n \<and> p_parent (get_proc n u) = Some me
      then (shape_of (get_proc n u))\<lparr>sh_parent := k_init u\<rparr> else shape_of (get_proc j u))" if "j < NPROC" for j
    using shape_at [OF sh(1) len that] by simp
  have "shape_of (get_proc j (reparent_one pol me n u)) = (if j < Suc n \<and> p_parent (get_proc j s) = Some me
       then (shape_of (get_proc j s))\<lparr>sh_parent := k_init s\<rparr> else shape_of (get_proc j s))" if "j < NPROC" for j
  proof (cases "j = n")
    case True
    then show ?thesis using at [OF that] p u(2) by simp
  next
    case False
    then have "j < Suc n \<longleftrightarrow> j < n" by auto
    then show ?thesis using at [OF that] u(3) that False by simp
  qed
  then show ?case using t sh(2) u(2) by (simp flip: u_def)
qed

lemma frame_calls_reparent: "calls (reparent pol me s) = calls s"
  unfolding reparent_def
proof (rule fold_const)
  fix i s
  show "calls (reparent_one pol me i s) = calls s"
    using frameD(4) [OF frame_wakeup [of pol "init_chan s" "upd_proc i (\<lambda>p. p\<lparr>p_parent := k_init s\<rparr>) s"]]
    by (simp add: reparent_one_def)
qed

lemma find_SomeD: "find P xs = Some x \<Longrightarrow> P x \<and> x \<in> set xs"
  by (induction xs) (auto split: if_splits)

text \<open>What \<open>kexit\<close> leaves: a zombie without files, its children with \<open>init\<close>.\<close>

lemma kexit_result:
  assumes ok: "fam_ok s" and me: "me < NPROC" "cls (p_state (get_proc me s)) = 1" and t: "kexit pol status me s = Some t"
  shows "fam_ok t"
    and "shape_of (get_proc me t) = \<lparr>sh_cls = 2, sh_parent = (if p_parent (get_proc me s) = Some me then k_init s
        else p_parent (get_proc me s)), sh_pid = p_pid (get_proc me s),
        sh_ofile = replicate (length (p_ofile (get_proc me s))) None, sh_cwd = None\<rparr>"
    and "j < NPROC \<Longrightarrow> j \<noteq> me \<Longrightarrow> shape_of (get_proc j t) = (if p_parent (get_proc j s) = Some me
        then (shape_of (get_proc j s))\<lparr>sh_parent := k_init s\<rparr> else shape_of (get_proc j s))"
    and "p_state (get_proc me t) = ZOMBIE" and "p_xstate (get_proc me t) = status" and "k_cur t = None"
    and "calls t = calls s @ file_calls Fileclose (p_ofile (get_proc me s)) @
        Begin_op # cwd_calls Iput (p_cwd (get_proc me s)) @ [End_op]"
proof -
  let ?p = "get_proc me s"
  define s1 where "s1 = call (file_calls Fileclose (p_ofile ?p)) (upd_proc me (\<lambda>p. p\<lparr>p_ofile :=
              replicate (length (p_ofile p)) None\<rparr>) s)"
  define s2 where "s2 = upd_proc me (\<lambda>p. p\<lparr>p_cwd := None\<rparr>)
              (call (Begin_op # cwd_calls Iput (p_cwd ?p) @ [End_op]) s1)"
  define s3 where "s3 = reparent pol me s2"
  define s4 where "s4 = wakeup pol (parent_chan me s3) s3"
  have ini: "k_init s \<noteq> Some me" using t by (auto simp: kexit_def)
  have t': "t = (upd_proc me (\<lambda>p. p\<lparr>p_xstate := status, p_state := ZOMBIE\<rparr>) s4)\<lparr>k_cur := None\<rparr>"
    using t ini by (auto simp: kexit_def Let_def s1_def s2_def s3_def s4_def)
  note len = fam_len [OF ok]
  have sh2: "shapes s2 = (shapes s)[me := (shape_of ?p)\<lparr>sh_ofile := replicate (length (p_ofile ?p)) None, sh_cwd := None\<rparr>]"
    using len me(1) by (simp add: s2_def s1_def shapes_upd get_upd call_def shape_of_def)
  have k2: "k_init s2 = k_init s" "k_nextpid s2 = k_nextpid s" by (simp_all add: s2_def s1_def call_def)
  have ok2: "fam_ok s2"
    using fam_slotD [OF ok me(1)] me by (intro fam_ok_update [OF ok me(1) sh2 k2(1)]) (simp_all add: k2 shape_of_def)
  note at2 = shape_at [OF sh2 len]
  have par2: "p_parent (get_proc j s2) = p_parent (get_proc j s)" if "j < NPROC" for j
    using at2 [OF that] by (cases "j = me") (simp_all add: shape_of_def)
  have up: "fam_ok s3 \<and> k_init s3 = k_init s2 \<and> (\<forall>j<NPROC. shape_of (get_proc j s3) =
      (if j < NPROC \<and> p_parent (get_proc j s2) = Some me then (shape_of (get_proc j s2))\<lparr>sh_parent := k_init s2\<rparr>
       else shape_of (get_proc j s2)))"
    unfolding s3_def reparent_def using ok2 ini k2(1) by (intro reparent_upto) simp_all
  note f4 = frameD [OF frame_wakeup [of pol "parent_chan me s3" s3], folded s4_def]
  have len3: "length (procs s3) = NPROC" using up fam_len by blast
  have at4: "shape_of (get_proc j s4) = (if p_parent (get_proc j s) = Some me
      then (shape_of (get_proc j s2))\<lparr>sh_parent := k_init s\<rparr> else shape_of (get_proc j s2))" if "j < NPROC" for j
    using f4(1,5) len3 that up k2(1) par2 [OF that] shapes_nth [of j s3] shapes_nth [of j s4]
    by (simp split: if_splits)
  have ok4: "fam_ok s4" using up frame_wakeup [of pol "parent_chan me s3" s3] fam_ok_frame s4_def by metis
  have sht: "shapes t = (shapes s4)[me := (shape_of (get_proc me s4))\<lparr>sh_cls := 2\<rparr>]"
    using fam_len [OF ok4] me(1) by (simp add: t' shapes_upd shape_of_def)
  note att = shape_at [OF sht fam_len [OF ok4]]
  have ch: "p_parent (get_proc k s4) \<noteq> Some me" if "k < NPROC" for k
    using at4 [OF that] par2 [OF that] ini by (auto simp: shape_of_def split: if_splits)
  have c4: "cls (p_state (get_proc me s4)) = 1"
    using at4 [OF me(1)] at2 [OF me(1)] me(2) by (simp add: shape_of_def split: if_splits)
  have "k_init t = k_init s4" "k_nextpid t = k_nextpid s4" by (simp_all add: t')
  moreover have "k_init s4 \<noteq> Some me" using f4(3) up k2(1) ini by simp
  ultimately show "fam_ok t"
    using fam_slotD [OF ok4 me(1)] ch c4 me(1)
    by (intro fam_ok_update [OF ok4 me(1) sht]) (simp_all add: shape_of_def)
  show "shape_of (get_proc me t) = \<lparr>sh_cls = 2, sh_parent = (if p_parent (get_proc me s) = Some me then k_init s
        else p_parent (get_proc me s)), sh_pid = p_pid (get_proc me s),
        sh_ofile = replicate (length (p_ofile (get_proc me s))) None, sh_cwd = None\<rparr>"
    using att [OF me(1)] at4 [OF me(1)] at2 [OF me(1)] by (simp add: shape_of_def split: if_splits)
  show "j < NPROC \<Longrightarrow> j \<noteq> me \<Longrightarrow> shape_of (get_proc j t) = (if p_parent (get_proc j s) = Some me
        then (shape_of (get_proc j s))\<lparr>sh_parent := k_init s\<rparr> else shape_of (get_proc j s))"
    using att [of j] at4 [of j] at2 [of j] by simp
  show "p_state (get_proc me t) = ZOMBIE" "p_xstate (get_proc me t) = status" "k_cur t = None"
    using fam_len [OF ok4] me(1) by (simp_all add: t' get_upd)
  show "calls t = calls s @ file_calls Fileclose (p_ofile (get_proc me s)) @
        Begin_op # cwd_calls Iput (p_cwd (get_proc me s)) @ [End_op]"
    using f4(4) by (simp add: t' s3_def frame_calls_reparent) (simp add: s2_def s1_def call_def)
qed

lemmas fam_kexit = kexit_result(1)

lemma kwait_cases:
  obtains (zombie) i where "i < NPROC" and "p_state (get_proc i s) = ZOMBIE" and "p_parent (get_proc i s) = Some me"
      and "kwait pol copied me s = (WaitRet (p_pid (get_proc i s)),
        freeproc pol i (upd_proc i (\<lambda>p. p\<lparr>p_parent := None\<rparr>) s))"
    | (sleeps) "kwait pol copied me s = (WaitSleep, sleep me (upd_proc me (\<lambda>p. p\<lparr>p_chan := ProcChan me\<rparr>) s))"
    | (returns) "kwait pol copied me s = (WaitRet (-1), s)"
proof (cases "find (\<lambda>i. p_state (get_proc i s) = ZOMBIE) (filter (\<lambda>i. p_parent (get_proc i s) = Some me) [0..<NPROC])")
  case None
  then show ?thesis
    by (cases "filter (\<lambda>i. p_parent (get_proc i s) = Some me) [0..<NPROC] = [] \<or> killed me s \<noteq> 0")
      (simp_all add: kwait_def sleeps returns)
next
  case (Some i)
  then have "i < NPROC \<and> p_state (get_proc i s) = ZOMBIE \<and> p_parent (get_proc i s) = Some me"
    using find_SomeD [OF Some] by auto
  with Some show ?thesis by (cases copied) (simp_all add: kwait_def zombie [of i] returns)
qed

lemma fam_kwait:
  assumes ok: "fam_ok s" and me: "me < NPROC" "cls (p_state (get_proc me s)) = 1"
  shows "fam_ok (snd (kwait pol copied me s))"
proof -
  note len = fam_len [OF ok]
  show ?thesis
  proof (cases rule: kwait_cases [of s me pol copied])
    case (zombie i)
    let ?u = "snd (kwait pol copied me s)"
    have sh: "shapes ?u = (shapes s)[i := (shape_of (get_proc i s))\<lparr>sh_cls := 0, sh_parent := None, sh_pid := 0\<rparr>]"
      using zombie len by (simp add: freeproc_def Let_def shapes_upd get_upd shape_of_def)
    have "k_init ?u = k_init s" "k_nextpid ?u = k_nextpid s"
      using zombie by (simp_all add: freeproc_def)
    then show ?thesis
      using zombie by (intro fam_ok_update [OF ok zombie(1) sh]) simp_all
  next
    case sleeps
    then have "frame (snd (kwait pol copied me s)) = frame s"
      using me len by (simp add: frame_sleep get_upd frame_upd shape_of_def)
    from fam_ok_frame [OF this] ok show ?thesis by simp
  qed (use ok in simp)
qed

end
