(* ===== verification/Kernel_Runs.thy ===== *)
theory Kernel_Runs
  imports Kernel_Sched
begin

text \<open>
  What holds of the process table in every run of the kernel: the family of processes, one running
  process, queues and sequence numbers in range, and the accounting of ticks.
\<close>

section \<open>The invariant of a slot\<close>

text \<open>
  Ticks are accounted once each; a process that has not run yet has been waiting ever since it
  arrived, and its first run comes after as many ticks of waiting.
\<close>

definition acct :: "nat \<Rightarrow> proc \<Rightarrow> bool" where
  "acct T p \<longleftrightarrow> p_arrival p + p_ticks p + p_waiting p \<le> T \<and>
     (if p_started p then p_arrival p \<le> p_first_run p \<and> p_first_run p \<le> p_arrival p + p_waiting p
      else (p_state p = RUNNABLE \<or> p_state p = USED) \<and> p_ticks p = 0 \<and> p_arrival p + p_waiting p = T)"

definition slot_inv :: "nat \<Rightarrow> nat \<Rightarrow> nat option \<Rightarrow> nat \<Rightarrow> proc \<Rightarrow> bool" where
  "slot_inv n T c i p \<longleftrightarrow> p_sequence p < max 1 n \<and> p_queue p < MLFQ_LEVELS \<and>
     (p_state p = RUNNING \<longleftrightarrow> c = Some i) \<and> (p_state p \<noteq> UNUSED \<longrightarrow> acct T p)"

definition table_inv :: "kstate \<Rightarrow> bool" where
  "table_inv s \<longleftrightarrow> length (procs s) = NPROC \<and> (\<forall>i. k_cur s = Some i \<longrightarrow> i < NPROC) \<and>
     (\<forall>i<NPROC. slot_inv (k_next s) (k_ticks s) (k_cur s) i (get_proc i s))"

text \<open>An operation that keeps the invariant and hands out at most \<open>c\<close> sequence numbers.\<close>

definition bump :: "nat \<Rightarrow> kstate \<Rightarrow> kstate \<Rightarrow> bool" where
  "bump c s t \<longleftrightarrow> (table_inv s \<and> k_next s + c < 2 ^ 64 - 1 \<longrightarrow>
     table_inv t \<and> k_next s \<le> k_next t \<and> k_next t \<le> k_next s + c)"

lemma bump_refl [simp, intro]: "bump c s s"
  by (simp add: bump_def)

lemma bump_trans: "bump c s t \<Longrightarrow> bump d t u \<Longrightarrow> bump (c + d) s u"
  by (fastforce simp: bump_def)

lemma bump_trans0: "bump 0 s t \<Longrightarrow> bump d t u \<Longrightarrow> bump d s u"
  using bump_trans [of 0 s t d u] by simp

lemma bump_mono: "bump c s t \<Longrightarrow> c \<le> d \<Longrightarrow> bump d s t"
  by (fastforce simp: bump_def)

lemma bump_fold:
  assumes "\<And>x s. x \<in> set xs \<Longrightarrow> bump c s (f x s)"
  shows "bump (c * length xs) s (fold f xs s)"
  using assms
proof (induction xs arbitrary: s)
  case (Cons x xs)
  have "bump (c + c * length xs) s (fold f xs (f x s))"
    by (rule bump_trans [of _ _ "f x s"]) (simp_all add: Cons)
  then show ?case by simp
qed simp

lemma bump_same:
  assumes "procs t = procs s" "k_next t = k_next s" "k_ticks t = k_ticks s" "k_cur t = k_cur s"
  shows "bump c s t"
  using assms by (simp add: bump_def table_inv_def)

lemma bump_upd:
  assumes "\<And>n T c. table_inv s \<Longrightarrow> i < NPROC \<Longrightarrow> slot_inv n T (k_cur s) i (get_proc i s) \<Longrightarrow> k_ticks s = T \<Longrightarrow>
    slot_inv n T (k_cur s) i (f (get_proc i s))"
  shows "bump c s (upd_proc i f s)"
  using assms by (auto simp: bump_def table_inv_def get_upd)

text \<open>Updates of fields the invariant does not mention.\<close>

lemma slot_inv_cong:
  assumes "p_sequence q = p_sequence p" "p_queue q = p_queue p" "p_state q = p_state p"
    "p_arrival q = p_arrival p" "p_ticks q = p_ticks p" "p_waiting q = p_waiting p" "p_started q = p_started p"
    "p_first_run q = p_first_run p"
  shows "slot_inv n T c i q = slot_inv n T c i p"
  using assms by (simp add: slot_inv_def acct_def)

lemma bump_upd_other:
  assumes "slot_inv (k_next s) (k_ticks s) (k_cur s) i (f (get_proc i s)) =
    slot_inv (k_next s) (k_ticks s) (k_cur s) i (get_proc i s)"
  shows "bump c s (upd_proc i f s)"
  using assms by (auto simp: bump_def table_inv_def get_upd)

lemma inc64_small: "n < 2 ^ 64 - 1 \<Longrightarrow> inc64 n = n + 1"
  by (simp add: inc64_def)

lemma bump_enqueue: "bump 1 s (enqueue_locked pol i s)" "bump 1 s (mlfq_enqueue_locked i s)"
proof -
  show m: "bump 1 s (mlfq_enqueue_locked i s)"
    by (fastforce simp: bump_def table_inv_def mlfq_enqueue_locked_def get_upd slot_inv_def acct_def inc64_small)
  then show "bump 1 s (enqueue_locked pol i s)" by (simp add: enqueue_locked_def)
qed

lemma bump_boost_one: "bump 1 s (boost_one i s)"
proof -
  let ?u = "upd_proc i (\<lambda>p. p\<lparr>p_queue := 0, p_slice_ticks := 0, p_lastboost := k_ticks s\<rparr>) s"
  have "bump 0 s ?u" by (rule bump_upd) (simp add: slot_inv_def acct_def MLFQ_LEVELS_def)
  moreover from bump_trans [OF this bump_enqueue(2)] have "bump 1 s (mlfq_enqueue_locked i ?u)" by simp
  ultimately show ?thesis by (simp add: boost_one_def Let_def bump_mono [of 0])
qed

lemma bump_boost: "bump 64 s (mlfq_boost s)"
  using bump_fold [of "[0..<NPROC]" 1 boost_one s] bump_boost_one by (simp add: mlfq_boost_def NPROC_def)

lemma bump_wake_one: "bump 1 s (wake_one pol ch i s)"
proof -
  let ?u = "upd_proc i (\<lambda>p. p\<lparr>p_chan := NoChan\<rparr>) s"
  have u: "bump 0 s ?u" by (rule bump_upd_other) (rule slot_inv_cong, simp_all)
  show ?thesis
  proof (cases "p_state (get_proc i ?u) = SLEEPING")
    case True
    then have "bump 0 ?u (upd_proc i (\<lambda>p. p\<lparr>p_state := RUNNABLE\<rparr>) ?u)"
      by (intro bump_upd) (auto simp: slot_inv_def acct_def)
    from bump_trans [OF bump_trans [OF u this] bump_enqueue(1)] show ?thesis
      using True by (simp add: wake_one_def Let_def)
  next
    case False
    then show ?thesis using u by (simp add: wake_one_def Let_def bump_mono [of 0])
  qed
qed

lemma bump_wakeup: "bump 64 s (wakeup pol ch s)"
  using bump_fold [of "[0..<NPROC]" 1 "wake_one pol ch" s] bump_wake_one by (simp add: wakeup_def NPROC_def)

lemma bump_reparent: "bump 4096 s (reparent pol me s)"
proof -
  have "bump 64 s (reparent_one pol me i s)" for i s
  proof -
    have "bump 0 s (upd_proc i (\<lambda>p. p\<lparr>p_parent := k_init s\<rparr>) s)"
      by (rule bump_upd_other) (rule slot_inv_cong, simp_all)
    from bump_trans [OF this bump_wakeup] show ?thesis by (simp add: reparent_one_def)
  qed
  from bump_fold [of "[0..<NPROC]" 64 "reparent_one pol me" s, OF this] show ?thesis
    by (simp add: reparent_def NPROC_def)
qed

section \<open>The operations\<close>

lemma cur_enqueue [simp]: "k_cur (enqueue_locked pol i s) = k_cur s" "k_cur (mlfq_enqueue_locked i s) = k_cur s"
  by (simp_all add: enq_defs)

lemma cur_wakeup [simp]: "k_cur (wakeup pol ch s) = k_cur s"
  unfolding wakeup_def by (rule fold_const) (simp add: wake_one_def Let_def)

lemma cur_reparent [simp]: "k_cur (reparent pol me s) = k_cur s"
  unfolding reparent_def by (rule fold_const) (simp add: reparent_one_def)

lemma cur_boost [simp]: "k_cur (mlfq_boost s) = k_cur s"
  unfolding mlfq_boost_def by (rule fold_const) (simp add: boost_one_def Let_def)

lemma cur_call [simp]: "k_cur (call cs s) = k_cur s"
  by (simp add: call_def)

lemma bump_call: "bump c s (call cs s)"
  by (rule bump_same) (simp_all add: call_def)

text \<open>The running process leaves the CPU.\<close>

lemma bump_leave:
  assumes "k_cur s = Some i"
    and "\<And>n T p. slot_inv n T (Some i) i p \<Longrightarrow> slot_inv n T None i (f p)"
  shows "bump c s ((upd_proc i f s)\<lparr>k_cur := None\<rparr>)"
  using assms by (auto simp: bump_def table_inv_def get_upd) (simp add: slot_inv_def)

lemma bump_yield:
  assumes "k_cur s = Some i"
  shows "bump 1 s (yield pol i s)"
proof -
  let ?f = "\<lambda>p. if p_slice_ticks p \<ge> slices ! p_queue p then
      (if p_queue p < MLFQ_LEVELS - 1 then p\<lparr>p_queue := p_queue p + 1\<rparr> else p)\<lparr>p_slice_ticks := 0\<rparr> else p"
  define s1 where "s1 = (if pol = MLFQ then enqueue_locked pol i (upd_proc i ?f s) else s)"
  have "bump 0 s (upd_proc i ?f s)"
    by (rule bump_upd) (auto simp: slot_inv_def acct_def MLFQ_LEVELS_def)
  from bump_trans [OF this bump_enqueue(1)] have "bump 1 s s1" by (simp add: s1_def)
  moreover have "bump 0 s1 ((upd_proc i (\<lambda>p. p\<lparr>p_state := RUNNABLE\<rparr>) s1)\<lparr>k_cur := None\<rparr>)"
    by (rule bump_leave) (use assms in \<open>auto simp: s1_def slot_inv_def acct_def\<close>)
  ultimately have "bump (1 + 0) s ((upd_proc i (\<lambda>p. p\<lparr>p_state := RUNNABLE\<rparr>) s1)\<lparr>k_cur := None\<rparr>)"
    by (rule bump_trans)
  then show ?thesis by (simp add: yield_def s1_def)
qed

lemma bump_sleep: "k_cur s = Some i \<Longrightarrow> bump c s (sleep i s)"
  unfolding sleep_def
  by (simp, intro impI bump_leave) (auto simp: slot_inv_def acct_def split: if_splits)

lemma bump_kexit:
  assumes "kexit pol status me s = Some t" and "k_cur s = Some me"
  shows "bump 4160 s t"
proof -
  let ?p = "get_proc me s"
  define s1 where "s1 = call (file_calls Fileclose (p_ofile ?p)) (upd_proc me (\<lambda>p. p\<lparr>p_ofile :=
              replicate (length (p_ofile p)) None\<rparr>) s)"
  define s2 where "s2 = upd_proc me (\<lambda>p. p\<lparr>p_cwd := None\<rparr>)
              (call (Begin_op # cwd_calls Iput (p_cwd ?p) @ [End_op]) s1)"
  define s3 where "s3 = reparent pol me s2"
  define s4 where "s4 = wakeup pol (parent_chan me s3) s3"
  have t: "t = (upd_proc me (\<lambda>p. p\<lparr>p_xstate := status, p_state := ZOMBIE\<rparr>) s4)\<lparr>k_cur := None\<rparr>"
    using assms(1) by (auto simp: kexit_def Let_def s1_def s2_def s3_def s4_def split: if_splits)
  have up: "bump 0 s (upd_proc me (\<lambda>p. p\<lparr>p_ofile := replicate (length (p_ofile p)) None\<rparr>) s)"
    by (rule bump_upd_other) (rule slot_inv_cong, simp_all)
  have s1: "bump 0 s s1" using bump_trans [OF up bump_call [of 0]] by (simp add: s1_def)
  have cwd: "bump 0 u (upd_proc me (\<lambda>p. p\<lparr>p_cwd := None\<rparr>) u)" for u
    by (rule bump_upd_other) (rule slot_inv_cong, simp_all)
  have "bump 0 s s2"
    unfolding s2_def by (rule bump_trans0 [OF s1 bump_trans0 [OF bump_call cwd]])
  from bump_trans [OF bump_trans [OF this bump_reparent] bump_wakeup]
  have "bump 4160 s s4" by (simp add: s4_def s3_def)
  moreover have "bump 0 s4 t"
    unfolding t by (rule bump_leave)
      (use assms(2) in \<open>auto simp: s4_def s3_def s2_def s1_def slot_inv_def acct_def split: if_splits\<close>)
  ultimately show ?thesis using bump_trans by fastforce
qed

lemma bump_run_proc:
  assumes "runnable i s" and "k_cur s = None"
  shows "bump c s (run_proc i s)"
proof -
  have "slot_inv n T (Some i) j p" if "slot_inv n T None j p" "j \<noteq> i" for n T j p
    using that by (simp add: slot_inv_def)
  moreover have "slot_inv n T (Some i) i (let q = p\<lparr>p_state := RUNNING\<rparr>
        in if \<not> p_started q then q\<lparr>p_started := True, p_first_run := T\<rparr> else q)"
    if "slot_inv n T None i p" "p_state p = RUNNABLE" for n T p
    using that by (auto simp: slot_inv_def acct_def Let_def)
  ultimately show ?thesis
    using assms by (simp add: bump_def table_inv_def run_proc_def get_upd runnable_def)
qed

lemma bump_clockintr:
  assumes "k_ticks s + 1 < 2 ^ 32" and "\<forall>i<NPROC. p_state (get_proc i s) \<noteq> USED"
  shows "bump 128 s (clockintr pol s)" and "k_cur (clockintr pol s) = k_cur s"
proof -
  define u where "u = s\<lparr>k_ticks := (k_ticks s + 1) mod 2 ^ 32,
    procs := map2 (tick_proc pol (k_cur s)) [0..<length (procs s)] (procs s)\<rparr>"
  have tick: "slot_inv n (T + 1) c i (tick_proc pol c i p)"
    if "slot_inv n T c i p" "p_state p \<noteq> USED" "T + 1 < 2 ^ 32" for n T c i p
  proof -
    have "inc64 x = x + 1" if "x \<le> T" for x using that \<open>T + 1 < 2 ^ 32\<close> by (simp add: inc64_def)
    moreover have "p_ticks p \<le> T \<and> p_waiting p \<le> T" if "p_state p \<noteq> UNUSED"
      using \<open>slot_inv n T c i p\<close> that by (simp add: slot_inv_def acct_def)
    ultimately show ?thesis
      using that by (auto simp: slot_inv_def acct_def tick_proc_def Let_def split: if_splits)
  qed
  have "bump 0 s u"
    using assms tick by (auto simp: bump_def table_inv_def u_def)
  moreover have "bump 64 u (if pol = MLFQ \<and> k_ticks u mod 48 = 0 then mlfq_boost u else u)"
    using bump_boost by simp
  ultimately have b: "bump (0 + 64 + 64) s (wakeup pol TicksChan
      (if pol = MLFQ \<and> k_ticks u mod 48 = 0 then mlfq_boost u else u))"
    by (intro bump_trans [OF bump_trans bump_wakeup])
  have "clockintr pol s = wakeup pol TicksChan (if pol = MLFQ \<and> k_ticks u mod 48 = 0 then mlfq_boost u else u)"
    by (simp add: clockintr_def u_def Let_def)
  with b show "bump 128 s (clockintr pol s)" by (simp only:) simp
  show "k_cur (clockintr pol s) = k_cur s" by (simp add: clockintr_def Let_def)
qed

lemma bump_freeproc:
  assumes "p_state (get_proc i s) \<noteq> RUNNING"
  shows "bump c s (freeproc pol i s)"
  unfolding freeproc_def
  by (rule bump_upd) (use assms in \<open>auto simp: slot_inv_def Let_def MLFQ_LEVELS_def\<close>)

lemma bump_allocproc: "bump 0 s (snd (allocproc pol tf pt s))"
proof (cases "find (\<lambda>i. p_state (get_proc i s) = UNUSED) [0..<NPROC]")
  case None
  then show ?thesis by (simp add: allocproc_def)
next
  case (Some i)
  then have i: "i < NPROC" "p_state (get_proc i s) = UNUSED" using find_upt by auto
  let ?s1 = "s\<lparr>k_nextpid := k_nextpid s + 1\<rparr>"
  define s2 where "s2 = upd_proc i (\<lambda>p.
                let q = p\<lparr>p_pid := k_nextpid s, p_state := USED, p_arrival := k_ticks ?s1, p_first_run := 0,
                  p_ticks := 0, p_waiting := 0, p_started := False, p_sequence := 0\<rparr>
                in if pol = MLFQ then q\<lparr>p_queue := 0, p_slice_ticks := 0, p_lastboost := 0\<rparr> else q) ?s1"
  define s3 where "s3 = upd_proc i (\<lambda>p. p\<lparr>p_trapframe := tf\<rparr>) s2"
  define s4 where "s4 = upd_proc i (\<lambda>p. p\<lparr>p_mem := pt\<rparr>) s3"
  have s1: "bump 0 s ?s1" by (rule bump_same) simp_all
  have s2: "bump 0 ?s1 s2"
    unfolding s2_def
    by (rule bump_upd) (use i in \<open>auto simp: slot_inv_def acct_def Let_def MLFQ_LEVELS_def\<close>)
  have s3: "bump 0 s2 s3" unfolding s3_def by (rule bump_upd_other) (rule slot_inv_cong, simp_all)
  have s4: "bump 0 s3 s4" unfolding s4_def by (rule bump_upd_other) (rule slot_inv_cong, simp_all)
  note s3' = bump_trans0 [OF s1 bump_trans0 [OF s2 s3]]
  have fr: "bump 0 s (freeproc pol i u)" if "bump 0 s u" "u = s3 \<or> u = s4" "length (procs s) = NPROC" for u
    using that(2,3) i by (intro bump_trans0 [OF that(1) bump_freeproc])
      (auto simp: s3_def s4_def s2_def get_upd Let_def split: if_splits)
  have "snd (allocproc pol tf pt s) = (if tf = None then freeproc pol i s3 else if \<not> pt then freeproc pol i s4 else s4)"
    using Some by (cases pol) (simp_all add: allocproc_def allocpid_def s4_def s3_def s2_def Let_def)
  moreover have "bump 0 s (if tf = None then freeproc pol i s3 else if \<not> pt then freeproc pol i s4 else s4)"
  proof (cases "length (procs s) = NPROC")
    case True
    show ?thesis
      using fr [OF s3' disjI1 [OF refl] True] fr [OF bump_trans0 [OF s3' s4] disjI2 [OF refl] True]
        bump_trans0 [OF s3' s4] by (simp split: if_split)
  next
    case False
    then show ?thesis by (simp add: bump_def table_inv_def)
  qed
  ultimately show ?thesis by (simp only:)
qed

text \<open>The tail that \<open>kfork\<close> and \<open>userinit\<close> share: into a queue, then runnable.\<close>

lemma bump_make_runnable:
  assumes "p_state (get_proc i s) = USED"
  shows "bump 1 s (upd_proc i (\<lambda>q. q\<lparr>p_state := RUNNABLE\<rparr>) (enqueue_locked pol i s))"
proof -
  have "p_state (get_proc i (enqueue_locked pol i s)) = USED"
    using assms by (simp add: enq_defs get_upd)
  then have "bump 0 (enqueue_locked pol i s) (upd_proc i (\<lambda>q. q\<lparr>p_state := RUNNABLE\<rparr>) (enqueue_locked pol i s))"
    by (intro bump_upd) (auto simp: slot_inv_def acct_def)
  from bump_trans [OF bump_enqueue(1) this] show ?thesis by simp
qed

lemma bump_kfork:
  assumes "length (procs s) = NPROC"
  shows "bump 1 s (snd (kfork pol tf pt copied me s))"
proof -
  obtain r t where a: "allocproc pol tf pt s = (r, t)" by (cases "allocproc pol tf pt s")
  have t: "bump 0 s t" using bump_allocproc [of s pol tf pt] a by simp
  show ?thesis
  proof (cases r)
    case None
    then show ?thesis using a t by (simp add: kfork_def bump_mono [of 0])
  next
    case (Some i)
    with a have u: "p_state (get_proc i t) = USED" and l: "length (procs t) = NPROC" "i < NPROC"
      using allocproc_cases [OF a assms] by auto
    show ?thesis
    proof (cases copied)
      case False
      then show ?thesis
        using a Some u bump_trans0 [OF t bump_freeproc [of t i 1 pol]] by (simp add: kfork_def)
    next
      case True
      define f where "f = (\<lambda>q :: proc. q\<lparr>p_sz := p_sz (get_proc me t),
                  p_trapframe := map_option (\<lambda>f. f\<lparr>tf_a0 := 0\<rparr>) (p_trapframe (get_proc me t)),
                  p_ofile := dup_files (p_ofile (get_proc me t)) (p_ofile q), p_cwd := p_cwd (get_proc me t),
                  p_name := copy_name (p_name (get_proc me t))\<rparr>)"
      define s3 where "s3 = call (file_calls Filedup (p_ofile (get_proc me t)) @ cwd_calls Idup (p_cwd (get_proc me t)))
        (upd_proc i f t)"
      define s4 where "s4 = upd_proc i (\<lambda>q. q\<lparr>p_parent := Some me\<rparr>) s3"
      have "bump 0 t (upd_proc i f t)"
        by (rule bump_upd_other, rule slot_inv_cong) (simp_all add: f_def)
      then have s3: "bump 0 s s3" unfolding s3_def by (rule bump_trans0 [OF t bump_trans0 [OF _ bump_call]])
      have "bump 0 s3 s4" unfolding s4_def by (rule bump_upd_other) (rule slot_inv_cong, simp_all)
      with s3 have s4: "bump 0 s s4" by (rule bump_trans0)
      have "p_state (get_proc i s4) = USED"
        using u l by (simp add: s4_def s3_def f_def call_def get_upd)
      from bump_trans0 [OF s4 bump_make_runnable [OF this, of pol]] show ?thesis
        using a Some True by (simp add: kfork_def Let_def s4_def s3_def f_def)
    qed
  qed
qed

lemma bump_kwait:
  assumes "k_cur s = Some me"
  shows "bump c s (snd (kwait pol copied me s))"
proof (cases rule: kwait_cases [of s me pol copied])
  case (zombie i)
  let ?u = "upd_proc i (\<lambda>p. p\<lparr>p_parent := None\<rparr>) s"
  have "bump 0 s ?u" by (rule bump_upd_other) (rule slot_inv_cong, simp_all)
  moreover have "p_state (get_proc i ?u) \<noteq> RUNNING" using zombie by (simp add: get_upd)
  ultimately show ?thesis using zombie bump_trans0 bump_freeproc by auto
next
  case sleeps
  have "bump 0 s (upd_proc me (\<lambda>p. p\<lparr>p_chan := ProcChan me\<rparr>) s)"
    by (rule bump_upd_other) (rule slot_inv_cong, simp_all)
  from bump_trans0 [OF this bump_sleep [of _ me c]] show ?thesis using sleeps assms by simp
qed simp

lemma bump_kkill: "bump c s (snd (kkill pid s))"
proof -
  have "bump c s (upd_proc i (\<lambda>p. let q = p\<lparr>p_killed := 1\<rparr>
          in if p_state q = SLEEPING then q\<lparr>p_state := RUNNABLE\<rparr> else q) s)" for i
    by (rule bump_upd) (auto simp: slot_inv_def acct_def Let_def)
  then show ?thesis by (simp add: kkill_def split: option.split)
qed

lemma bump_sys_pause:
  assumes "k_cur s = Some me"
  shows "bump c s (snd (sys_pause ticks0 n me s))"
proof -
  have "bump 0 s (upd_proc me (\<lambda>p. p\<lparr>p_chan := TicksChan\<rparr>) s)"
    by (rule bump_upd_other) (rule slot_inv_cong, simp_all)
  from bump_trans0 [OF this bump_sleep [of _ me c]] show ?thesis using assms by (simp add: sys_pause_def Let_def)
qed

section \<open>Every run\<close>

definition kernel_inv :: "policy \<Rightarrow> kstate \<Rightarrow> bool" where
  "kernel_inv pol s \<longleftrightarrow> fam_ok s \<and> table_inv s \<and> k_next s < 2 ^ 64 - 1 \<and> (pol \<noteq> RR \<longrightarrow> 0 < k_next s)"

lemma table_current:
  assumes "table_inv s" and "k_cur s = Some me"
  shows "me < NPROC" "p_state (get_proc me s) = RUNNING" "cls (p_state (get_proc me s)) = 1"
proof -
  show "me < NPROC" using assms by (simp add: table_inv_def)
  then show "p_state (get_proc me s) = RUNNING" using assms by (simp add: table_inv_def slot_inv_def)
  then show "cls (p_state (get_proc me s)) = 1" by simp
qed

lemma table_run_ok: "table_inv s \<Longrightarrow> run_ok s"
  by (simp add: table_inv_def run_ok_def slot_inv_def)

lemma table_ranks:
  assumes "table_inv s" and "k_next s < 2 ^ 64 - 1"
  shows "seqs_ok s" and "\<forall>j. runnable j s \<longrightarrow> p_queue (get_proc j s) < MLFQ_LEVELS"
    and "length (procs s) = NPROC"
  using assms by (auto simp: table_inv_def slot_inv_def seqs_ok_def runnable_def max_def split: if_splits)

lemma scheduler_runs:
  assumes "table_inv s" and "k_next s < 2 ^ 64 - 1" and "scheduler pol s = Some t"
  obtains i where "runnable i s" and "t = run_proc i s"
proof -
  obtain i where i: "pick pol s = Some i" "t = run_proc i s" using assms(3) by (auto simp: scheduler_def)
  note r = table_ranks(1,2) [OF assms(1,2)]
  have "runnable i s"
    using i(1) mlfq.chosen_Some [OF r] fcfs.chosen_Some [OF r] rr.chosen_Some [OF r]
    by (cases pol) (simp_all add: pick_def)
  then show ?thesis using i(2) that by blast
qed

lemma timer_step:
  assumes inv: "fam_ok s" "table_inv s" and room: "k_ticks s + 1 < 2 ^ 32" "k_next s + 5000 < 2 ^ 64 - 1"
    and t: "timer_trap pol user s = Some t"
  shows "fam_ok t" and "bump 4500 s t"
proof -
  let ?u = "clockintr pol s"
  have "\<forall>i<NPROC. p_state (get_proc i s) \<noteq> USED"
    using fam_slotD(1) [OF inv(1)] by fastforce
  note u = bump_clockintr [OF room(1) this, of pol]
  have fu: "fam_ok ?u" using fam_ok_frame [OF frame_clockintr] inv(1) by simp
  have tu: "table_inv ?u" using u(1) inv(2) room(2) by (simp add: bump_def)
  show "fam_ok t"
  proof (cases "k_cur ?u")
    case None
    then show ?thesis using t fu by (simp add: timer_trap_def)
  next
    case (Some i)
    note c = table_current [OF tu Some]
    have "i < length (procs ?u)" using c(1) fam_len [OF fu] by simp
    from fam_ok_frame [OF frame_yield [OF c(3) this]] fu
    have "fam_ok (yield pol i ?u)" by simp
    then show ?thesis
      using t Some fam_kexit [OF fu c(1,3)] by (auto simp: timer_trap_def Let_def split: if_splits)
  qed
  have "bump 4160 ?u t"
  proof (cases "k_cur ?u")
    case None
    then show ?thesis using t by (simp add: timer_trap_def)
  next
    case (Some i)
    then show ?thesis
      using t bump_kexit [of pol "-1" i ?u t] bump_mono [OF bump_yield [OF Some], of 4160 pol]
      by (auto simp: timer_trap_def Let_def split: if_splits)
  qed
  from bump_mono [OF bump_trans [OF u(1) this], of 4500] show "bump 4500 s t" by simp
qed

lemma kstep_keeps:
  assumes inv: "fam_ok s" "table_inv s" "k_next s < 2 ^ 64 - 1" and "kstep pol s t"
  shows "fam_ok t \<and> bump 5000 s t"
  using assms(4)
proof cases
  case (fork me tf pt copied)
  then show ?thesis
    using fam_kfork [OF inv(1) table_run_ok [OF inv(2)]] bump_mono [OF bump_kfork] fam_len [OF inv(1)] by simp
next
  case (exit me status)
  note c = table_current [OF inv(2) exit(2)]
  show ?thesis using fam_kexit [OF inv(1) c(1,3) exit(3)] bump_mono [OF bump_kexit [OF exit(3,2)]] by simp
next
  case (wait me copied)
  note c = table_current [OF inv(2) wait(3)]
  show ?thesis using fam_kwait [OF inv(1) c(1,3)] bump_kwait [OF wait(3)] wait(1) by simp
next
  case sched
  from scheduler_runs [OF inv(2,3) sched(3)] obtain i where i: "runnable i s" "t = run_proc i s" .
  then have "frame t = frame s" by (auto simp: runnable_def intro: frame_run_proc)
  from fam_ok_frame [OF this] inv(1) i bump_run_proc [OF i(1) sched(2)] show ?thesis by simp
next
  case (timer user)
  then show ?thesis
    using timer_step [OF inv(1,2) _ _ timer(2)] bump_mono [of 4500 s t 5000] by (simp add: room_for_step_def)
next
  case (prepare me ch)
  then have t: "t = upd_proc me (\<lambda>p. p\<lparr>p_chan := ch\<rparr>) s" by (simp add: sleep_prepare_def split: if_splits)
  have "frame t = frame s" unfolding t by (rule frame_upd) (simp add: shape_of_def)
  moreover have "bump 5000 s t" unfolding t by (rule bump_upd_other) (rule slot_inv_cong, simp_all)
  ultimately show ?thesis using fam_ok_frame [of t s] inv(1) by simp
next
  case (sleep me)
  note c = table_current [OF inv(2) sleep(3)]
  show ?thesis using fam_ok_frame [OF frame_sleep [OF c(3)]] bump_sleep [OF sleep(3)] inv(1) sleep(1) by simp
next
  case (wakeup ch)
  then show ?thesis
    using fam_ok_frame [OF frame_wakeup [of pol ch s]] bump_mono [OF bump_wakeup] inv(1) by simp
next
  case (kill pid)
  then show ?thesis using fam_ok_frame [OF frame_kkill [of pid s]] bump_kkill inv(1) by simp
next
  case (setkilled me)
  have "frame t = frame s" unfolding setkilled(1) Kernel_Proc.setkilled_def by (rule frame_upd) (simp add: shape_of_def)
  moreover have "bump 5000 s t"
    unfolding setkilled(1) Kernel_Proc.setkilled_def by (rule bump_upd_other) (rule slot_inv_cong, simp_all)
  ultimately show ?thesis using fam_ok_frame [of t s] inv(1) by simp
next
  case (pause me ticks0 n)
  note c = table_current [OF inv(2) pause(3)]
  let ?u = "upd_proc me (\<lambda>p. p\<lparr>p_chan := TicksChan\<rparr>) s"
  have "cls (p_state (get_proc me ?u)) = 1" using c by (simp add: get_upd)
  then have "frame (Kernel_Proc.sleep me ?u) = frame ?u" by (rule frame_sleep)
  also have "\<dots> = frame s" by (rule frame_upd) (simp add: shape_of_def)
  finally have "frame t = frame s" using pause(1) by (simp add: sys_pause_def Let_def)
  then show ?thesis using fam_ok_frame [of t s] inv(1) bump_sys_pause [OF pause(3)] pause(1) by simp
qed

lemma table_procinit: "table_inv procinit"
  by (simp add: table_inv_def procinit_def slot_inv_def zero_proc_def MLFQ_LEVELS_def)

lemma kinit_inv:
  assumes "kinit pol s"
  shows "kernel_inv pol s"
proof -
  obtain tf root where u: "userinit pol (Some tf) True root procinit = Some s"
    using assms by (auto simp: kinit_def)
  have len: "length (procs procinit) = NPROC" by (simp add: procinit_def)
  have find0: "find (\<lambda>i. p_state (get_proc i procinit) = UNUSED) [0..<NPROC] = Some 0"
    by (simp add: upt_conv_Cons NPROC_def procinit_def zero_proc_def)
  obtain r t where a: "allocproc pol (Some tf) True procinit = (r, t)" by (cases "allocproc pol (Some tf) True procinit")
  then have r: "r = Some 0" using find0 by (auto simp: allocproc_def allocpid_def Let_def)
  have b0: "bump 0 procinit t" using bump_allocproc [of procinit pol "Some tf" True] a by simp
  then have kn0: "k_next t = 0" using table_procinit by (simp add: bump_def procinit_def)
  have one: "k_nextpid procinit = 1" "k_cur procinit = None" by (simp_all add: procinit_def)
  have t: "p_state (get_proc 0 t) = USED \<and> length (procs t) = NPROC \<and> k_nextpid t = 2 \<and>
      shapes t = (shapes procinit)[0 := (shape_of (get_proc 0 procinit))\<lparr>sh_cls := 3, sh_pid := 1\<rparr>]"
    by (rule allocproc_cases [OF a len]) (use r one in simp_all)
  let ?t2 = "upd_proc 0 (\<lambda>p. p\<lparr>p_cwd := Some root\<rparr>) (t\<lparr>k_init := Some 0\<rparr>)"
  have s: "s = upd_proc 0 (\<lambda>p. p\<lparr>p_state := RUNNABLE\<rparr>) (enqueue_locked pol 0 ?t2)"
    using u a r by (simp add: userinit_def Let_def)
  note b0
  moreover have "bump 0 t (t\<lparr>k_init := Some 0\<rparr>)" by (rule bump_same) simp_all
  moreover have "bump 0 (t\<lparr>k_init := Some 0\<rparr>) ?t2" by (rule bump_upd_other) (rule slot_inv_cong, simp_all)
  ultimately have "bump 0 procinit ?t2" using bump_trans0 by blast
  moreover have "p_state (get_proc 0 ?t2) = USED" using t by (simp add: get_upd)
  from bump_make_runnable [OF this, of pol] have "bump 1 ?t2 s" by (simp add: s)
  ultimately have "bump 1 procinit s" by (rule bump_trans0)
  then have tab: "table_inv s" using table_procinit by (simp add: bump_def procinit_def)
  have kn: "k_next s = (if pol = RR then 0 else 1)" using kn0 by (simp add: s enq_defs inc64_def)
  have "shape_of (get_proc 0 t) = (shape_of zero_proc)\<lparr>sh_cls := 3, sh_pid := 1\<rparr>"
    using shape_at [of t procinit 0 _ 0] t len by (simp add: NPROC_def procinit_def)
  then have g0: "p_parent (get_proc 0 t) = None" "p_pid (get_proc 0 t) = 1" "p_ofile (get_proc 0 t) = p_ofile zero_proc"
    by (simp_all add: shape_of_def zero_proc_def)
  have "shapes s = (replicate NPROC (shape_of zero_proc))[0 := (shape_of zero_proc)\<lparr>sh_cls := 1, sh_pid := 1, sh_cwd := Some root\<rparr>]"
    using t g0 by (simp add: s enq_defs shapes_upd get_upd NPROC_def shape_of_def)
      (simp add: shapes_def procinit_def shape_of_def NPROC_def zero_proc_def)
  moreover have "k_nextpid s = 2" "k_init s = Some 0" using t by (simp_all add: s enq_defs)
  ultimately have "fam_ok s"
    by (simp add: fam_ok_def fam_def slots_ok_def parents_ok_def init_ok_def pids_ok_def nth_list_update
        shape_of_def zero_proc_def NPROC_def)
  with tab kn show ?thesis by (simp add: kernel_inv_def)
qed

interpretation sched: safety "kinit pol" "kstep pol" "kernel_inv pol" for pol
proof
  fix s t
  show "kinit pol s \<Longrightarrow> kernel_inv pol s" by (rule kinit_inv)
  assume inv: "kernel_inv pol s" and step: "kstep pol s t"
  from step have room: "room_for_step s" by cases
  have "fam_ok t \<and> bump 5000 s t" using kstep_keeps [OF _ _ _ step] inv by (simp add: kernel_inv_def)
  with inv room show "kernel_inv pol t" by (auto simp: kernel_inv_def bump_def room_for_step_def)
qed

end
