(* ===== verification/Kernel_Process.thy ===== *)
theory Kernel_Process
  imports Kernel_Runs
begin

text \<open>
  The properties of processes and scheduling in every run of the kernel, and of single operations.
\<close>

section \<open>A run to look at\<close>

text \<open>\<open>init\<close> has booted, is scheduled, and forks a child.\<close>

definition init_proc :: proc where
  "init_proc = zero_proc\<lparr>p_pid := 1, p_state := RUNNABLE, p_trapframe := Some zero_trapframe, p_mem := True,
     p_cwd := Some 1\<rparr>"

definition booted :: kstate where
  "booted = procinit\<lparr>procs := (replicate NPROC zero_proc)[0 := init_proc], k_nextpid := 2, k_next := 1,
     k_init := Some 0\<rparr>"

definition running_init :: kstate where
  "running_init = run_proc 0 booted"

definition forked :: kstate where
  "forked = snd (kfork MLFQ (Some zero_trapframe) True True 0 running_init)"

lemma booted_init: "kinit MLFQ booted"
proof -
  have find0: "find (\<lambda>i. p_state (get_proc i procinit) = UNUSED) [0..<NPROC] = Some 0"
    by (simp add: upt_conv_Cons NPROC_def procinit_def zero_proc_def)
  have "userinit MLFQ (Some zero_trapframe) True 1 procinit = Some booted"
    using find0 by (simp add: userinit_def allocproc_def allocpid_def Let_def enq_defs upd_proc_def procinit_def
        NPROC_def booted_def init_proc_def inc64_def zero_proc_def)
  then show ?thesis by (auto simp: kinit_def)
qed

lemma run_states:
  "p_state (get_proc i booted) = (if i = 0 then RUNNABLE else UNUSED)" if "i < NPROC"
  using that by (simp add: booted_def nth_list_update init_proc_def zero_proc_def NPROC_def)

lemma booted_reachable: "reachable (kinit MLFQ) (kstep MLFQ) booted"
  using booted_init by (rule reachable.start)

lemma booted_sched: "scheduler MLFQ booted = Some running_init"
proof -
  note inv = sched.reachable_inv [OF booted_reachable]
  then have inv': "table_inv booted" "k_next booted < 2 ^ 64 - 1" by (simp_all add: kernel_inv_def)
  have r: "runnable j booted \<longleftrightarrow> j = 0" for j using run_states by (auto simp: runnable_def NPROC_def split: if_splits)
  have "pick_mlfq booted = Some 0"
    using pick_mlfq_spec [OF table_ranks(1,2) [OF inv']] r by (auto split: option.splits)
  then show ?thesis by (simp add: scheduler_def pick_def running_init_def)
qed

lemma running_reachable: "reachable (kinit MLFQ) (kstep MLFQ) running_init"
proof (rule reachable.step [OF booted_reachable])
  show "kstep MLFQ booted running_init"
    by (rule kstep.sched) (use booted_sched in \<open>simp_all add: room_for_step_def booted_def procinit_def\<close>)
qed

lemma forked_reachable: "reachable (kinit MLFQ) (kstep MLFQ) forked"
proof (rule reachable.step [OF running_reachable])
  show "kstep MLFQ running_init forked"
    unfolding forked_def
    by (rule kstep.fork) (simp_all add: room_for_step_def running_init_def run_proc_def booted_def procinit_def)
qed

lemma forked_procs:
  "procs forked = (procs running_init)[1 := init_proc\<lparr>p_pid := 2, p_parent := Some 0,
     p_trapframe := Some zero_trapframe, p_sequence := 1\<rparr>]" "k_next forked = 2" "k_ticks forked = 0"
  "k_cur forked = Some 0" "k_init forked = Some 0"
proof -
  have u: "p_state (get_proc i running_init) = (if i = 0 then RUNNING else UNUSED)" if "i < NPROC" for i
    using run_states [OF that] that by (simp add: running_init_def run_proc_def get_upd Let_def)
      (simp add: booted_def NPROC_def)
  have f: "find (\<lambda>i. p_state (get_proc i running_init) = UNUSED) [0..<NPROC] = Some 1"
    using u [of 0] u [of 1] by (simp add: upt_conv_Cons NPROC_def)
  have g: "get_proc 0 running_init = init_proc\<lparr>p_state := RUNNING, p_started := True, p_first_run := 0\<rparr>"
      "get_proc (Suc 0) running_init = zero_proc" "length (procs running_init) = 64" "k_nextpid running_init = 2"
      "k_next running_init = 1" "k_ticks running_init = 0" "k_cur running_init = Some 0"
      "k_init running_init = Some 0"
    by (simp_all add: running_init_def run_proc_def booted_def procinit_def upd_proc_def NPROC_def Let_def
        init_proc_def zero_proc_def)
  have c: "dup_files (replicate NOFILE None) (replicate NOFILE None) = replicate NOFILE None" "copy_name [] = []"
    by (simp_all add: dup_files_def copy_name_def zip_replicate c_str_def)
  show "procs forked = (procs running_init)[1 := init_proc\<lparr>p_pid := 2, p_parent := Some 0,
     p_trapframe := Some zero_trapframe, p_sequence := 1\<rparr>]" "k_next forked = 2" "k_ticks forked = 0"
    "k_cur forked = Some 0" "k_init forked = Some 0"
    using f g c by (simp_all add: forked_def kfork_def allocproc_def allocpid_def Let_def enq_defs upd_proc_def call_def
        init_proc_def zero_proc_def inc64_def zero_trapframe_def)
qed

section \<open>Scheduling\<close>

text \<open>
  C27. In every run of the MLFQ kernel the scheduler takes a process of the highest queue that has
  a runnable one, and there the process that has waited in it longest; it takes none only when
  no process is runnable.
\<close>

theorem mlfq_picks_first:
  assumes "reachable (kinit MLFQ) (kstep MLFQ) s"
  shows "case pick_mlfq s of
      None \<Rightarrow> \<forall>j. \<not> runnable j s
    | Some i \<Rightarrow> runnable i s \<and> (\<forall>j. runnable j s \<longrightarrow> before s i j)"
  using sched.reachable_inv [OF assms] pick_mlfq_spec table_ranks by (auto simp: kernel_inv_def)

lemma runnable_forked: "runnable 1 forked"
  by (simp add: runnable_def NPROC_def forked_procs init_proc_def running_init_def run_proc_def booted_def)

theorem mlfq_picks_first_witness: "\<exists>i. pick_mlfq forked = Some i \<and> runnable i forked \<and> before forked i 1"
  using mlfq_picks_first [OF forked_reachable] runnable_forked by (auto split: option.splits)

text \<open>
  C28. Under each of the three policies the CPU does not idle while a process is runnable, and
  dispatching a process changes no other process.
\<close>

theorem scheduler_conserves_work:
  assumes "reachable (kinit pol) (kstep pol) s"
  shows "case scheduler pol s of
      None \<Rightarrow> \<forall>j. \<not> runnable j s
    | Some t \<Rightarrow> \<exists>i. runnable i s \<and> k_cur t = Some i \<and> p_state (get_proc i t) = RUNNING \<and>
        (\<forall>j. j \<noteq> i \<longrightarrow> get_proc j t = get_proc j s)"
  using sched.reachable_inv [OF assms] by (intro scheduler_spec table_ranks) (simp_all add: kernel_inv_def)

theorem scheduler_conserves_work_witness: "\<exists>t i. scheduler MLFQ booted = Some t \<and> k_cur t = Some i"
  using scheduler_conserves_work [OF booted_reachable] booted_sched by auto



section \<open>Processes\<close>

lemma pids_distinct:
  assumes ok: "fam_ok s" and ij: "i < NPROC" "j < NPROC" and "cls (p_state (get_proc i s)) \<noteq> 0"
    and "p_pid (get_proc j s) = p_pid (get_proc i s)"
  shows "j = i"
proof -
  have sh: "shapes s ! k = shape_of (get_proc k s)" if "k < NPROC" for k
    using that fam_len [OF ok] by (simp add: shapes_nth)
  have "cls (p_state (get_proc j s)) \<noteq> 0"
    using fam_slotD(2) [OF ok ij(2)] fam_slotD(3) [OF ok ij(1) assms(4)] assms(5) by auto
  moreover have "pids_ok (shapes s)" using ok by (simp add: fam_ok_def fam_def)
  then have "sh_cls (shapes s ! j) \<noteq> 0 \<longrightarrow> sh_cls (shapes s ! i) \<noteq> 0 \<longrightarrow>
      sh_pid (shapes s ! j) = sh_pid (shapes s ! i) \<longrightarrow> j = i"
    using ij unfolding pids_ok_def by blast
  ultimately show ?thesis using assms(4,5) sh [OF ij(1)] sh [OF ij(2)] by (simp add: shape_of_def)
qed

lemma cls_iff:
  "cls st = 1 \<longleftrightarrow> st \<in> {SLEEPING, RUNNABLE, RUNNING}" "cls st = 0 \<longleftrightarrow> st = UNUSED" "cls st = 3 \<longleftrightarrow> st = USED"
  by (cases st; simp)+


lemma forked_child: "p_parent (get_proc 1 forked) = Some 0" "p_state (get_proc 1 forked) = RUNNABLE"
  using runnable_forked
  by (simp_all add: runnable_def forked_procs init_proc_def running_init_def run_proc_def booted_def NPROC_def)




text \<open>What \<open>wakeup\<close> does to each slot.\<close>

lemma wake_one_at:
  assumes "i < length (procs s)"
  shows "j \<noteq> i \<Longrightarrow> get_proc j (wake_one pol ch i s) = get_proc j s"
    and "p_chan (get_proc i (wake_one pol ch i s)) = (if p_chan (get_proc i s) = ch then NoChan else p_chan (get_proc i s))"
    and "p_state (get_proc i (wake_one pol ch i s)) =
      (if p_chan (get_proc i s) = ch \<and> p_state (get_proc i s) = SLEEPING then RUNNABLE else p_state (get_proc i s))"
    and "length (procs (wake_one pol ch i s)) = length (procs s)"
  using assms by (simp_all add: wake_one_def Let_def get_upd enq_defs)

lemma wakeup_upto:
  assumes "n \<le> length (procs s)"
  shows "length (procs (fold (wake_one pol ch) [0..<n] s)) = length (procs s) \<and>
    (\<forall>j. p_chan (get_proc j (fold (wake_one pol ch) [0..<n] s)) =
       (if j < n \<and> p_chan (get_proc j s) = ch then NoChan else p_chan (get_proc j s)) \<and>
     p_state (get_proc j (fold (wake_one pol ch) [0..<n] s)) =
       (if j < n \<and> p_chan (get_proc j s) = ch \<and> p_state (get_proc j s) = SLEEPING then RUNNABLE
        else p_state (get_proc j s)))"
  using assms
proof (induction n)
  case (Suc n)
  define u where "u = fold (wake_one pol ch) [0..<n] s"
  have n: "n < length (procs u)" using Suc by (simp add: u_def)
  note w = wake_one_at [OF n]
  have "p_chan (get_proc j (wake_one pol ch n u)) =
       (if j < Suc n \<and> p_chan (get_proc j s) = ch then NoChan else p_chan (get_proc j s)) \<and>
     p_state (get_proc j (wake_one pol ch n u)) =
       (if j < Suc n \<and> p_chan (get_proc j s) = ch \<and> p_state (get_proc j s) = SLEEPING then RUNNABLE
        else p_state (get_proc j s))" for j
    using Suc w by (cases "j = n") (simp_all add: less_Suc_eq flip: u_def)
  then show ?case using Suc w(4) by (simp flip: u_def)
qed simp

lemma wakeup_at:
  assumes "length (procs s) = NPROC" and "j < NPROC"
  shows "p_chan (get_proc j (wakeup pol ch s)) = (if p_chan (get_proc j s) = ch then NoChan else p_chan (get_proc j s))"
    and "p_state (get_proc j (wakeup pol ch s)) =
      (if p_chan (get_proc j s) = ch \<and> p_state (get_proc j s) = SLEEPING then RUNNABLE else p_state (get_proc j s))"
    and "length (procs (wakeup pol ch s)) = NPROC"
  using wakeup_upto [of NPROC s pol ch] assms by (simp_all add: wakeup_def)

text \<open>
  C31. No wakeup is lost between \<open>sleep_prepare\<close> and \<open>sleep\<close>: a wakeup on the channel before the
  process sleeps makes \<open>sleep\<close> return at once, one after it makes the process runnable, and a
  wakeup on another channel does neither.
\<close>

theorem no_lost_wakeup:
  assumes "length (procs s) = NPROC" and "i < NPROC" and "p_state (get_proc i s) = RUNNING"
    and "sleep_prepare i ch s = Some t" and "ch' \<noteq> ch"
  shows "sleep i (wakeup pol ch t) = wakeup pol ch t \<and>
    p_state (get_proc i (wakeup pol ch (sleep i t))) = RUNNABLE \<and>
    p_state (get_proc i (wakeup pol ch' (sleep i (wakeup pol ch' t)))) = SLEEPING"
proof -
  have t: "t = upd_proc i (\<lambda>p. p\<lparr>p_chan := ch\<rparr>) s" "ch \<noteq> NoChan"
    using assms(4) by (auto simp: sleep_prepare_def split: if_splits)
  then have ti: "p_chan (get_proc i t) = ch" "p_state (get_proc i t) = RUNNING" "length (procs t) = NPROC"
    using assms by (simp_all add: get_upd)
  have sl: "p_state (get_proc i (sleep i u)) = SLEEPING" "p_chan (get_proc i (sleep i u)) = ch"
      "length (procs (sleep i u)) = NPROC"
    if "p_chan (get_proc i u) = ch" "length (procs u) = NPROC" for u
    using that t(2) assms(2) by (simp_all add: sleep_def get_upd)
  have "sleep i (wakeup pol ch t) = wakeup pol ch t"
    using wakeup_at [OF ti(3) assms(2), of pol ch] ti by (simp add: sleep_def)
  moreover have "p_state (get_proc i (wakeup pol ch (sleep i t))) = RUNNABLE"
    using wakeup_at [OF sl(3) assms(2), of t pol ch] sl [OF ti(1,3)] ti by simp
  moreover have "p_chan (get_proc i (wakeup pol ch' t)) = ch" "length (procs (wakeup pol ch' t)) = NPROC"
    using wakeup_at [OF ti(3) assms(2), of pol ch'] ti assms(5) by simp_all
  from wakeup_at [OF sl(3) [OF this] assms(2), of pol ch'] sl [OF this] assms(5)
  have "p_state (get_proc i (wakeup pol ch' (sleep i (wakeup pol ch' t)))) = SLEEPING" by simp
  ultimately show ?thesis by blast
qed

theorem no_lost_wakeup_witness:
  "\<exists>t. sleep_prepare 0 TicksChan running_init = Some t \<and> sleep 0 (wakeup RR TicksChan t) = wakeup RR TicksChan t"
proof -
  have r: "length (procs running_init) = NPROC" "0 < NPROC" "p_state (get_proc 0 running_init) = RUNNING"
    by (simp_all add: running_init_def run_proc_def booted_def upd_proc_def NPROC_def Let_def)
  show ?thesis
    using no_lost_wakeup [OF r, of TicksChan "the (sleep_prepare 0 TicksChan running_init)" "ProcChan 0" RR]
    by (simp add: sleep_prepare_def)
qed

text \<open>The boost, slot by slot.\<close>

lemma boost_upto:
  assumes "n \<le> NPROC" and "length (procs s) = NPROC"
  shows "length (procs (fold boost_one [0..<n] s)) = NPROC \<and> k_ticks (fold boost_one [0..<n] s) = k_ticks s \<and>
    (\<forall>j<NPROC. p_state (get_proc j (fold boost_one [0..<n] s)) = p_state (get_proc j s) \<and>
      (if j < n \<and> p_state (get_proc j s) \<noteq> UNUSED \<and> p_state (get_proc j s) \<noteq> ZOMBIE
       then p_queue (get_proc j (fold boost_one [0..<n] s)) = 0 \<and>
         p_slice_ticks (get_proc j (fold boost_one [0..<n] s)) = 0 \<and>
         p_lastboost (get_proc j (fold boost_one [0..<n] s)) = k_ticks s
       else get_proc j (fold boost_one [0..<n] s) = get_proc j s))"
  using assms(1)
proof (induction n)
  case 0
  then show ?case using assms by simp
next
  case (Suc n)
  define u where "u = fold boost_one [0..<n] s"
  have IH: "length (procs u) = NPROC" "k_ticks u = k_ticks s" using Suc by (simp_all add: u_def)
  have at: "p_state (get_proc j u) = p_state (get_proc j s)"
      "if j < n \<and> p_state (get_proc j s) \<noteq> UNUSED \<and> p_state (get_proc j s) \<noteq> ZOMBIE
       then p_queue (get_proc j u) = 0 \<and> p_slice_ticks (get_proc j u) = 0 \<and> p_lastboost (get_proc j u) = k_ticks s
       else get_proc j u = get_proc j s" if "j < NPROC" for j
    using Suc that by (simp_all add: u_def)
  have n: "n < NPROC" using Suc.prems by simp
  have other: "get_proc j (boost_one n u) = get_proc j u" if "j \<noteq> n" for j
    using that by (simp add: boost_one_def Let_def get_upd enq_defs)
  have len: "length (procs (boost_one n u)) = NPROC" "k_ticks (boost_one n u) = k_ticks s"
    using IH by (simp_all add: boost_one_def Let_def enq_defs)
  have here: "p_state (get_proc n (boost_one n u)) = p_state (get_proc n s) \<and>
      (if p_state (get_proc n s) \<noteq> UNUSED \<and> p_state (get_proc n s) \<noteq> ZOMBIE
       then p_queue (get_proc n (boost_one n u)) = 0 \<and> p_slice_ticks (get_proc n (boost_one n u)) = 0 \<and>
         p_lastboost (get_proc n (boost_one n u)) = k_ticks s
       else get_proc n (boost_one n u) = get_proc n s)"
    using at [OF n] IH n by (simp add: boost_one_def Let_def get_upd enq_defs)
  have "p_state (get_proc j (boost_one n u)) = p_state (get_proc j s) \<and>
      (if j < Suc n \<and> p_state (get_proc j s) \<noteq> UNUSED \<and> p_state (get_proc j s) \<noteq> ZOMBIE
       then p_queue (get_proc j (boost_one n u)) = 0 \<and> p_slice_ticks (get_proc j (boost_one n u)) = 0 \<and>
         p_lastboost (get_proc j (boost_one n u)) = k_ticks s
       else get_proc j (boost_one n u) = get_proc j s)" if "j < NPROC" for j
  proof (cases "j = n")
    case True
    then show ?thesis using here by simp
  next
    case False
    then show ?thesis using at [OF that] other [OF False] by (simp add: less_Suc_eq)
  qed
  then show ?case using len by (simp flip: u_def)
qed

text \<open>
  C32. At every 48th tick the clock of the MLFQ kernel puts each process that is not free or a
  zombie in the highest queue with a fresh slice, so that no queue starves.
\<close>

theorem boost_every_48_ticks:
  assumes "length (procs s) = NPROC" and "(k_ticks s + 1) mod 2 ^ 32 mod 48 = 0" and "i < NPROC"
    and "p_state (get_proc i s) \<noteq> UNUSED" and "p_state (get_proc i s) \<noteq> ZOMBIE"
  shows "p_queue (get_proc i (clockintr MLFQ s)) = 0 \<and> p_slice_ticks (get_proc i (clockintr MLFQ s)) = 0"
proof -
  define u where "u = s\<lparr>k_ticks := (k_ticks s + 1) mod 2 ^ 32,
    procs := map2 (tick_proc MLFQ (k_cur s)) [0..<length (procs s)] (procs s)\<rparr>"
  have u: "length (procs u) = NPROC" "p_state (get_proc i u) = p_state (get_proc i s)"
    using assms by (simp_all add: u_def tick_proc_def Let_def)
  have c: "clockintr MLFQ s = wakeup MLFQ TicksChan (mlfq_boost u)"
    using assms(2) by (simp add: clockintr_def u_def Let_def)
  have keep: "p_queue (get_proc i (wakeup pol ch v)) = p_queue (get_proc i v)"
      "p_slice_ticks (get_proc i (wakeup pol ch v)) = p_slice_ticks (get_proc i v)" for pol ch v
    unfolding wakeup_def
    by (rule fold_const [of "\<lambda>v. p_queue (get_proc i v)"], simp add: wake_one_def Let_def get_upd enq_defs)
      (rule fold_const [of "\<lambda>v. p_slice_ticks (get_proc i v)"], simp add: wake_one_def Let_def get_upd enq_defs)
  show ?thesis
    using boost_upto [OF order.refl u(1)] assms(3-5) u(2) by (simp add: c keep mlfq_boost_def)
qed

theorem boost_every_48_ticks_witness: "p_queue (get_proc 1 (clockintr MLFQ (forked\<lparr>k_ticks := 47\<rparr>))) = 0"
proof -
  have "length (procs (forked\<lparr>k_ticks := 47\<rparr>)) = NPROC" "1 < NPROC"
    by (simp_all add: forked_procs running_init_def run_proc_def booted_def upd_proc_def NPROC_def)
  from boost_every_48_ticks [OF this(1) _ this(2)] forked_child(2) show ?thesis by simp
qed


lemma child_runs: "\<exists>s. reachable (kinit MLFQ) (kstep MLFQ) s \<and> k_cur s = Some 1 \<and> k_init s = Some 0"
proof -
  let ?w = "snd (kwait MLFQ True 0 forked)"
  have len: "length (procs forked) = NPROC" using sched.reachable_inv [OF forked_reachable]
    by (simp add: kernel_inv_def table_inv_def)
  have st: "p_state (get_proc i forked) = (if i = 0 then RUNNING else if i = 1 then RUNNABLE else UNUSED)"
    if "i < NPROC" for i
    using that run_states [OF that] forked_child(2)
    by (simp add: forked_procs running_init_def run_proc_def get_upd booted_def Let_def NPROC_def zero_proc_def)
  let ?kids = "filter (\<lambda>i. p_parent (get_proc i forked) = Some 0) [0..<NPROC]"
  have f: "find (\<lambda>i. p_state (get_proc i forked) = ZOMBIE) ?kids = None"
    using st by (auto simp: find_None_iff)
  have k: "?kids \<noteq> []" using forked_child(1) by (auto simp: filter_empty_conv NPROC_def intro!: bexI [of _ 1])
  have nk: "killed 0 forked = 0"
    by (simp add: killed_def forked_procs running_init_def run_proc_def booted_def get_upd init_proc_def zero_proc_def
        NPROC_def Let_def)
  have w: "?w = sleep 0 (upd_proc 0 (\<lambda>p. p\<lparr>p_chan := ProcChan 0\<rparr>) forked)"
    using f k nk by (simp add: kwait_def)
  have step: "kstep MLFQ forked ?w"
    by (rule kstep.wait) (simp_all add: forked_procs room_for_step_def)
  have rw: "reachable (kinit MLFQ) (kstep MLFQ) ?w" by (rule reachable.step [OF forked_reachable step])
  have "k_cur ?w = None" "k_init ?w = k_init forked" "k_next ?w = 2" "k_ticks ?w = 0"
    using len by (simp_all add: w sleep_def get_upd NPROC_def forked_procs)
  moreover have r: "runnable j ?w \<longleftrightarrow> j = 1" for j
    using st len by (auto simp: w sleep_def get_upd NPROC_def runnable_def split: if_splits)
  have inv: "table_inv ?w" "k_next ?w < 2 ^ 64 - 1" using sched.reachable_inv [OF rw] by (simp_all add: kernel_inv_def)
  obtain t where t: "scheduler MLFQ ?w = Some t" "k_cur t = Some 1"
    using scheduler_spec [OF table_ranks [OF inv], of MLFQ] r by (auto split: option.splits)
  moreover from t(1) have "k_init t = k_init ?w" by (auto simp: scheduler_def run_proc_def)
  moreover have "k_init forked = Some 0" by (rule forked_procs)
  ultimately show ?thesis
    using reachable.step [OF rw kstep.sched [OF _ _ t(1)]] by (auto simp: room_for_step_def)
qed


lemma find_cong_set: "(\<And>x. x \<in> set xs \<Longrightarrow> P x = Q x) \<Longrightarrow> find P xs = find Q xs"
  by (induction xs) auto

text \<open>
  C34. \<open>kill(0)\<close> succeeds whenever the table has a free slot, and the next process that
  \<open>fork\<close> puts there starts out killed: free slots have pid 0, and \<open>allocproc\<close> does not
  clear the mark.
\<close>

theorem kill_zero_marks_next_child:
  assumes "reachable (kinit pol) (kstep pol) s" and "k_cur s = Some me"
    and "\<exists>i<NPROC. p_state (get_proc i s) = UNUSED"
  shows "fst (kkill 0 s) = 0 \<and>
    (\<exists>i<NPROC. p_state (get_proc i s) = UNUSED \<and>
      (let (r, t) = kfork pol (Some tf) True True me (snd (kkill 0 s))
       in r = p_pid (get_proc i t) \<and> p_parent (get_proc i t) = Some me \<and> p_killed (get_proc i t) = 1))"
proof -
  have inv: "fam_ok s" "table_inv s" using sched.reachable_inv [OF assms(1)] by (simp_all add: kernel_inv_def)
  note len = fam_len [OF inv(1)]
  have "p_pid (get_proc i s) = 0 \<longleftrightarrow> p_state (get_proc i s) = UNUSED" if "i < NPROC" for i
    using fam_slotD(2,3) [OF inv(1) that] by (cases "p_state (get_proc i s) = UNUSED") (auto simp: cls_iff)
  then have eq: "find (\<lambda>i. p_pid (get_proc i s) = 0) [0..<NPROC] = find (\<lambda>i. p_state (get_proc i s) = UNUSED) [0..<NPROC]"
    by (intro find_cong_set) simp
  obtain i where f: "find (\<lambda>i. p_state (get_proc i s) = UNUSED) [0..<NPROC] = Some i"
    using assms(3) by (cases "find (\<lambda>i. p_state (get_proc i s) = UNUSED) [0..<NPROC]") (auto simp: find_None_iff)
  then have i: "i < NPROC" "p_state (get_proc i s) = UNUSED" using find_upt by auto
  define t where "t = snd (kkill 0 s)"
  have t: "t = upd_proc i (\<lambda>p. p\<lparr>p_killed := 1\<rparr>) s"
    using eq f i len by (simp add: t_def kkill_def Let_def upd_proc_def)
  have "p_state (get_proc j t) = p_state (get_proc j s)" for j by (simp add: t get_upd)
  then have ft: "find (\<lambda>i. p_state (get_proc i t) = UNUSED) [0..<NPROC] = Some i" using f by simp
  have lt: "i < length (procs t)" "p_killed (get_proc i t) = 1" using i(1) len by (simp_all add: t get_upd)
  have "let (r, u) = kfork pol (Some tf) True True me t
       in r = p_pid (get_proc i u) \<and> p_parent (get_proc i u) = Some me \<and> p_killed (get_proc i u) = 1"
    using ft lt by (simp add: kfork_def allocproc_def allocpid_def Let_def get_upd enq_defs call_def)
  moreover have "fst (kkill 0 s) = 0" using eq f by (simp add: kkill_def)
  ultimately show ?thesis using i by (auto simp: t_def)
qed

theorem kill_zero_marks_next_child_witness:
  "fst (kkill 0 running_init) = 0 \<and>
    (\<exists>i. p_killed (get_proc i (snd (kfork MLFQ (Some zero_trapframe) True True 0 (snd (kkill 0 running_init))))) = 1)"
proof -
  have "k_cur running_init = Some 0" "\<exists>i<NPROC. p_state (get_proc i running_init) = UNUSED"
    by (auto simp: running_init_def run_proc_def booted_def get_upd NPROC_def zero_proc_def intro!: exI [of _ 5])
  from kill_zero_marks_next_child [OF running_reachable this, of zero_trapframe]
  show ?thesis by (auto simp: Let_def case_prod_beta)
qed

end
