(* ===== verification/C_Memory.thy ===== *)
theory C_Memory
  imports Prelude "HOL-Library.Monad_Syntax"
begin

text \<open>
  The memory and string routines of \<^verbatim>\<open>xv6/kernel/string.c\<close> and
  \<^verbatim>\<open>xv6/user/ulib.c\<close>. Memory is a map from addresses to bytes, pointers are addresses, so that
  source and destination may overlap. A loop over a string ends at its NUL; over memory without one
  it does not return, which is \<open>None\<close>.
\<close>

type_synonym memory = "nat \<Rightarrow> byte"

section \<open>Blocks\<close>

primrec fill :: "nat \<Rightarrow> nat \<Rightarrow> byte \<Rightarrow> memory \<Rightarrow> memory" where
  "fill 0 p c m = m"
| "fill (Suc n) p c m = fill n (p + 1) c (m(p := c))"

definition memset :: "nat \<Rightarrow> int \<Rightarrow> nat \<Rightarrow> memory \<Rightarrow> memory" where
  "memset dst c n m = fill n dst (word_of_int c) m"

primrec memcmp :: "nat \<Rightarrow> nat \<Rightarrow> nat \<Rightarrow> memory \<Rightarrow> int" where
  "memcmp s1 s2 0 m = 0"
| "memcmp s1 s2 (Suc n) m =
     (if m s1 \<noteq> m s2 then uint (m s1) - uint (m s2) else memcmp (s1 + 1) (s2 + 1) n m)"

text \<open>The loops \<open>*d++ = *s++\<close> and \<open>*--d = *--s\<close>.\<close>

primrec copy_up :: "nat \<Rightarrow> nat \<Rightarrow> nat \<Rightarrow> memory \<Rightarrow> memory" where
  "copy_up 0 d s m = m"
| "copy_up (Suc n) d s m = copy_up n (d + 1) (s + 1) (m(d := m s))"

primrec copy_down :: "nat \<Rightarrow> nat \<Rightarrow> nat \<Rightarrow> memory \<Rightarrow> memory" where
  "copy_down 0 d s m = m"
| "copy_down (Suc n) d s m = copy_down n (d - 1) (s - 1) (m(d - 1 := m (s - 1)))"

definition memmove :: "nat \<Rightarrow> nat \<Rightarrow> nat \<Rightarrow> memory \<Rightarrow> memory" where
  "memmove dst src n m =
     (if n = 0 then m
      else if src < dst \<and> src + n > dst then copy_down n (dst + n) (src + n) m
      else copy_up n dst src m)"

definition memcpy :: "nat \<Rightarrow> nat \<Rightarrow> nat \<Rightarrow> memory \<Rightarrow> memory" where
  "memcpy dst src n m = memmove dst src n m"

text \<open>The user library takes a signed count; neither loop runs for a negative one.\<close>

definition umemmove :: "nat \<Rightarrow> nat \<Rightarrow> int \<Rightarrow> memory \<Rightarrow> memory" where
  "umemmove dst src n m =
     (if src > dst then copy_up (nat n) dst src m
      else copy_down (nat n) (dst + nat n) (src + nat n) m)"

section \<open>Strings\<close>

primrec strncmp :: "nat \<Rightarrow> nat \<Rightarrow> nat \<Rightarrow> memory \<Rightarrow> int" where
  "strncmp p q 0 m = 0"
| "strncmp p q (Suc n) m =
     (if m p \<noteq> 0 \<and> m p = m q then strncmp (p + 1) (q + 1) n m else uint (m p) - uint (m q))"

primrec strncpy_loop :: "nat \<Rightarrow> nat \<Rightarrow> nat \<Rightarrow> memory \<Rightarrow> memory" where
  "strncpy_loop s t 0 m = m"
| "strncpy_loop s t (Suc n) m =
     (let m1 = m(s := m t) in if m t \<noteq> 0 then strncpy_loop (s + 1) (t + 1) n m1 else fill n (s + 1) 0 m1)"

definition strncpy :: "nat \<Rightarrow> nat \<Rightarrow> int \<Rightarrow> memory \<Rightarrow> memory" where
  "strncpy s t n m = strncpy_loop s t (nat n) m"

text \<open>\<open>k\<close> is \<open>n\<close> after \<open>--n\<close>; the result says where the final \<open>*s = 0\<close> goes.\<close>

primrec safestrcpy_loop :: "nat \<Rightarrow> nat \<Rightarrow> nat \<Rightarrow> memory \<Rightarrow> nat \<times> memory" where
  "safestrcpy_loop s t 0 m = (s, m)"
| "safestrcpy_loop s t (Suc k) m =
     (let m1 = m(s := m t) in if m t \<noteq> 0 then safestrcpy_loop (s + 1) (t + 1) k m1 else (s + 1, m1))"

definition safestrcpy :: "nat \<Rightarrow> nat \<Rightarrow> int \<Rightarrow> memory \<Rightarrow> memory" where
  "safestrcpy s t n m =
     (if n \<le> 0 then m else let (e, m1) = safestrcpy_loop s t (nat (n - 1)) m in m1(e := 0))"

partial_function (option) strlen :: "nat \<Rightarrow> memory \<Rightarrow> nat option" where
  "strlen s m = (if m s = 0 then Some 0 else strlen (s + 1) m \<bind> (\<lambda>k. Some (k + 1)))"

partial_function (option) strcpy :: "nat \<Rightarrow> nat \<Rightarrow> memory \<Rightarrow> memory option" where
  "strcpy s t m = (if m t = 0 then Some (m(s := 0)) else strcpy (s + 1) (t + 1) (m(s := m t)))"

partial_function (option) strcmp :: "nat \<Rightarrow> nat \<Rightarrow> memory \<Rightarrow> int option" where
  "strcmp p q m =
     (if m p \<noteq> 0 \<and> m p = m q then strcmp (p + 1) (q + 1) m else Some (uint (m p) - uint (m q)))"

text \<open>\<open>Some None\<close> is the null pointer.\<close>

partial_function (option) strchr :: "nat \<Rightarrow> byte \<Rightarrow> memory \<Rightarrow> nat option option" where
  "strchr s c m =
     (if m s = 0 then Some None else if m s = c then Some (Some s) else strchr (s + 1) c m)"

text \<open>
  \<open>gets\<close> over what is left of standard input, with \<open>room = max - 1 - i\<close>: the bytes before the
  NUL and the rest of the input. \<open>read\<close> gives less than one byte at the end of the input.
\<close>

fun gets_loop :: "nat \<Rightarrow> byte list \<Rightarrow> byte list \<times> byte list" where
  "gets_loop 0 inp = ([], inp)"
| "gets_loop (Suc room) [] = ([], [])"
| "gets_loop (Suc room) (c # inp) =
     (if c = 10 \<or> c = 13 then ([c], inp) else let (b, r) = gets_loop room inp in (c # b, r))"

definition gets :: "int \<Rightarrow> byte list \<Rightarrow> byte list \<times> byte list" where
  "gets mx inp = gets_loop (nat (mx - 1)) inp"

text \<open>\<open>atoi\<close> of the user library, on the bytes of a string; \<open>int\<close> wraps at 32 bits.\<close>

fun uatoi_loop :: "byte list \<Rightarrow> int \<Rightarrow> int" where
  "uatoi_loop [] n = n"
| "uatoi_loop (c # cs) n =
     (if 48 \<le> c \<and> c \<le> 57 then uatoi_loop cs (wrap32 (n * 10 + uint c - 48)) else n)"

definition uatoi :: "byte list \<Rightarrow> int" where
  "uatoi s = uatoi_loop s 0"

section \<open>What the block routines do\<close>

text \<open>The effect a copy should have: all of the source as it was before.\<close>

definition moved :: "nat \<Rightarrow> nat \<Rightarrow> nat \<Rightarrow> memory \<Rightarrow> memory" where
  "moved dst src n m = (\<lambda>a. if dst \<le> a \<and> a < dst + n then m (src + (a - dst)) else m a)"

lemma fill_at: "fill n p c m = (\<lambda>a. if p \<le> a \<and> a < p + n then c else m a)"
  by (induction n arbitrary: p m) (auto simp: fun_eq_iff)

lemma copy_up_moved:
  assumes "\<not> (s < d \<and> d < s + n)"
  shows "copy_up n d s m = moved d s n m"
  using assms
proof (induction n arbitrary: d s m)
  case (Suc n)
  have "\<not> (s + 1 < d + 1 \<and> d + 1 < s + 1 + n)" using Suc.prems by auto
  from Suc.IH [OF this] have "copy_up (Suc n) d s m = moved (d + 1) (s + 1) n (m(d := m s))"
    by (simp only: copy_up.simps)
  also have "\<dots> = moved d s (Suc n) m"
  proof
    fix a
    show "moved (d + 1) (s + 1) n (m(d := m s)) a = moved d s (Suc n) m a"
      using Suc.prems by (cases "a = d") (auto simp: moved_def Suc_diff_Suc)
  qed
  finally show ?case .
qed (auto simp: moved_def fun_eq_iff)

lemma copy_down_moved:
  assumes "\<not> (d < s \<and> s < d + n)"
  shows "copy_down n (d + n) (s + n) m = moved d s n m"
  using assms
proof (induction n arbitrary: m)
  case (Suc n)
  have "\<not> (d < s \<and> s < d + n)" using Suc.prems by auto
  from Suc.IH [OF this] have "copy_down (Suc n) (d + Suc n) (s + Suc n) m = moved d s n (m(d + n := m (s + n)))"
    by (simp add: fun_upd_def)
  also have "\<dots> = moved d s (Suc n) m"
  proof
    fix a
    show "moved d s n (m(d + n := m (s + n))) a = moved d s (Suc n) m a"
      using Suc.prems by (auto simp: moved_def)
  qed
  finally show ?case .
qed (auto simp: moved_def fun_eq_iff)

text \<open>
  C14. \<open>memmove\<close> of the kernel and of the user library both leave the bytes the source had before
  the call in the destination and change nothing else, however the two blocks overlap.
\<close>

theorem memmove_moves:
  "memmove dst src n m = moved dst src n m \<and> umemmove dst src k m = moved dst src (nat k) m"
proof
  have "moved dst src 0 m = m" by (auto simp: moved_def fun_eq_iff)
  then show "memmove dst src n m = moved dst src n m"
    by (auto simp: memmove_def copy_down_moved copy_up_moved)
  show "umemmove dst src k m = moved dst src (nat k) m"
    by (auto simp: umemmove_def copy_down_moved copy_up_moved)
qed

section \<open>Strings in memory\<close>

primrec str_at :: "memory \<Rightarrow> nat \<Rightarrow> byte list \<Rightarrow> bool" where
  "str_at m p [] \<longleftrightarrow> m p = 0"
| "str_at m p (c # cs) \<longleftrightarrow> m p = c \<and> c \<noteq> 0 \<and> str_at m (p + 1) cs"

lemma str_at_cong: "(\<And>a. p \<le> a \<Longrightarrow> a \<le> p + length cs \<Longrightarrow> m' a = m a) \<Longrightarrow> str_at m' p cs = str_at m p cs"
  by (induction cs arbitrary: p) auto

lemma strlen_str_at: "str_at m p cs \<Longrightarrow> strlen p m = Some (length cs)"
  by (induction cs arbitrary: p) (subst strlen.simps, simp)+

lemma strcpy_str_at:
  assumes "str_at m t cs" and "s + length cs < t \<or> t + length cs < s"
  shows "\<exists>m'. strcpy s t m = Some m' \<and> str_at m' s cs \<and> (\<forall>a. a < s \<or> s + length cs < a \<longrightarrow> m' a = m a)"
  using assms
proof (induction cs arbitrary: s t m)
  case Nil
  then show ?case by (subst strcpy.simps) simp
next
  case (Cons c cs)
  have "str_at (m(s := c)) (t + 1) cs"
    using Cons.prems str_at_cong [of "t + 1" cs "m(s := c)" m] by auto
  moreover have "s + 1 + length cs < t + 1 \<or> t + 1 + length cs < s + 1" using Cons.prems(2) by auto
  ultimately obtain m' where m': "strcpy (s + 1) (t + 1) (m(s := c)) = Some m'" "str_at m' (s + 1) cs"
      "\<forall>a. a < s + 1 \<or> s + 1 + length cs < a \<longrightarrow> m' a = (m(s := c)) a"
    using Cons.IH by blast
  have "strcpy s t m = Some m'" using Cons.prems(1) m'(1) by (subst strcpy.simps) simp
  moreover have "m' s = c" using m'(3) by simp
  moreover have "\<forall>a. a < s \<or> s + length (c # cs) < a \<longrightarrow> m' a = m a" using m'(3) by auto
  ultimately show ?case using Cons.prems(1) m'(2) by (intro exI [of _ m']) simp
qed

lemma strcmp_str_at:
  assumes "str_at m p cs" and "str_at m q ds"
  shows "\<exists>r. strcmp p q m = Some r \<and> (r = 0 \<longleftrightarrow> cs = ds)"
  using assms
proof (induction cs arbitrary: p q ds)
  case Nil
  then show ?case by (subst strcmp.simps) (cases ds; auto simp: uint_0_iff)
next
  case (Cons c cs)
  show ?case
  proof (cases "m q = c")
    case True
    with Cons.prems obtain es where "ds = c # es" "str_at m (q + 1) es" by (cases ds) auto
    with Cons.IH [of "p + 1" "q + 1" es] Cons.prems True show ?thesis
      by (subst strcmp.simps) auto
  next
    case False
    with Cons.prems have "ds \<noteq> c # cs" by auto
    with Cons.prems False show ?thesis by (subst strcmp.simps) (auto simp: word_uint_eq_iff)
  qed
qed

lemma strchr_str_at:
  assumes "str_at m p cs" and "c \<noteq> 0"
  shows "strchr p c m = Some (if c \<in> set cs then Some (p + length (takeWhile (\<lambda>d. d \<noteq> c) cs)) else None)"
  using assms by (induction cs arbitrary: p) (subst strchr.simps, force)+

text \<open>
  C35. On NUL-terminated strings the loops of the user library end: \<open>strlen\<close> counts the bytes,
  \<open>strcpy\<close> to a disjoint place makes a copy and touches nothing else, \<open>strcmp\<close> is zero exactly for
  equal strings, and \<open>strchr\<close> finds the first occurrence.
\<close>

theorem string_loops_return:
  assumes "str_at m p cs" and "str_at m q ds" and "d + length cs < p \<or> p + length cs < d" and "c \<noteq> 0"
  shows "strlen p m = Some (length cs) \<and>
    (\<exists>m'. strcpy d p m = Some m' \<and> str_at m' d cs \<and> (\<forall>a. a < d \<or> d + length cs < a \<longrightarrow> m' a = m a)) \<and>
    (\<exists>r. strcmp p q m = Some r \<and> (r = 0 \<longleftrightarrow> cs = ds)) \<and>
    strchr p c m = Some (if c \<in> set cs then Some (p + length (takeWhile (\<lambda>d. d \<noteq> c) cs)) else None)"
  using strlen_str_at [OF assms(1)] strcpy_str_at [OF assms(1,3)] strcmp_str_at [OF assms(1,2)]
    strchr_str_at [OF assms(1,4)] by (intro conjI)

text \<open>The memory \<open>"ab"\<close>, NUL from address 8, and zeroes elsewhere.\<close>

definition ab_mem :: memory where
  "ab_mem a = (if a = 8 then 97 else if a = 9 then 98 else 0)"

theorem string_loops_return_witness:
  "strlen 8 ab_mem = Some 2 \<and> strchr 8 98 ab_mem = Some (Some 9) \<and> (\<exists>r. strcmp 8 9 ab_mem = Some r \<and> r \<noteq> 0)"
proof -
  have "str_at ab_mem 8 [97, 98]" "str_at ab_mem 9 [98]" by (simp_all add: ab_mem_def)
  from string_loops_return [OF this, of 20 98] show ?thesis by simp
qed

section \<open>Bounded copies\<close>

lemma strncpy_outside:
  "a < s \<or> s + n \<le> a \<Longrightarrow> strncpy_loop s t n m a = m a"
  by (induction n arbitrary: s t m) (auto simp: Let_def fill_at)

lemma safestrcpy_loop_bound:
  assumes "safestrcpy_loop s t k m = (e, m')"
  shows "s \<le> e \<and> e \<le> s + k \<and> (\<forall>a. a < s \<or> e \<le> a \<longrightarrow> m' a = m a)"
  using assms
proof (induction k arbitrary: s t m)
  case (Suc k)
  show ?case
  proof (cases "m t = 0")
    case True
    then show ?thesis using Suc.prems by (auto simp: Let_def)
  next
    case False
    then have "safestrcpy_loop (s + 1) (t + 1) k (m(s := m t)) = (e, m')" using Suc.prems by (simp add: Let_def)
    from Suc.IH [OF this] show ?thesis by auto
  qed
qed simp

lemma safestrcpy_loop_copies:
  assumes "str_at m t cs" and "s + k < t \<or> t + length cs < s" and "safestrcpy_loop s t k m = (e, m')"
  shows "str_at (m'(e := 0)) s (take k cs)"
  using assms
proof (induction k arbitrary: s t m cs)
  case 0
  then show ?case by simp
next
  case (Suc k)
  show ?case
  proof (cases cs)
    case Nil
    then show ?thesis using Suc.prems by (auto simp: Let_def)
  next
    case (Cons c ds)
    then have c: "m t = c" "c \<noteq> 0" "str_at m (t + 1) ds" using Suc.prems(1) by simp_all
    then have l: "safestrcpy_loop (s + 1) (t + 1) k (m(s := c)) = (e, m')" using Suc.prems(3) by (simp add: Let_def)
    have "str_at (m(s := c)) (t + 1) ds"
      using c(3) Suc.prems(2) str_at_cong [of "t + 1" ds "m(s := c)" m] Cons by auto
    moreover have "s + 1 + k < t + 1 \<or> t + 1 + length ds < s + 1" using Suc.prems(2) Cons by auto
    ultimately have "str_at (m'(e := 0)) (s + 1) (take k ds)" using l by (rule Suc.IH)
    moreover have "(m'(e := 0)) s = c" using safestrcpy_loop_bound [OF l] by auto
    ultimately show ?thesis using Cons c by (simp add: fun_upd_def)
  qed
qed

text \<open>
  C36. \<open>safestrcpy\<close> and \<open>strncpy\<close> write only inside the \<open>n\<close> bytes they are given, for any
  contents of memory; \<open>safestrcpy\<close> leaves a NUL among them, and from a terminated source elsewhere
  in memory it leaves its longest prefix that fits.
\<close>

theorem safestrcpy_in_bounds:
  assumes "0 < n"
  shows "(\<forall>a. a < s \<or> s + nat n \<le> a \<longrightarrow> safestrcpy s t n m a = m a \<and> strncpy s t n m a = m a) \<and>
    (\<exists>k < nat n. safestrcpy s t n m (s + k) = 0) \<and>
    (\<forall>cs. str_at m t cs \<and> (s + nat n \<le> t \<or> t + length cs < s) \<longrightarrow>
       str_at (safestrcpy s t n m) s (take (nat n - 1) cs))"
proof -
  obtain e m' where l: "safestrcpy_loop s t (nat (n - 1)) m = (e, m')" by fastforce
  have r: "safestrcpy s t n m = m'(e := 0)" using assms l by (simp add: safestrcpy_def)
  have b: "s \<le> e \<and> e \<le> s + nat (n - 1) \<and> (\<forall>a. a < s \<or> e \<le> a \<longrightarrow> m' a = m a)"
    using safestrcpy_loop_bound [OF l] .
  have n: "s + nat (n - 1) < s + nat n" "nat (n - 1) = nat n - 1" using assms by auto
  have "\<exists>k < nat n. safestrcpy s t n m (s + k) = 0"
    using b n(1) by (intro exI [of _ "e - s"]) (auto simp: r)
  moreover have "str_at (safestrcpy s t n m) s (take (nat n - 1) cs)"
    if "str_at m t cs" "s + nat n \<le> t \<or> t + length cs < s" for cs
    using safestrcpy_loop_copies [OF that(1) _ l] that(2) n by (auto simp: r)
  ultimately show ?thesis using b n(1) strncpy_outside by (auto simp: r strncpy_def)
qed

theorem safestrcpy_in_bounds_witness: "str_at (safestrcpy 20 8 2 ab_mem) 20 [97]"
proof -
  have "str_at ab_mem 8 [97, 98]" by (simp add: ab_mem_def)
  with safestrcpy_in_bounds [of 2 20 8 ab_mem] show ?thesis by fastforce
qed

end
