(* ===== verification/Kernel_Kalloc.thy ===== *)
theory Kernel_Kalloc
  imports C_Memory
begin

text \<open>
  The page allocator of \<^verbatim>\<open>xv6/kernel/kalloc.c\<close>: a list of free pages threaded through the
  pages themselves, in byte-addressed memory. \<open>kend\<close> is the linker's symbol \<open>end\<close>. The spin lock
  makes each call atomic.
\<close>

section \<open>Pointers in memory\<close>

primrec store :: "nat \<Rightarrow> nat \<Rightarrow> nat \<Rightarrow> memory \<Rightarrow> memory" where
  "store 0 p v m = m"
| "store (Suc k) p v m = store k (p + 1) (v div 256) (m(p := of_nat v))"

primrec load :: "nat \<Rightarrow> nat \<Rightarrow> memory \<Rightarrow> nat" where
  "load 0 p m = 0"
| "load (Suc k) p m = unat (m p) + 256 * load k (p + 1) m"

abbreviation store64 :: "nat \<Rightarrow> nat \<Rightarrow> memory \<Rightarrow> memory" where "store64 \<equiv> store 8"
abbreviation load64 :: "nat \<Rightarrow> memory \<Rightarrow> nat" where "load64 \<equiv> load 8"

lemma store_outside: "a < p \<or> p + k \<le> a \<Longrightarrow> store k p v m a = m a"
  by (induction k arbitrary: p v m) auto

lemma load_cong: "(\<And>a. p \<le> a \<Longrightarrow> a < p + k \<Longrightarrow> m' a = m a) \<Longrightarrow> load k p m' = load k p m"
proof (induction k arbitrary: p)
  case (Suc k)
  have "load k (p + 1) m' = load k (p + 1) m" by (rule Suc.IH) (use Suc.prems in auto)
  moreover have "m' p = m p" using Suc.prems [of p] by simp
  ultimately show ?case by simp
qed simp

lemma load_store: "v < 256 ^ k \<Longrightarrow> load k p (store k p v m) = v"
proof (induction k arbitrary: p v m)
  case (Suc k)
  have "v div 256 < 256 ^ k" using Suc.prems by (simp add: div_less_iff_less_mult mult.commute)
  moreover have "store k (p + 1) (v div 256) (m(p := of_nat v)) p = of_nat v"
    by (simp add: store_outside)
  ultimately show ?case using Suc.IH by (simp add: unat_of_nat take_bit_eq_mod)
qed simp

section \<open>The allocator\<close>

definition PGSIZE :: nat where "PGSIZE = 4096"
definition KERNBASE :: nat where "KERNBASE = 0x80000000"
definition PHYSTOP :: nat where "PHYSTOP = KERNBASE + 128 * 1024 * 1024"

definition PGROUNDUP :: "nat \<Rightarrow> nat" where
  "PGROUNDUP sz = (sz + PGSIZE - 1) div PGSIZE * PGSIZE"

definition PGROUNDDOWN :: "nat \<Rightarrow> nat" where
  "PGROUNDDOWN a = a div PGSIZE * PGSIZE"

text \<open>\<open>freelist\<close> 0 is the null pointer.\<close>

record kmem =
  kmem_mem :: memory
  freelist :: nat

definition kfree :: "nat \<Rightarrow> nat \<Rightarrow> kmem \<Rightarrow> kerr + kmem" where
  "kfree kend pa s =
     (if pa mod PGSIZE \<noteq> 0 \<or> pa < kend \<or> pa \<ge> PHYSTOP then Inl (Panic ''kfree'')
      else Inr \<lparr>kmem_mem = store64 pa (freelist s) (memset pa 1 PGSIZE (kmem_mem s)), freelist = pa\<rparr>)"

definition kalloc :: "kmem \<Rightarrow> nat \<times> kmem" where
  "kalloc s =
     (let r = freelist s in
      if r \<noteq> 0
      then (r, \<lparr>kmem_mem = memset r 5 PGSIZE (kmem_mem s), freelist = load64 r (kmem_mem s)\<rparr>)
      else (r, s))"

function free_from :: "nat \<Rightarrow> nat \<Rightarrow> nat \<Rightarrow> kmem \<Rightarrow> kerr + kmem" where
  "free_from kend p pa_end s =
     (if p + PGSIZE \<le> pa_end then andthen (kfree kend p s) (free_from kend (p + PGSIZE) pa_end) else Inr s)"
  by pat_completeness auto
termination by (relation "measure (\<lambda>(kend, p, pa_end, s). pa_end - p)") (auto simp: PGSIZE_def)

declare free_from.simps [simp del]

definition freerange :: "nat \<Rightarrow> nat \<Rightarrow> nat \<Rightarrow> kmem \<Rightarrow> kerr + kmem" where
  "freerange kend pa_start pa_end s = free_from kend (PGROUNDUP pa_start) pa_end s"

text \<open>\<open>kinit\<close>, from zeroed data and whatever memory holds.\<close>

definition kmem_init :: "nat \<Rightarrow> memory \<Rightarrow> kerr + kmem" where
  "kmem_init kend m = freerange kend kend PHYSTOP \<lparr>kmem_mem = m, freelist = 0\<rparr>"

section \<open>The free list\<close>

definition is_page :: "nat \<Rightarrow> nat \<Rightarrow> bool" where
  "is_page kend p \<longleftrightarrow> p mod PGSIZE = 0 \<and> kend \<le> p \<and> p < PHYSTOP"

primrec linked :: "memory \<Rightarrow> nat \<Rightarrow> nat list \<Rightarrow> bool" where
  "linked m p [] \<longleftrightarrow> p = 0"
| "linked m p (q # qs) \<longleftrightarrow> p = q \<and> p \<noteq> 0 \<and> linked m (load64 p m) qs"

lemma linked_cong:
  "(\<And>q a. q \<in> set ps \<Longrightarrow> q \<le> a \<Longrightarrow> a < q + 8 \<Longrightarrow> m' a = m a) \<Longrightarrow> linked m' p ps = linked m p ps"
proof (induction ps arbitrary: p)
  case (Cons q qs)
  have "load64 q m' = load64 q m" by (rule load_cong) (use Cons.prems in auto)
  moreover have "linked m' r qs = linked m r qs" for r by (rule Cons.IH) (use Cons.prems in auto)
  ultimately show ?case by (cases "p = q") (simp_all only: linked.simps, simp_all)
qed simp

text \<open>Pages do not overlap.\<close>

lemma pages_apart:
  assumes "p mod PGSIZE = 0" and "q mod PGSIZE = 0" and "p \<noteq> q" and "p \<le> a" and "a < p + PGSIZE"
  shows "a < q \<or> q + PGSIZE \<le> a"
proof -
  obtain i j where ij: "p = PGSIZE * i" "q = PGSIZE * j" using assms(1,2) by (auto simp: mod_eq_0_iff_dvd elim!: dvdE)
  then have "i < j \<or> j < i" using assms(3) by auto
  then have "PGSIZE * (i + 1) \<le> PGSIZE * j \<or> PGSIZE * (j + 1) \<le> PGSIZE * i"
    by (auto simp: PGSIZE_def)
  then show ?thesis using assms(4,5) ij by auto
qed

lemma memset_at: "memset p c n m a = (if p \<le> a \<and> a < p + n then word_of_int c else m a)"
  by (simp add: memset_def fill_at)

text \<open>The free pages as a list, none of them handed out.\<close>

definition free_ok :: "nat \<Rightarrow> kmem \<Rightarrow> nat list \<Rightarrow> bool" where
  "free_ok kend s ps \<longleftrightarrow> linked (kmem_mem s) (freelist s) ps \<and> distinct ps \<and> (\<forall>p\<in>set ps. is_page kend p)"

lemma kfree_ok:
  assumes "free_ok kend s ps" and "is_page kend p" and "p \<notin> set ps" and "0 < kend"
  shows "\<exists>t. kfree kend p s = Inr t \<and> free_ok kend t (p # ps)"
proof -
  let ?m = "store64 p (freelist s) (memset p 1 PGSIZE (kmem_mem s))"
  have f: "freelist s < 256 ^ 8"
    using assms(1) by (cases ps) (auto simp: free_ok_def is_page_def PHYSTOP_def KERNBASE_def)
  have same: "?m a = kmem_mem s a" if "q \<in> set ps" "q \<le> a" "a < q + 8" for q a
  proof -
    have "q mod PGSIZE = 0" "p mod PGSIZE = 0" "q \<noteq> p" using assms that(1) by (auto simp: free_ok_def is_page_def)
    then have "a < p \<or> p + PGSIZE \<le> a" using pages_apart [of q p a] that by (simp add: PGSIZE_def)
    then show ?thesis by (auto simp: store_outside memset_at PGSIZE_def)
  qed
  have "linked ?m (load64 p ?m) ps"
    using linked_cong [of ps ?m "kmem_mem s", OF same] load_store [OF f] assms(1) by (simp add: free_ok_def)
  moreover have "p \<noteq> 0" using assms(2,4) by (auto simp: is_page_def)
  ultimately show ?thesis using assms by (auto simp: kfree_def is_page_def free_ok_def)
qed

lemma kalloc_ok:
  assumes "free_ok kend s ps"
  shows "case ps of
      [] \<Rightarrow> kalloc s = (0, s)
    | p # qs \<Rightarrow> fst (kalloc s) = p \<and> p \<noteq> 0 \<and> is_page kend p \<and> free_ok kend (snd (kalloc s)) qs"
proof (cases ps)
  case (Cons p qs)
  let ?m = "memset p 5 PGSIZE (kmem_mem s)"
  have p: "freelist s = p" "p \<noteq> 0" "linked (kmem_mem s) (load64 p (kmem_mem s)) qs"
    using assms Cons by (auto simp: free_ok_def)
  have "?m a = kmem_mem s a" if "q \<in> set qs" "q \<le> a" "a < q + 8" for q a
  proof -
    have "q mod PGSIZE = 0" "p mod PGSIZE = 0" "q \<noteq> p"
      using assms that(1) Cons by (auto simp: free_ok_def is_page_def)
    then have "a < p \<or> p + PGSIZE \<le> a" using pages_apart [of q p a] that by (simp add: PGSIZE_def)
    then show ?thesis by (auto simp: memset_at)
  qed
  from linked_cong [of qs ?m, OF this] p assms Cons show ?thesis
    by (auto simp: kalloc_def Let_def free_ok_def)
qed (use assms in \<open>simp add: free_ok_def kalloc_def\<close>)

lemma free_from_ok:
  assumes "free_ok kend s ps" and "p mod PGSIZE = 0" and "kend \<le> p" and "0 < kend" and "\<forall>q\<in>set ps. q < p"
    and "pa_end \<le> PHYSTOP"
  shows "\<exists>t qs. free_from kend p pa_end s = Inr t \<and> free_ok kend t qs \<and>
    set qs = set ps \<union> {q. q mod PGSIZE = 0 \<and> p \<le> q \<and> q + PGSIZE \<le> pa_end}"
  using assms
proof (induction kend p pa_end s arbitrary: ps rule: free_from.induct)
  case (1 kend p pa_end s)
  show ?case
  proof (cases "p + PGSIZE \<le> pa_end")
    case True
    have pg: "is_page kend p" using 1(3,4,7) True by (auto simp: is_page_def PGSIZE_def)
    obtain t where t: "kfree kend p s = Inr t" "free_ok kend t (p # ps)"
      using kfree_ok [OF 1(2) pg _ 1(5)] 1(6) by blast
    have a: "(p + PGSIZE) mod PGSIZE = 0" using 1(3) by simp
    have b: "kend \<le> p + PGSIZE" using 1(4) by simp
    have c: "\<forall>q\<in>set (p # ps). q < p + PGSIZE" using 1(6) by (auto simp: PGSIZE_def)
    obtain u qs where u: "free_from kend (p + PGSIZE) pa_end t = Inr u" "free_ok kend u qs"
        "set qs = set (p # ps) \<union> {q. q mod PGSIZE = 0 \<and> p + PGSIZE \<le> q \<and> q + PGSIZE \<le> pa_end}"
      using 1(1) [OF True t(2) a b 1(5) c 1(7)] by (elim exE conjE)
    have step: "q = p \<or> p + PGSIZE \<le> q" if "q mod PGSIZE = 0" "p \<le> q" for q
      using pages_apart [OF 1(3) that(1), of q] that(2) by (cases "q < p + PGSIZE") (auto simp: PGSIZE_def)
    have "set qs = set ps \<union> {q. q mod PGSIZE = 0 \<and> p \<le> q \<and> q + PGSIZE \<le> pa_end}"
    proof -
      have "q mod PGSIZE = 0 \<and> p \<le> q \<and> q + PGSIZE \<le> pa_end \<longleftrightarrow>
          q = p \<or> q mod PGSIZE = 0 \<and> p + PGSIZE \<le> q \<and> q + PGSIZE \<le> pa_end" for q
        using step [of q] True 1(3) by (cases "q = p"; cases "p + PGSIZE \<le> q") auto
      then show ?thesis using u(3) by (simp only:) auto
    qed
    moreover have "free_from kend p pa_end s = Inr u"
      using True t(1) u(1) by (subst free_from.simps) simp
    ultimately show ?thesis using u(2) by blast
  next
    case False
    then show ?thesis using 1(2) by (subst free_from.simps) auto
  qed
qed

section \<open>Every page has one owner\<close>

text \<open>All pages of memory, and a run of the allocator with the pages its clients hold.\<close>

definition all_pages :: "nat \<Rightarrow> nat set" where
  "all_pages kend = {q. q mod PGSIZE = 0 \<and> PGROUNDUP kend \<le> q \<and> q + PGSIZE \<le> PHYSTOP}"

definition mem_init :: "nat \<Rightarrow> kmem \<times> nat set \<Rightarrow> bool" where
  "mem_init kend s \<longleftrightarrow> (\<exists>m. kmem_init kend m = Inr (fst s)) \<and> snd s = {}"

text \<open>Clients free only what they hold, and write only to it.\<close>

inductive mem_step :: "nat \<Rightarrow> kmem \<times> nat set \<Rightarrow> kmem \<times> nat set \<Rightarrow> bool" for kend where
  alloc: "kalloc s = (r, t) \<Longrightarrow> mem_step kend (s, A) (t, if r \<noteq> 0 then insert r A else A)"
| release: "p \<in> A \<Longrightarrow> kfree kend p s = Inr t \<Longrightarrow> mem_step kend (s, A) (t, A - {p})"
| use: "\<forall>a. (\<forall>p\<in>A. \<not> (p \<le> a \<and> a < p + PGSIZE)) \<longrightarrow> m a = kmem_mem s a \<Longrightarrow>
    mem_step kend (s, A) (s\<lparr>kmem_mem := m\<rparr>, A)"

definition mem_inv :: "nat \<Rightarrow> kmem \<times> nat set \<Rightarrow> bool" where
  "mem_inv kend s \<longleftrightarrow> (\<exists>ps. free_ok kend (fst s) ps \<and> set ps \<inter> snd s = {} \<and> set ps \<union> snd s = all_pages kend)"

lemma all_pages_is_page:
  assumes "p \<in> all_pages kend"
  shows "is_page kend p"
proof -
  have "kend \<le> PGROUNDUP kend" by (simp add: PGROUNDUP_def PGSIZE_def)
  with assms show ?thesis by (auto simp: all_pages_def is_page_def PGSIZE_def)
qed

interpretation pages: safety "mem_init kend" "mem_step kend" "\<lambda>s. 0 < kend \<longrightarrow> mem_inv kend s" for kend
proof
  fix s t
  show "mem_init kend s \<Longrightarrow> 0 < kend \<longrightarrow> mem_inv kend s"
  proof
    assume "mem_init kend s" and k: "0 < kend"
    then obtain m where m: "free_from kend (PGROUNDUP kend) PHYSTOP \<lparr>kmem_mem = m, freelist = 0\<rparr> = Inr (fst s)"
        "snd s = {}"
      by (auto simp: mem_init_def kmem_init_def freerange_def)
    have "PGROUNDUP kend mod PGSIZE = 0" by (simp add: PGROUNDUP_def)
    moreover have "kend \<le> PGROUNDUP kend"
      by (simp add: PGROUNDUP_def PGSIZE_def)
    ultimately obtain t qs where "free_from kend (PGROUNDUP kend) PHYSTOP \<lparr>kmem_mem = m, freelist = 0\<rparr> = Inr t"
        "free_ok kend t qs" "set qs = {} \<union> {q. q mod PGSIZE = 0 \<and> PGROUNDUP kend \<le> q \<and> q + PGSIZE \<le> PHYSTOP}"
      using free_from_ok [of kend "\<lparr>kmem_mem = m, freelist = 0\<rparr>" "[]" "PGROUNDUP kend" PHYSTOP] k
      by (auto simp: free_ok_def)
    then show "mem_inv kend s" using m by (auto simp: mem_inv_def all_pages_def)
  qed
  assume inv: "0 < kend \<longrightarrow> mem_inv kend s" and "mem_step kend s t"
  from this(2) show "0 < kend \<longrightarrow> mem_inv kend t"
  proof (cases rule: mem_step.cases)
    case (alloc s' r t' A)
    show ?thesis
    proof
      assume "0 < kend"
      then obtain ps where ps: "free_ok kend s' ps" "set ps \<inter> A = {}" "set ps \<union> A = all_pages kend"
        using inv alloc(1) by (auto simp: mem_inv_def)
      show "mem_inv kend t"
      proof (cases ps)
        case Nil
        then show ?thesis using kalloc_ok [OF ps(1)] ps alloc by (auto simp: mem_inv_def)
      next
        case (Cons p qs)
        then have "r = p" "p \<noteq> 0" "free_ok kend t' qs" using kalloc_ok [OF ps(1)] alloc by auto
        moreover have "p \<notin> set qs" using ps(1) Cons by (simp add: free_ok_def)
        ultimately show ?thesis using ps Cons alloc by (auto simp: mem_inv_def intro!: exI [of _ qs])
      qed
    qed
  next
    case (release p A s' t')
    show ?thesis
    proof
      assume k: "0 < kend"
      then obtain ps where ps: "free_ok kend s' ps" "set ps \<inter> A = {}" "set ps \<union> A = all_pages kend"
        using inv release(1) by (auto simp: mem_inv_def)
      have pg: "is_page kend p" using ps(3) release(3) by (auto intro: all_pages_is_page)
      have "p \<notin> set ps" using ps(2) release(3) by auto
      from kfree_ok [OF ps(1) pg this k] release(4) have "free_ok kend t' (p # ps)" by simp
      then show "mem_inv kend t" using ps release by (auto simp: mem_inv_def intro!: exI [of _ "p # ps"])
    qed
  next
    case (use A m s')
    show ?thesis
    proof
      assume "0 < kend"
      then obtain ps where ps: "free_ok kend s' ps" "set ps \<inter> A = {}" "set ps \<union> A = all_pages kend"
        using inv use(1) by (auto simp: mem_inv_def)
      have "m a = kmem_mem s' a" if q: "q \<in> set ps" "q \<le> a" "a < q + 8" for q a
      proof -
        have "\<not> (p \<le> a \<and> a < p + PGSIZE)" if p: "p \<in> A" for p
        proof -
          have "is_page kend p" "is_page kend q" "q \<noteq> p" using ps q(1) p by (auto intro: all_pages_is_page)
          then show ?thesis using pages_apart [of q p a] q by (auto simp: is_page_def PGSIZE_def)
        qed
        then show ?thesis using use(3) by blast
      qed
      from linked_cong [of ps m "kmem_mem s'", OF this] have "free_ok kend (s'\<lparr>kmem_mem := m\<rparr>) ps"
        using ps(1) by (simp add: free_ok_def)
      then show "mem_inv kend t" using ps use by (auto simp: mem_inv_def)
    qed
  qed
qed

text \<open>
  C8. In every run from boot in which clients free and write only pages they hold, \<open>kalloc\<close> returns an
  aligned page of physical memory that nobody holds, or 0 exactly when all pages are
  handed out, and \<open>kfree\<close> of a held page does not panic.
\<close>

theorem kalloc_gives_free_page:
  assumes "reachable (mem_init kend) (mem_step kend) (s, A)" and "0 < kend"
  shows "(if A = all_pages kend then fst (kalloc s) = 0 else is_page kend (fst (kalloc s)) \<and> fst (kalloc s) \<notin> A) \<and>
    (\<forall>p\<in>A. \<exists>t. kfree kend p s = Inr t)"
proof -
  obtain ps where ps: "free_ok kend s ps" "set ps \<inter> A = {}" "set ps \<union> A = all_pages kend"
    using pages.reachable_inv [OF assms(1)] assms(2) by (auto simp: mem_inv_def)
  have "if A = all_pages kend then fst (kalloc s) = 0 else is_page kend (fst (kalloc s)) \<and> fst (kalloc s) \<notin> A"
  proof (cases ps)
    case Nil
    then show ?thesis using kalloc_ok [OF ps(1)] ps(3) by simp
  next
    case (Cons p qs)
    then have "p \<notin> A" "p \<in> all_pages kend" using ps by auto
    then show ?thesis using kalloc_ok [OF ps(1)] Cons by auto
  qed
  moreover have "\<exists>t. kfree kend p s = Inr t" if "p \<in> A" for p
  proof -
    have "p \<in> all_pages kend" using ps(3) that by blast
    then have "is_page kend p" by (rule all_pages_is_page)
    then show ?thesis by (simp add: kfree_def is_page_def)
  qed
  ultimately show ?thesis by blast
qed

theorem kalloc_gives_free_page_witness:
  "\<exists>s. kmem_init (PHYSTOP - 5000) (\<lambda>_. 0) = Inr s \<and> is_page (PHYSTOP - 5000) (fst (kalloc s))"
proof -
  have up: "PGROUNDUP (PHYSTOP - 5000) = PHYSTOP - 4096" by (simp add: PGROUNDUP_def PHYSTOP_def KERNBASE_def PGSIZE_def)
  have "\<exists>s. kmem_init (PHYSTOP - 5000) (\<lambda>_. 0) = Inr s"
    by (simp add: kmem_init_def freerange_def up)
      (simp add: free_from.simps kfree_def PHYSTOP_def KERNBASE_def PGSIZE_def)
  then obtain s where s: "kmem_init (PHYSTOP - 5000) (\<lambda>_. 0) = Inr s" by blast
  then have r: "reachable (mem_init (PHYSTOP - 5000)) (mem_step (PHYSTOP - 5000)) (s, {})"
    by (intro reachable.start) (auto simp: mem_init_def)
  have "PHYSTOP - 4096 \<in> all_pages (PHYSTOP - 5000)"
    by (simp add: all_pages_def up) (simp add: PHYSTOP_def KERNBASE_def PGSIZE_def)
  then have "{} \<noteq> all_pages (PHYSTOP - 5000)" by blast
  moreover have "0 < PHYSTOP - 5000" by (simp add: PHYSTOP_def KERNBASE_def)
  ultimately show ?thesis using kalloc_gives_free_page [OF r] s by auto
qed

end
