(* ===== verification/Kernel_Vm.thy ===== *)
theory Kernel_Vm
  imports Kernel_Kalloc
begin

unbundle bit_operations_syntax

text \<open>
  Page tables and user memory, \<^verbatim>\<open>xv6/kernel/vm.c\<close>, with the macros of \<^verbatim>\<open>riscv.h\<close>. Page tables lie in
  the byte memory of the page allocator. Addresses and page table entries are 64-bit values;
  sums that may wrap are taken modulo \<open>2 ^ 64\<close>. A null pointer is 0.
\<close>

section \<open>Page table entries\<close>

definition PTE_V :: nat where "PTE_V = 1"
definition PTE_R :: nat where "PTE_R = 2"
definition PTE_W :: nat where "PTE_W = 4"
definition PTE_X :: nat where "PTE_X = 8"
definition PTE_U :: nat where "PTE_U = 16"

definition PA2PTE :: "nat \<Rightarrow> nat" where
  "PA2PTE pa = pa div 2 ^ 12 * 2 ^ 10"

definition PTE2PA :: "nat \<Rightarrow> nat" where
  "PTE2PA pte = pte div 2 ^ 10 * 2 ^ 12 mod 2 ^ 64"

definition PTE_FLAGS :: "nat \<Rightarrow> nat" where
  "PTE_FLAGS pte = pte mod 2 ^ 10"

definition PX :: "nat \<Rightarrow> nat \<Rightarrow> nat" where
  "PX level va = va div 2 ^ (12 + 9 * level) mod 2 ^ 9"

definition MAXVA :: nat where
  "MAXVA = 2 ^ 38"

definition has_bits :: "nat \<Rightarrow> nat \<Rightarrow> bool" where
  "has_bits pte b \<longleftrightarrow> pte AND b \<noteq> 0"

abbreviation pte_at :: "nat \<Rightarrow> kmem \<Rightarrow> nat" where
  "pte_at p s \<equiv> load64 p (kmem_mem s)"

definition set_pte :: "nat \<Rightarrow> nat \<Rightarrow> kmem \<Rightarrow> kmem" where
  "set_pte p v s = s\<lparr>kmem_mem := store64 p v (kmem_mem s)\<rparr>"

definition zero_page :: "nat \<Rightarrow> kmem \<Rightarrow> kmem" where
  "zero_page p s = s\<lparr>kmem_mem := memset p 0 PGSIZE (kmem_mem s)\<rparr>"

section \<open>Walking\<close>

text \<open>The loop of \<open>walk\<close> from a table of the given level; the address of the entry.\<close>

fun walk_from :: "nat \<Rightarrow> nat \<Rightarrow> nat \<Rightarrow> bool \<Rightarrow> kmem \<Rightarrow> nat \<times> kmem" where
  "walk_from 0 pagetable va alloc s = (pagetable + 8 * PX 0 va, s)"
| "walk_from (Suc level) pagetable va alloc s =
     (let pte = pagetable + 8 * PX (Suc level) va in
      if has_bits (pte_at pte s) PTE_V then walk_from level (PTE2PA (pte_at pte s)) va alloc s
      else if \<not> alloc then (0, s)
      else
        let (p, s1) = kalloc s in
        if p = 0 then (0, s1)
        else walk_from level p va alloc (set_pte pte (PA2PTE p OR PTE_V) (zero_page p s1)))"

definition walk :: "nat \<Rightarrow> nat \<Rightarrow> bool \<Rightarrow> kmem \<Rightarrow> kerr + nat \<times> kmem" where
  "walk pagetable va alloc s =
     (if va \<ge> MAXVA then Inl (Panic ''walk'') else Inr (walk_from 2 pagetable va alloc s))"

definition walkaddr :: "nat \<Rightarrow> nat \<Rightarrow> kmem \<Rightarrow> nat" where
  "walkaddr pagetable va s =
     (if va \<ge> MAXVA then 0
      else
        let (pte, s1) = walk_from 2 pagetable va False s in
        if pte = 0 then 0
        else if \<not> has_bits (pte_at pte s) PTE_V then 0
        else if \<not> has_bits (pte_at pte s) PTE_U then 0
        else PTE2PA (pte_at pte s))"

definition ismapped :: "nat \<Rightarrow> nat \<Rightarrow> kmem \<Rightarrow> kerr + bool" where
  "ismapped pagetable va s =
     andthen (walk pagetable va False s) (\<lambda>(pte, s1). Inr (pte \<noteq> 0 \<and> has_bits (pte_at pte s) PTE_V))"

section \<open>Mapping\<close>

text \<open>
  The loop of \<open>mappages\<close> with \<open>n\<close> pages to go: \<open>a = last\<close> for the last of \<open>size / PGSIZE\<close> pages, as \<open>a\<close>
  and \<open>last\<close> wrap around alike.
\<close>

fun map_pages :: "nat \<Rightarrow> nat \<Rightarrow> nat \<Rightarrow> nat \<Rightarrow> nat \<Rightarrow> kmem \<Rightarrow> kerr + int \<times> kmem" where
  "map_pages 0 pagetable a pa perm s = Inr (0, s)"
| "map_pages (Suc n) pagetable a pa perm s =
     andthen (walk pagetable a True s) (\<lambda>(pte, s1).
       if pte = 0 then Inr (-1, s1)
       else if has_bits (pte_at pte s1) PTE_V then Inl (Panic ''mappages: remap'')
       else map_pages n pagetable ((a + PGSIZE) mod 2 ^ 64) ((pa + PGSIZE) mod 2 ^ 64) perm
              (set_pte pte ((PA2PTE pa OR perm) OR PTE_V) s1))"

definition mappages :: "nat \<Rightarrow> nat \<Rightarrow> nat \<Rightarrow> nat \<Rightarrow> nat \<Rightarrow> kmem \<Rightarrow> kerr + int \<times> kmem" where
  "mappages pagetable va sz pa perm s =
     (if va mod PGSIZE \<noteq> 0 then Inl (Panic ''mappages: va not aligned'')
      else if sz mod PGSIZE \<noteq> 0 then Inl (Panic ''mappages: size not aligned'')
      else if sz = 0 then Inl (Panic ''mappages: size'')
      else map_pages (sz div PGSIZE) pagetable va pa perm s)"

definition uvmcreate :: "kmem \<Rightarrow> nat \<times> kmem" where
  "uvmcreate s = (let (p, s1) = kalloc s in if p = 0 then (0, s1) else (p, zero_page p s1))"

text \<open>The loop of \<open>uvmunmap\<close>; \<open>walk\<close> panics before \<open>a\<close> can wrap around.\<close>

function unmap_from :: "nat \<Rightarrow> nat \<Rightarrow> nat \<Rightarrow> nat \<Rightarrow> bool \<Rightarrow> kmem \<Rightarrow> kerr + kmem" where
  "unmap_from kend pagetable a aend do_free s =
     (if a < aend then
        andthen (walk pagetable a False s) (\<lambda>(pte, s1).
          if pte = 0 \<or> \<not> has_bits (pte_at pte s1) PTE_V then unmap_from kend pagetable (a + PGSIZE) aend do_free s1
          else
            andthen (if do_free then kfree kend (PTE2PA (pte_at pte s1)) s1 else Inr s1) (\<lambda>s2.
              unmap_from kend pagetable (a + PGSIZE) aend do_free (set_pte pte 0 s2)))
      else Inr s)"
  by pat_completeness auto
termination
  by (relation "measure (\<lambda>(kend, pagetable, a, aend, do_free, s). aend - a)") (auto simp: PGSIZE_def)

declare unmap_from.simps [simp del]

definition uvmunmap :: "nat \<Rightarrow> nat \<Rightarrow> nat \<Rightarrow> nat \<Rightarrow> bool \<Rightarrow> kmem \<Rightarrow> kerr + kmem" where
  "uvmunmap kend pagetable va npages do_free s =
     (if va mod PGSIZE \<noteq> 0 then Inl (Panic ''uvmunmap: not aligned'')
      else unmap_from kend pagetable va ((va + npages * PGSIZE) mod 2 ^ 64) do_free s)"

definition uvmdealloc :: "nat \<Rightarrow> nat \<Rightarrow> nat \<Rightarrow> nat \<Rightarrow> kmem \<Rightarrow> kerr + nat \<times> kmem" where
  "uvmdealloc kend pagetable oldsz newsz s =
     (if newsz \<ge> oldsz then Inr (oldsz, s)
      else
        andthen
          (if PGROUNDUP newsz < PGROUNDUP oldsz
           then uvmunmap kend pagetable (PGROUNDUP newsz) ((PGROUNDUP oldsz - PGROUNDUP newsz) div PGSIZE) True s
           else Inr s)
          (\<lambda>s1. Inr (newsz, s1)))"

text \<open>The loop of \<open>uvmalloc\<close>, from \<open>a\<close>; \<open>oldsz\<close> is already rounded up.\<close>

function alloc_from :: "nat \<Rightarrow> nat \<Rightarrow> nat \<Rightarrow> nat \<Rightarrow> nat \<Rightarrow> nat \<Rightarrow> kmem \<Rightarrow> kerr + nat \<times> kmem" where
  "alloc_from kend pagetable oldsz newsz xperm a s =
     (if a < newsz then
        let (mem, s1) = kalloc s in
        if mem = 0 then andthen (uvmdealloc kend pagetable a oldsz s1) (\<lambda>(_, s2). Inr (0, s2))
        else
          andthen (mappages pagetable a PGSIZE mem ((PTE_R OR PTE_U) OR xperm) (zero_page mem s1)) (\<lambda>(r, s2).
            if r \<noteq> 0 then
              andthen (kfree kend mem s2) (\<lambda>s3.
              andthen (uvmdealloc kend pagetable a oldsz s3) (\<lambda>(_, s4). Inr (0, s4)))
            else alloc_from kend pagetable oldsz newsz xperm (a + PGSIZE) s2)
      else Inr (newsz, s))"
  by pat_completeness auto
termination
  by (relation "measure (\<lambda>(kend, pagetable, oldsz, newsz, xperm, a, s). newsz - a)") (auto simp: PGSIZE_def)

declare alloc_from.simps [simp del]

definition uvmalloc :: "nat \<Rightarrow> nat \<Rightarrow> nat \<Rightarrow> nat \<Rightarrow> nat \<Rightarrow> kmem \<Rightarrow> kerr + nat \<times> kmem" where
  "uvmalloc kend pagetable oldsz newsz xperm s =
     (if newsz < oldsz then Inr (oldsz, s)
      else alloc_from kend pagetable (PGROUNDUP oldsz) newsz xperm (PGROUNDUP oldsz) s)"

text \<open>
  \<open>freewalk\<close> recurses as deep as valid entries without permissions lead, which is three levels in a
  table built by \<open>walk\<close>; \<open>None\<close> when it goes deeper than \<open>depth\<close>. The second argument lists the
  indices still to visit.
\<close>

fun freewalk :: "nat \<Rightarrow> nat \<Rightarrow> nat \<Rightarrow> kmem \<Rightarrow> (kerr + kmem) option"
  and free_entries :: "nat \<Rightarrow> nat list \<Rightarrow> nat \<Rightarrow> nat \<Rightarrow> kmem \<Rightarrow> (kerr + kmem) option" where
  "freewalk depth kend pagetable s = free_entries depth [0..<512] kend pagetable s"
| "free_entries depth [] kend pagetable s = Some (kfree kend pagetable s)"
| "free_entries depth (i # is) kend pagetable s =
     (let pte = pte_at (pagetable + 8 * i) s in
      if has_bits pte PTE_V \<and> \<not> has_bits pte ((PTE_R OR PTE_W) OR PTE_X) then
        (case depth of
           0 \<Rightarrow> None
         | Suc d \<Rightarrow>
             (case freewalk d kend (PTE2PA pte) s of
                None \<Rightarrow> None
              | Some (Inl e) \<Rightarrow> Some (Inl e)
              | Some (Inr s1) \<Rightarrow> free_entries depth is kend pagetable (set_pte (pagetable + 8 * i) 0 s1)))
      else if has_bits pte PTE_V then Some (Inl (Panic ''freewalk: leaf''))
      else free_entries depth is kend pagetable s)"

definition uvmfree :: "nat \<Rightarrow> nat \<Rightarrow> nat \<Rightarrow> nat \<Rightarrow> kmem \<Rightarrow> (kerr + kmem) option" where
  "uvmfree depth kend pagetable sz s =
     (case (if sz > 0 then uvmunmap kend pagetable 0 (PGROUNDUP sz div PGSIZE) True s else Inr s) of
        Inl e \<Rightarrow> Some (Inl e)
      | Inr s1 \<Rightarrow> freewalk depth kend pagetable s1)"

text \<open>The loop of \<open>uvmcopy\<close>, from \<open>i\<close>.\<close>

function copy_from :: "nat \<Rightarrow> nat \<Rightarrow> nat \<Rightarrow> nat \<Rightarrow> nat \<Rightarrow> kmem \<Rightarrow> kerr + int \<times> kmem" where
  "copy_from kend old new sz i s =
     (if i < sz then
        andthen (walk old i False s) (\<lambda>(pte, s1).
          if pte = 0 \<or> \<not> has_bits (pte_at pte s1) PTE_V then copy_from kend old new sz (i + PGSIZE) s1
          else
            let pa = PTE2PA (pte_at pte s1); flags = PTE_FLAGS (pte_at pte s1); (mem, s2) = kalloc s1 in
            if mem = 0 then andthen (uvmunmap kend new 0 (i div PGSIZE) True s2) (\<lambda>s3. Inr (-1, s3))
            else
              andthen (mappages new i PGSIZE mem flags (s2\<lparr>kmem_mem := memmove mem pa PGSIZE (kmem_mem s2)\<rparr>)) (\<lambda>(r, s3).
                if r \<noteq> 0 then
                  andthen (kfree kend mem s3) (\<lambda>s4.
                  andthen (uvmunmap kend new 0 (i div PGSIZE) True s4) (\<lambda>s5. Inr (-1, s5)))
                else copy_from kend old new sz (i + PGSIZE) s3))
      else Inr (0, s))"
  by pat_completeness auto
termination
  by (relation "measure (\<lambda>(kend, old, new, sz, i, s). sz - i)") (auto simp: PGSIZE_def)

declare copy_from.simps [simp del]

definition uvmcopy :: "nat \<Rightarrow> nat \<Rightarrow> nat \<Rightarrow> nat \<Rightarrow> kmem \<Rightarrow> kerr + int \<times> kmem" where
  "uvmcopy kend old new sz s = copy_from kend old new sz 0 s"

definition uvmclear :: "nat \<Rightarrow> nat \<Rightarrow> kmem \<Rightarrow> kerr + kmem" where
  "uvmclear pagetable va s =
     andthen (walk pagetable va False s) (\<lambda>(pte, s1).
       if pte = 0 then Inl (Panic ''uvmclear'')
       else Inr (set_pte pte (pte_at pte s1 - (pte_at pte s1 AND PTE_U)) s1))"

section \<open>User memory\<close>

definition vmfault :: "nat \<Rightarrow> nat \<Rightarrow> nat \<Rightarrow> nat \<Rightarrow> kmem \<Rightarrow> kerr + nat \<times> kmem" where
  "vmfault kend pagetable psz va s =
     (if va \<ge> psz then Inr (0, s)
      else
        andthen (ismapped pagetable (PGROUNDDOWN va) s) (\<lambda>mapped.
          if mapped then Inr (0, s)
          else
            let (mem, s1) = kalloc s in
            if mem = 0 then Inr (0, s1)
            else
              andthen (mappages pagetable (PGROUNDDOWN va) PGSIZE mem ((PTE_W OR PTE_U) OR PTE_R) (zero_page mem s1))
                (\<lambda>(r, s2). if r \<noteq> 0 then andthen (kfree kend mem s2) (\<lambda>s3. Inr (0, s3)) else Inr (mem, s2))))"

text \<open>The physical address of a user page, brought in if need be.\<close>

definition user_page :: "nat \<Rightarrow> nat \<Rightarrow> nat \<Rightarrow> nat \<Rightarrow> kmem \<Rightarrow> kerr + nat \<times> kmem" where
  "user_page kend pagetable psz va0 s =
     (let pa0 = walkaddr pagetable va0 s in
      if pa0 = 0 then vmfault kend pagetable psz va0 s else Inr (pa0, s))"

lemma in_page: "a - PGROUNDDOWN a < PGSIZE"
  by (simp add: PGROUNDDOWN_def minus_div_mult_eq_mod PGSIZE_def)

function copyout :: "nat \<Rightarrow> nat \<Rightarrow> nat \<Rightarrow> nat \<Rightarrow> nat \<Rightarrow> nat \<Rightarrow> kmem \<Rightarrow> kerr + int \<times> kmem" where
  "copyout kend pagetable psz dstva src len s =
     (if len > 0 then
        let va0 = PGROUNDDOWN dstva in
        if va0 \<ge> MAXVA then Inr (-1, s)
        else
          andthen (user_page kend pagetable psz va0 s) (\<lambda>(pa0, s1).
            if pa0 = 0 then Inr (-1, s1)
            else
              andthen (walk pagetable va0 False s1) (\<lambda>(pte, s2).
                if \<not> has_bits (pte_at pte s2) PTE_W then Inr (-1, s2)
                else
                  let n = min (PGSIZE - (dstva - va0)) len in
                  copyout kend pagetable psz (va0 + PGSIZE) (src + n) (len - n)
                    (s2\<lparr>kmem_mem := memmove (pa0 + (dstva - va0)) src n (kmem_mem s2)\<rparr>)))
      else Inr (0, s))"
  by pat_completeness auto
termination
  by (relation "measure (\<lambda>(kend, pagetable, psz, dstva, src, len, s). len)")
    (use in_page in \<open>auto simp: less_diff_conv\<close>)

declare copyout.simps [simp del]

function copyin :: "nat \<Rightarrow> nat \<Rightarrow> nat \<Rightarrow> nat \<Rightarrow> nat \<Rightarrow> nat \<Rightarrow> kmem \<Rightarrow> kerr + int \<times> kmem" where
  "copyin kend pagetable psz dst srcva len s =
     (if len > 0 then
        let va0 = PGROUNDDOWN srcva in
        andthen (user_page kend pagetable psz va0 s) (\<lambda>(pa0, s1).
          if pa0 = 0 then Inr (-1, s1)
          else
            let n = min (PGSIZE - (srcva - va0)) len in
            copyin kend pagetable psz (dst + n) (va0 + PGSIZE) (len - n)
              (s1\<lparr>kmem_mem := memmove dst (pa0 + (srcva - va0)) n (kmem_mem s1)\<rparr>))
      else Inr (0, s))"
  by pat_completeness auto
termination
  by (relation "measure (\<lambda>(kend, pagetable, psz, dst, srcva, len, s). len)")
    (use in_page in \<open>auto simp: less_diff_conv\<close>)

declare copyin.simps [simp del]

text \<open>
  The inner loop of \<open>copyinstr\<close> over at most \<open>n\<close> bytes: whether the NUL was found, how many bytes were
  copied before it, and the memory.
\<close>

fun copy_str :: "nat \<Rightarrow> nat \<Rightarrow> nat \<Rightarrow> memory \<Rightarrow> bool \<times> nat \<times> memory" where
  "copy_str 0 dst p m = (False, 0, m)"
| "copy_str (Suc n) dst p m =
     (if m p = 0 then (True, 0, m(dst := 0))
      else let (got, k, m') = copy_str n (dst + 1) (p + 1) (m(dst := m p)) in (got, k + 1, m'))"

lemma copy_str_all: "copy_str n dst p m = (False, k, m') \<Longrightarrow> k = n"
  by (induction n arbitrary: dst p m k m') (auto split: if_splits prod.splits)

function copyinstr :: "nat \<Rightarrow> nat \<Rightarrow> nat \<Rightarrow> nat \<Rightarrow> nat \<Rightarrow> nat \<Rightarrow> kmem \<Rightarrow> kerr + int \<times> kmem" where
  "copyinstr kend pagetable psz dst srcva mx s =
     (if mx > 0 then
        let va0 = PGROUNDDOWN srcva in
        andthen (user_page kend pagetable psz va0 s) (\<lambda>(pa0, s1).
          if pa0 = 0 then Inr (-1, s1)
          else
            let (got_null, k, m') = copy_str (min (PGSIZE - (srcva - va0)) mx) dst (pa0 + (srcva - va0)) (kmem_mem s1) in
            if got_null then Inr (0, s1\<lparr>kmem_mem := m'\<rparr>)
            else copyinstr kend pagetable psz (dst + k) (va0 + PGSIZE) (mx - k) (s1\<lparr>kmem_mem := m'\<rparr>))
      else Inr (-1, s))"
  by pat_completeness auto
termination
  by (relation "measure (\<lambda>(kend, pagetable, psz, dst, srcva, mx, s). mx)")
    (use in_page in \<open>auto simp: less_diff_conv dest!: copy_str_all [OF sym]\<close>)

declare copyinstr.simps [simp del]

section \<open>The kernel's page table\<close>

definition kvmmap :: "nat \<Rightarrow> nat \<Rightarrow> nat \<Rightarrow> nat \<Rightarrow> nat \<Rightarrow> kmem \<Rightarrow> kerr + kmem" where
  "kvmmap kpgtbl va pa sz perm s =
     andthen (mappages kpgtbl va sz pa perm s) (\<lambda>(r, s1). if r \<noteq> 0 then Inl (Panic ''kvmmap'') else Inr s1)"

definition UART0 :: nat where "UART0 = 0x10000000"
definition VIRTIO0 :: nat where "VIRTIO0 = 0x10001000"
definition PLIC :: nat where "PLIC = 0x0c000000"
definition TRAMPOLINE :: nat where "TRAMPOLINE = MAXVA - PGSIZE"

definition KSTACK :: "nat \<Rightarrow> nat" where
  "KSTACK p = TRAMPOLINE - (p + 1) * 2 * PGSIZE"

text \<open>The loop of \<open>proc_mapstacks\<close> over the given processes.\<close>

fun map_stacks :: "nat list \<Rightarrow> nat \<Rightarrow> kmem \<Rightarrow> kerr + kmem" where
  "map_stacks [] kpgtbl s = Inr s"
| "map_stacks (p # ps) kpgtbl s =
     (let (pa, s1) = kalloc s in
      if pa = 0 then Inl (Panic ''kalloc'')
      else andthen (kvmmap kpgtbl (KSTACK p) pa PGSIZE (PTE_R OR PTE_W) s1) (map_stacks ps kpgtbl))"

text \<open>\<open>etext\<close> and \<open>trampoline\<close> are symbols of the linker. The result of \<open>kalloc\<close> is not checked.\<close>

definition kvmmake :: "nat \<Rightarrow> nat \<Rightarrow> kmem \<Rightarrow> kerr + nat \<times> kmem" where
  "kvmmake etext trampoline s =
     (let (kpgtbl, s1) = kalloc s in
      andthen (kvmmap kpgtbl UART0 UART0 PGSIZE (PTE_R OR PTE_W) (zero_page kpgtbl s1)) (\<lambda>s2.
      andthen (kvmmap kpgtbl VIRTIO0 VIRTIO0 PGSIZE (PTE_R OR PTE_W) s2) (\<lambda>s3.
      andthen (kvmmap kpgtbl PLIC PLIC 0x4000000 (PTE_R OR PTE_W) s3) (\<lambda>s4.
      andthen (kvmmap kpgtbl KERNBASE KERNBASE (etext - KERNBASE) (PTE_R OR PTE_X) s4) (\<lambda>s5.
      andthen (kvmmap kpgtbl etext etext (PHYSTOP - etext) (PTE_R OR PTE_W) s5) (\<lambda>s6.
      andthen (kvmmap kpgtbl TRAMPOLINE trampoline PGSIZE (PTE_R OR PTE_X) s6) (\<lambda>s7.
      andthen (map_stacks [0..<64] kpgtbl s7) (\<lambda>s8. Inr (kpgtbl, s8)))))))))"

end
