(* ===== verification/Kernel_Pagetable.thy ===== *)
theory Kernel_Pagetable
  imports Kernel_Vm
begin

text \<open>
  Page tables as maps: what \<open>walk\<close> and \<open>mappages\<close> do to the translation of virtual addresses. The pages
  of a table form a tree in memory; its pages are distinct and none of them is free.
\<close>

section \<open>Entries\<close>

definition ent :: "nat \<Rightarrow> nat \<Rightarrow> memory \<Rightarrow> nat" where
  "ent pt i m = load64 (pt + 8 * i) m"

lemma has_V: "has_bits e PTE_V \<longleftrightarrow> odd e"
  by (simp add: has_bits_def PTE_V_def and_one_eq odd_iff_mod_2_eq_one)

lemma or_flags: "b < 1024 \<Longrightarrow> k * 1024 OR b = k * 1024 + (b :: nat)"
proof -
  assume b: "b < 1024"
  have "k * 1024 OR b = push_bit 10 k OR take_bit 10 b" using b by (simp add: push_bit_eq_mult take_bit_eq_mod)
  also have "\<dots> = push_bit 10 k + take_bit 10 b"
    by (rule disjunctive_add_eq_or [symmetric]) (auto simp: bit_eq_iff bit_simps)
  finally show ?thesis using b by (simp add: push_bit_eq_mult take_bit_eq_mod)
qed

lemma or_less_1024: "a < 1024 \<Longrightarrow> b < 1024 \<Longrightarrow> a OR b < (1024 :: nat)"
proof -
  assume "a < 1024" "b < 1024"
  then have "take_bit 10 (a OR b) = a OR b" by (simp add: take_bit_or take_bit_nat_eq_self)
  then show ?thesis using take_bit_nat_less_exp [of 10 "a OR b"] by simp
qed

text \<open>The entry \<open>mappages\<close> writes.\<close>

definition mk_pte :: "nat \<Rightarrow> nat \<Rightarrow> nat" where
  "mk_pte pa perm = (PA2PTE pa OR perm) OR PTE_V"

lemma mk_pte_sum: "perm < 1024 \<Longrightarrow> mk_pte pa perm = pa div 4096 * 1024 + (perm OR 1)"
  unfolding mk_pte_def PA2PTE_def PTE_V_def or.assoc using or_flags [OF or_less_1024 [of perm 1], of "pa div 4096"] by simp

lemma mk_pte_fields:
  assumes "perm < 1024" and "pa mod PGSIZE = 0" and "pa < 2 ^ 56"
  shows "PTE2PA (mk_pte pa perm) = pa" and "PTE_FLAGS (mk_pte pa perm) = perm OR 1" and "odd (mk_pte pa perm)"
    and "mk_pte pa perm < 256 ^ 8"
proof -
  have l: "perm OR 1 < 1024" using assms(1) by (intro or_less_1024) simp_all
  have pa: "pa div 4096 * 4096 = pa" using assms(2) by (simp add: PGSIZE_def mod_eq_0_iff_dvd)
  show "PTE2PA (mk_pte pa perm) = pa" using assms(3) l pa by (simp add: mk_pte_sum [OF assms(1)] PTE2PA_def)
  show "PTE_FLAGS (mk_pte pa perm) = perm OR 1" using l by (simp add: mk_pte_sum [OF assms(1)] PTE_FLAGS_def)
  have "odd (perm OR 1)" by (simp add: even_or_iff)
  then show "odd (mk_pte pa perm)" by (simp add: mk_pte_sum [OF assms(1)])
  have "pa div 4096 \<le> 2 ^ 44" using assms(3) by simp
  then show "mk_pte pa perm < 256 ^ 8" using l by (simp add: mk_pte_sum [OF assms(1)])
qed

lemma PX_less: "PX l va < 512"
  by (simp add: PX_def)

lemma ent_cong:
  assumes "\<And>a. pt \<le> a \<Longrightarrow> a < pt + PGSIZE \<Longrightarrow> m' a = m a" and "i < 512"
  shows "ent pt i m' = ent pt i m"
  unfolding ent_def using assms by (intro load_cong) (auto simp: PGSIZE_def)

lemma ent_store:
  assumes "v < 256 ^ 8"
  shows "ent pt i (store64 (pt + 8 * i) v m) = v" and "i \<noteq> j \<Longrightarrow> ent pt j (store64 (pt + 8 * i) v m) = ent pt j m"
proof -
  show "ent pt i (store64 (pt + 8 * i) v m) = v" using assms by (simp add: ent_def load_store)
  show "ent pt j (store64 (pt + 8 * i) v m) = ent pt j m" if "i \<noteq> j"
    unfolding ent_def using that by (intro load_cong store_outside) auto
qed

section \<open>The tree of a page table\<close>

fun tpages :: "nat \<Rightarrow> nat \<Rightarrow> memory \<Rightarrow> nat set" where
  "tpages 0 pt m = {pt}"
| "tpages (Suc l) pt m = insert pt (\<Union>i\<in>{i. i < 512 \<and> odd (ent pt i m)}. tpages l (PTE2PA (ent pt i m)) m)"

fun tree_ok :: "nat \<Rightarrow> nat \<Rightarrow> memory \<Rightarrow> bool" where
  "tree_ok 0 pt m = True"
| "tree_ok (Suc l) pt m =
     ((\<forall>i < 512. odd (ent pt i m) \<longrightarrow> tree_ok l (PTE2PA (ent pt i m)) m \<and> pt \<notin> tpages l (PTE2PA (ent pt i m)) m) \<and>
      (\<forall>i < 512. \<forall>j < 512. i \<noteq> j \<and> odd (ent pt i m) \<and> odd (ent pt j m) \<longrightarrow>
         tpages l (PTE2PA (ent pt i m)) m \<inter> tpages l (PTE2PA (ent pt j m)) m = {}))"

text \<open>The entry that translates an address; 0 where a table is missing.\<close>

fun leaf_pte :: "nat \<Rightarrow> nat \<Rightarrow> nat \<Rightarrow> memory \<Rightarrow> nat" where
  "leaf_pte 0 pt va m = ent pt (PX 0 va) m"
| "leaf_pte (Suc l) pt va m =
     (if odd (ent pt (PX (Suc l) va) m) then leaf_pte l (PTE2PA (ent pt (PX (Suc l) va) m)) va m else 0)"

definition in_pages :: "nat set \<Rightarrow> nat \<Rightarrow> bool" where
  "in_pages S a \<longleftrightarrow> (\<exists>q\<in>S. q \<le> a \<and> a < q + PGSIZE)"

lemma tpages_root: "pt \<in> tpages l pt m"
  by (cases l) auto

lemma tpages_child: "i < 512 \<Longrightarrow> odd (ent pt i m) \<Longrightarrow> tpages l (PTE2PA (ent pt i m)) m \<subseteq> tpages (Suc l) pt m"
  by auto

lemma tree_cong:
  assumes "\<And>a. in_pages (tpages l pt m) a \<Longrightarrow> m' a = m a"
  shows "tpages l pt m' = tpages l pt m \<and> tree_ok l pt m' = tree_ok l pt m \<and> leaf_pte l pt va m' = leaf_pte l pt va m"
  using assms
proof (induction l arbitrary: pt)
  case 0
  then show ?case using ent_cong [of pt m' m "PX 0 va"] by (simp add: in_pages_def PX_less)
next
  case (Suc l)
  have e: "ent pt i m' = ent pt i m" if "i < 512" for i
    using Suc.prems that by (intro ent_cong) (auto simp: in_pages_def)
  have c: "tpages l (PTE2PA (ent pt i m)) m' = tpages l (PTE2PA (ent pt i m)) m \<and>
      tree_ok l (PTE2PA (ent pt i m)) m' = tree_ok l (PTE2PA (ent pt i m)) m \<and>
      leaf_pte l (PTE2PA (ent pt i m)) va m' = leaf_pte l (PTE2PA (ent pt i m)) va m"
    if "i < 512" "odd (ent pt i m)" for i
    using that Suc.prems by (intro Suc.IH) (auto simp: in_pages_def)
  have "tpages (Suc l) pt m' = tpages (Suc l) pt m" using e c by auto
  moreover have "tree_ok (Suc l) pt m' = tree_ok (Suc l) pt m" using e c by (auto simp del: tpages.simps)
  moreover have "leaf_pte (Suc l) pt va m' = leaf_pte (Suc l) pt va m" using e [OF PX_less] c [OF PX_less] by simp
  ultimately show ?case by blast
qed

declare tpages.simps(2) [simp del] tree_ok.simps(2) [simp del]

text \<open>Addresses in one page are in no other.\<close>

lemma not_in_pages:
  assumes "q mod PGSIZE = 0" and "\<forall>p\<in>S. p mod PGSIZE = 0" and "q \<notin> S" and "q \<le> a" and "a < q + PGSIZE"
  shows "\<not> in_pages S a"
proof
  assume "in_pages S a"
  then obtain p where p: "p \<in> S" "p \<le> a" "a < p + PGSIZE" by (auto simp: in_pages_def)
  then have "p \<noteq> q" "p mod PGSIZE = 0" using assms(2,3) by auto
  then show False using pages_apart [OF assms(1) _ _ assms(4,5), of p] p by auto
qed

lemma in_pages_apart:
  assumes "\<forall>p\<in>S \<union> R. p mod PGSIZE = 0" and "S \<inter> R = {}" and "in_pages R a"
  shows "\<not> in_pages S a"
proof -
  obtain q where q: "q \<in> R" "q \<le> a" "a < q + PGSIZE" using assms(3) by (auto simp: in_pages_def)
  then show ?thesis using assms(1,2) by (intro not_in_pages [of q]) auto
qed

text \<open>Only the table under one entry changes.\<close>

lemma change_child:
  assumes ok: "tree_ok (Suc l) pt m" and i: "i < 512" "odd (ent pt i m)" and c: "c = PTE2PA (ent pt i m)"
    and al: "\<forall>q\<in>tpages (Suc l) pt m \<union> N. q mod PGSIZE = 0" and fresh: "tpages (Suc l) pt m \<inter> N = {}"
    and same: "\<And>a. \<not> in_pages (tpages l c m \<union> N) a \<Longrightarrow> m' a = m a"
    and child: "tree_ok l c m'" "tpages l c m' \<subseteq> tpages l c m \<union> N"
  shows "\<And>j. j < 512 \<Longrightarrow> ent pt j m' = ent pt j m" and "tree_ok (Suc l) pt m'"
    and "tpages (Suc l) pt m' \<subseteq> tpages (Suc l) pt m \<union> N"
    and "leaf_pte (Suc l) pt va m' = (if PX (Suc l) va = i then leaf_pte l c va m' else leaf_pte (Suc l) pt va m)"
proof -
  have sub: "tpages l c m \<subseteq> tpages (Suc l) pt m" using tpages_child [OF i, of l] c by simp
  have rt: "pt \<in> tpages (Suc l) pt m" "pt \<notin> tpages l c m" using ok i c by (simp_all add: tpages_root tree_ok.simps(2))
  have e: "ent pt j m' = ent pt j m" if "j < 512" for j
    using that rt al fresh sub by (intro ent_cong same not_in_pages [of pt]) auto
  show "\<And>j. j < 512 \<Longrightarrow> ent pt j m' = ent pt j m" by (rule e)
  have other: "tpages l (PTE2PA (ent pt j m)) m' = tpages l (PTE2PA (ent pt j m)) m \<and>
      tree_ok l (PTE2PA (ent pt j m)) m' = tree_ok l (PTE2PA (ent pt j m)) m \<and>
      leaf_pte l (PTE2PA (ent pt j m)) va m' = leaf_pte l (PTE2PA (ent pt j m)) va m"
    if j: "j < 512" "odd (ent pt j m)" "j \<noteq> i" for j
  proof (rule tree_cong, rule same)
    fix a assume a: "in_pages (tpages l (PTE2PA (ent pt j m)) m) a"
    have sj: "tpages l (PTE2PA (ent pt j m)) m \<subseteq> tpages (Suc l) pt m" using tpages_child [OF j(1,2)] .
    have "tpages l c m \<inter> tpages l (PTE2PA (ent pt j m)) m = {}" using ok i j c by (auto simp: tree_ok.simps(2))
    then show "\<not> in_pages (tpages l c m \<union> N) a" using a al fresh sub sj by (intro in_pages_apart [OF _ _ a]) auto
  qed
  show "tpages (Suc l) pt m' \<subseteq> tpages (Suc l) pt m \<union> N"
  proof
    fix x assume "x \<in> tpages (Suc l) pt m'"
    then consider "x = pt" | j where "j < 512" "odd (ent pt j m)" "x \<in> tpages l (PTE2PA (ent pt j m)) m'"
      using e by (auto simp: tpages.simps(2))
    then show "x \<in> tpages (Suc l) pt m \<union> N"
    proof cases
      case (2 j)
      then show ?thesis using other [of j] child(2) sub tpages_child [of j pt m l] c by (cases "j = i") auto
    qed (simp add: tpages_root)
  qed
  have dis: "tpages l c m' \<inter> tpages l (PTE2PA (ent pt j m)) m = {}" if j: "j < 512" "odd (ent pt j m)" "j \<noteq> i" for j
  proof -
    have "tpages l c m \<inter> tpages l (PTE2PA (ent pt j m)) m = {}" using ok i j c by (auto simp: tree_ok.simps(2))
    moreover have "tpages l (PTE2PA (ent pt j m)) m \<inter> N = {}" using fresh tpages_child [OF j(1,2), of l] by blast
    ultimately show ?thesis using child(2) by blast
  qed
  have "pt \<notin> tpages l c m'" using rt child(2) fresh by blast
  then show "tree_ok (Suc l) pt m'"
    unfolding tree_ok.simps(2)
  proof (intro conjI allI impI)
    fix j assume j: "j < 512" "odd (ent pt j m')"
    show "tree_ok l (PTE2PA (ent pt j m')) m'" using j e other [of j] child(1) c ok by (cases "j = i") (auto simp: tree_ok.simps(2))
    show "pt \<notin> tpages l (PTE2PA (ent pt j m')) m'"
      using j e other [of j] \<open>pt \<notin> tpages l c m'\<close> c ok by (cases "j = i") (auto simp: tree_ok.simps(2))
  next
    fix j k assume j: "j < 512" and k: "k < 512" "j \<noteq> k \<and> odd (ent pt j m') \<and> odd (ent pt k m')"
    show "tpages l (PTE2PA (ent pt j m')) m' \<inter> tpages l (PTE2PA (ent pt k m')) m' = {}"
    proof (cases "j = i")
      case True
      then show ?thesis using j k e other [of k] dis [of k] c by simp
    next
      case False
      show ?thesis
      proof (cases "k = i")
        case True
        then show ?thesis using j k e other [of j] dis [of j] c False by (simp add: Int_commute)
      next
        case False
        then show ?thesis using j k e other [of k] other [of j] \<open>j \<noteq> i\<close> ok by (simp add: tree_ok.simps(2))
      qed
    qed
  qed
  show "leaf_pte (Suc l) pt va m' = (if PX (Suc l) va = i then leaf_pte l c va m' else leaf_pte (Suc l) pt va m)"
    using e [OF PX_less] other [OF PX_less, of "Suc l" va] i(2) c by auto
qed

text \<open>A zeroed page is an empty table.\<close>

lemma load_zero: "(\<And>a. p \<le> a \<Longrightarrow> a < p + k \<Longrightarrow> m a = 0) \<Longrightarrow> load k p m = 0"
proof (induction k arbitrary: p)
  case (Suc k)
  have "load k (p + 1) m = 0" by (rule Suc.IH) (use Suc.prems in auto)
  then show ?case using Suc.prems [of p] by simp
qed simp

lemma empty_table:
  assumes "\<And>a. p \<le> a \<Longrightarrow> a < p + PGSIZE \<Longrightarrow> m a = 0"
  shows "tpages l p m = {p}" and "tree_ok l p m" and "leaf_pte l p va m = 0"
proof -
  have "ent p i m = 0" if "i < 512" for i
    unfolding ent_def using that by (intro load_zero assms) (simp_all add: PGSIZE_def)
  then show "tpages l p m = {p}" "tree_ok l p m" "leaf_pte l p va m = 0"
    by (cases l; simp add: tpages.simps(2) tree_ok.simps(2) PX_less)+
qed

text \<open>A new, empty table under an entry that was not valid.\<close>

lemma new_child:
  assumes ok: "tree_ok (Suc l) pt m" and i: "i < 512" "even (ent pt i m)"
    and al: "\<forall>q\<in>insert p (tpages (Suc l) pt m). q mod PGSIZE = 0" and p: "p \<notin> tpages (Suc l) pt m"
    and v: "v < 256 ^ 8" "odd v" "PTE2PA v = p"
    and m1: "\<And>a. \<not> (p \<le> a \<and> a < p + PGSIZE) \<Longrightarrow> m1 a = m a" "\<And>a. p \<le> a \<Longrightarrow> a < p + PGSIZE \<Longrightarrow> m1 a = 0"
    and m': "m' = store64 (pt + 8 * i) v m1"
  shows "ent pt i m' = v" and "tree_ok (Suc l) pt m'" and "tpages (Suc l) pt m' = insert p (tpages (Suc l) pt m)"
    and "leaf_pte (Suc l) pt va m' = leaf_pte (Suc l) pt va m"
proof -
  have ne: "pt \<noteq> p" using p tpages_root by metis
  have out: "m' a = m1 a" if "\<not> (pt \<le> a \<and> a < pt + PGSIZE)" for a
    unfolding m' using that i(1) by (intro store_outside) (auto simp: PGSIZE_def)
  have root: "\<And>a. pt \<le> a \<Longrightarrow> a < pt + PGSIZE \<Longrightarrow> m1 a = m a"
    using al ne pages_apart [of pt p] tpages_root by (intro m1) (metis insert_iff leD)
  have e: "ent pt j m' = (if j = i then v else ent pt j m)" if "j < 512" for j
    using ent_store(1) [OF v(1), of pt i m1] ent_store(2) [OF v(1), of i j pt m1] ent_cong [of pt m1 m j, OF root] that by (auto simp: m')
  show "ent pt i m' = v" using e [OF i(1)] by simp
  have "\<And>a. p \<le> a \<Longrightarrow> a < p + PGSIZE \<Longrightarrow> m' a = 0"
    using al ne pages_apart [of p pt] tpages_root out m1(2) by (metis insert_iff leD)
  note P = empty_table [OF this]
  have other: "tpages l (PTE2PA (ent pt j m)) m' = tpages l (PTE2PA (ent pt j m)) m \<and>
      tree_ok l (PTE2PA (ent pt j m)) m' = tree_ok l (PTE2PA (ent pt j m)) m \<and>
      leaf_pte l (PTE2PA (ent pt j m)) va m' = leaf_pte l (PTE2PA (ent pt j m)) va m"
    if j: "j < 512" "odd (ent pt j m)" for j
  proof (rule tree_cong)
    fix a assume a: "in_pages (tpages l (PTE2PA (ent pt j m)) m) a"
    have sub: "tpages l (PTE2PA (ent pt j m)) m \<subseteq> tpages (Suc l) pt m" using tpages_child [OF j] .
    have "pt \<notin> tpages l (PTE2PA (ent pt j m)) m" using ok j by (auto simp: tree_ok.simps(2))
    then have "\<not> in_pages {pt, p} a"
      using sub al p by (intro in_pages_apart [OF _ _ a]) (auto simp: tpages_root)
    then show "m' a = m a" using out m1(1) by (auto simp: in_pages_def)
  qed
  have odd': "odd (ent pt j m') \<longleftrightarrow> j = i \<or> odd (ent pt j m)" "j \<noteq> i \<Longrightarrow> ent pt j m' = ent pt j m" if "j < 512" for j
    using e [OF that] v(2) by auto
  have child: "tpages l (PTE2PA (ent pt j m')) m' = (if j = i then {p} else tpages l (PTE2PA (ent pt j m)) m)"
    "tree_ok l (PTE2PA (ent pt j m')) m'" if j: "j < 512" "odd (ent pt j m')" for j
    using j e [OF j(1)] other [of j] P v ok odd'(1) [OF j(1)] by (auto simp: tree_ok.simps(2))
  show "tpages (Suc l) pt m' = insert p (tpages (Suc l) pt m)"
  proof -
    have idx: "{j. j < 512 \<and> odd (ent pt j m')} = insert i {j. j < 512 \<and> odd (ent pt j m)}" using odd'(1) i(1) by auto
    have "tpages l (PTE2PA (ent pt i m')) m' = {p}" using child(1) [OF i(1)] odd'(1) [OF i(1)] by simp
    moreover have "(\<Union>j\<in>{j. j < 512 \<and> odd (ent pt j m)}. tpages l (PTE2PA (ent pt j m')) m') =
        (\<Union>j\<in>{j. j < 512 \<and> odd (ent pt j m)}. tpages l (PTE2PA (ent pt j m)) m)"
      using i(2) by (intro SUP_cong refl) (auto simp: child(1) odd'(1))
    ultimately show ?thesis unfolding tpages.simps(2) idx by (simp add: insert_commute)
  qed
  have pj: "p \<notin> tpages l (PTE2PA (ent pt j m)) m" if "j < 512" "odd (ent pt j m)" for j
    using tpages_child [OF that, of l] p by blast
  show "tree_ok (Suc l) pt m'"
    unfolding tree_ok.simps(2)
  proof (intro conjI allI impI)
    fix j assume j: "j < 512" "odd (ent pt j m')"
    show "tree_ok l (PTE2PA (ent pt j m')) m'" by (rule child(2) [OF j])
    show "pt \<notin> tpages l (PTE2PA (ent pt j m')) m'"
      using child(1) [OF j] ne ok j odd'(1) [OF j(1)] by (auto simp: tree_ok.simps(2) split: if_splits)
  next
    fix j k assume j: "j < 512" and k: "k < 512" "j \<noteq> k \<and> odd (ent pt j m') \<and> odd (ent pt k m')"
    then show "tpages l (PTE2PA (ent pt j m')) m' \<inter> tpages l (PTE2PA (ent pt k m')) m' = {}"
      using child(1) [of j] child(1) [of k] pj [of j] pj [of k] ok odd'(1) [of j] odd'(1) [of k]
      by (auto simp: tree_ok.simps(2) split: if_splits)
  qed
  show "leaf_pte (Suc l) pt va m' = leaf_pte (Suc l) pt va m"
    using e [OF PX_less, of "Suc l" va] other [OF PX_less, of "Suc l" va] P(3) v i(2) by auto
qed

section \<open>Walking with allocation\<close>

definition vm_inv :: "nat \<Rightarrow> nat \<Rightarrow> nat \<Rightarrow> kmem \<Rightarrow> nat list \<Rightarrow> bool" where
  "vm_inv l kend pt s ps \<longleftrightarrow> free_ok kend s ps \<and> tree_ok l pt (kmem_mem s) \<and>
     (\<forall>q\<in>tpages l pt (kmem_mem s). is_page kend q) \<and> tpages l pt (kmem_mem s) \<inter> set ps = {}"

text \<open>From \<open>s\<close> to \<open>t\<close> pages of the free list have become part of the table; no translation has changed.\<close>

definition grown :: "nat \<Rightarrow> nat \<Rightarrow> nat \<Rightarrow> kmem \<Rightarrow> nat list \<Rightarrow> kmem \<Rightarrow> nat list \<Rightarrow> bool" where
  "grown l kend pt s ps t ps' \<longleftrightarrow> vm_inv l kend pt t ps' \<and> set ps' \<subseteq> set ps \<and>
     tpages l pt (kmem_mem t) \<subseteq> tpages l pt (kmem_mem s) \<union> (set ps - set ps') \<and>
     (\<forall>a. \<not> in_pages (tpages l pt (kmem_mem s) \<union> (set ps - set ps')) a \<longrightarrow> kmem_mem t a = kmem_mem s a) \<and>
     (\<forall>va. leaf_pte l pt va (kmem_mem t) = leaf_pte l pt va (kmem_mem s))"

definition walked :: "nat \<Rightarrow> nat \<Rightarrow> nat \<Rightarrow> nat \<Rightarrow> kmem \<Rightarrow> nat list \<Rightarrow> nat \<Rightarrow> kmem \<Rightarrow> nat list \<Rightarrow> bool" where
  "walked l kend pt va s ps p t ps' \<longleftrightarrow> grown l kend pt s ps t ps' \<and> (p = 0 \<longrightarrow> ps' = []) \<and>
     (p \<noteq> 0 \<longrightarrow> walk_from l pt va False t = (p, t))"

text \<open>At most a page per level below is taken, and the walk fails only when there are fewer.\<close>

definition page_use :: "nat \<Rightarrow> nat \<Rightarrow> nat list \<Rightarrow> nat list \<Rightarrow> bool" where
  "page_use l p ps ps' \<longleftrightarrow> length ps \<le> length ps' + l \<and> (p = 0 \<longrightarrow> length ps < l)"

lemma free_ok_pages: "free_ok kend s ps \<Longrightarrow> p \<in> set ps \<Longrightarrow> is_page kend p"
  by (simp add: free_ok_def)

lemma page_aligned: "is_page kend p \<Longrightarrow> p mod PGSIZE = 0"
  by (simp add: is_page_def)

lemma free_ok_frame:
  assumes "free_ok kend s ps" and "freelist t = freelist s" and "\<And>a. in_pages (set ps) a \<Longrightarrow> kmem_mem t a = kmem_mem s a"
  shows "free_ok kend t ps"
proof -
  have "linked (kmem_mem t) (freelist s) ps = linked (kmem_mem s) (freelist s) ps"
    using assms(3) by (intro linked_cong) (force simp: in_pages_def PGSIZE_def)
  then show ?thesis using assms(1,2) by (simp add: free_ok_def)
qed

lemma walk_existing:
  assumes IH: "\<And>c s ps p t. vm_inv l kend c s ps \<Longrightarrow> walk_from l c va True s = (p, t) \<Longrightarrow>
      \<exists>ps'. walked l kend c va s ps p t ps' \<and> page_use l p ps ps'"
    and inv: "vm_inv (Suc l) kend pt s ps" and e: "odd (ent pt (PX (Suc l) va) (kmem_mem s))"
    and w: "walk_from (Suc l) pt va True s = (p, t)"
  shows "\<exists>ps'. walked (Suc l) kend pt va s ps p t ps' \<and> page_use l p ps ps'"
proof -
  let ?m = "kmem_mem s" and ?i = "PX (Suc l) va"
  define c where "c = PTE2PA (ent pt ?i ?m)"
  note i = PX_less [of "Suc l" va]
  have sub: "tpages l c ?m \<subseteq> tpages (Suc l) pt ?m" using tpages_child [OF i e] c_def by simp
  have ok: "tree_ok (Suc l) pt ?m" "free_ok kend s ps" "\<forall>q\<in>tpages (Suc l) pt ?m. is_page kend q"
    "tpages (Suc l) pt ?m \<inter> set ps = {}" using inv by (simp_all add: vm_inv_def)
  have "vm_inv l kend c s ps"
    using ok i e sub by (auto simp: vm_inv_def tree_ok.simps(2) c_def)
  moreover have "walk_from l c va True s = (p, t)" using w e by (simp add: ent_def [symmetric] has_V c_def)
  ultimately obtain ps' where ps': "walked l kend c va s ps p t ps'" and u: "page_use l p ps ps'" using IH by blast
  let ?N = "set ps - set ps'" and ?m' = "kmem_mem t"
  have g: "set ps' \<subseteq> set ps" "tree_ok l c ?m'" "tpages l c ?m' \<subseteq> tpages l c ?m \<union> ?N" "free_ok kend t ps'"
    "\<And>a. \<not> in_pages (tpages l c ?m \<union> ?N) a \<Longrightarrow> ?m' a = ?m a" "\<And>va. leaf_pte l c va ?m' = leaf_pte l c va ?m"
    "p = 0 \<longrightarrow> ps' = []" "p \<noteq> 0 \<longrightarrow> walk_from l c va False t = (p, t)"
    using ps' by (auto simp: walked_def grown_def vm_inv_def)
  have al: "\<forall>q\<in>tpages (Suc l) pt ?m \<union> ?N. is_page kend q" using ok(3) free_ok_pages [OF ok(2)] by auto
  have al': "\<forall>q\<in>tpages (Suc l) pt ?m \<union> ?N. q mod PGSIZE = 0" using al page_aligned by blast
  have fr: "tpages (Suc l) pt ?m \<inter> ?N = {}" using ok(4) by blast
  note C = change_child [OF ok(1) i e c_def al' fr g(5) g(2,3), simplified]
  have leaf: "leaf_pte (Suc l) pt va' ?m' = leaf_pte (Suc l) pt va' ?m" for va'
    using C(4) [of va'] g(6) e by (auto simp: c_def)
  have "\<not> in_pages (tpages (Suc l) pt ?m \<union> ?N) a \<Longrightarrow> \<not> in_pages (tpages l c ?m \<union> ?N) a" for a
    using sub by (auto simp: in_pages_def)
  then have "grown (Suc l) kend pt s ps t ps'"
    using C(2,3) leaf g ok(4) al by (auto simp: grown_def vm_inv_def)
  moreover have "walk_from (Suc l) pt va False t = (p, t)" if "p \<noteq> 0"
    using g(8) that C(1) [OF i] e by (simp add: ent_def [symmetric] has_V c_def)
  ultimately show ?thesis using g(7) u by (auto simp: walked_def)
qed

lemma grown_refl: "vm_inv l kend pt s ps \<Longrightarrow> grown l kend pt s ps s ps"
  by (simp add: grown_def)

lemma in_pages_mono: "in_pages S a \<Longrightarrow> S \<subseteq> R \<Longrightarrow> in_pages R a"
  by (auto simp: in_pages_def)

lemma grown_trans:
  assumes g: "grown l kend pt s ps t qs" "grown l kend pt t qs u rs"
  shows "grown l kend pt s ps u rs"
proof -
  let ?P = "\<lambda>s. tpages l pt (kmem_mem s)"
  have sub: "set qs \<subseteq> set ps" "set rs \<subseteq> set qs" "?P t \<subseteq> ?P s \<union> (set ps - set qs)" "?P u \<subseteq> ?P t \<union> (set qs - set rs)"
    using g by (simp_all add: grown_def)
  have S: "?P s \<union> (set ps - set qs) \<subseteq> ?P s \<union> (set ps - set rs)" "?P t \<union> (set qs - set rs) \<subseteq> ?P s \<union> (set ps - set rs)"
    using sub by auto
  have "kmem_mem u a = kmem_mem s a" if "\<not> in_pages (?P s \<union> (set ps - set rs)) a" for a
  proof -
    have "\<not> in_pages (?P s \<union> (set ps - set qs)) a" by (rule notI) (rule notE [OF that in_pages_mono [OF _ S(1)]])
    moreover have "\<not> in_pages (?P t \<union> (set qs - set rs)) a" by (rule notI) (rule notE [OF that in_pages_mono [OF _ S(2)]])
    ultimately show ?thesis using g by (simp add: grown_def)
  qed
  moreover have "?P u \<subseteq> ?P s \<union> (set ps - set rs)" using sub(4) S(2) by blast
  moreover have "set rs \<subseteq> set ps" using sub by blast
  ultimately show ?thesis using g by (simp add: grown_def)
qed

lemma walk_new_table:
  assumes inv: "vm_inv (Suc l) kend pt s (q # qs)" and i: "i < 512" "even (ent pt i (kmem_mem s))"
    and v: "v = PA2PTE q OR PTE_V" and t: "t = set_pte (pt + 8 * i) v (zero_page q (snd (kalloc s)))"
  shows "grown (Suc l) kend pt s (q # qs) t qs" and "ent pt i (kmem_mem t) = v" and "odd v" and "PTE2PA v = q"
proof -
  let ?m = "kmem_mem s" and ?s1 = "snd (kalloc s)"
  have ok: "tree_ok (Suc l) pt ?m" "free_ok kend s (q # qs)" "\<forall>p\<in>tpages (Suc l) pt ?m. is_page kend p"
    "tpages (Suc l) pt ?m \<inter> set (q # qs) = {}" using inv by (simp_all add: vm_inv_def)
  have q: "is_page kend q" "q \<notin> set qs" "free_ok kend ?s1 qs" "freelist s = q" "q \<noteq> 0"
    using kalloc_ok [OF ok(2)] ok(2) by (simp_all add: free_ok_def)
  have mk: "v = mk_pte q 0" by (simp add: mk_pte_def v)
  have q56: "q < 2 ^ 56" using q(1) by (simp add: is_page_def PHYSTOP_def KERNBASE_def)
  note V = mk_pte_fields [of 0 q, OF _ page_aligned [OF q(1)] q56, folded mk, simplified]
  show "odd v" "PTE2PA v = q" by (simp_all add: V)
  have s1: "kmem_mem ?s1 = memset q 5 PGSIZE ?m" using q(4,5) by (simp add: kalloc_def)
  define m1 where "m1 = memset q 0 PGSIZE (kmem_mem ?s1)"
  have m1: "\<And>a. \<not> (q \<le> a \<and> a < q + PGSIZE) \<Longrightarrow> m1 a = ?m a" "\<And>a. q \<le> a \<Longrightarrow> a < q + PGSIZE \<Longrightarrow> m1 a = 0"
    unfolding m1_def s1 memset_at by auto
  have m': "kmem_mem t = store64 (pt + 8 * i) v m1" by (simp add: t set_pte_def zero_page_def m1_def)
  have al: "\<forall>p\<in>insert q (tpages (Suc l) pt ?m). p mod PGSIZE = 0"
    using ok(3) page_aligned [OF q(1)] page_aligned [of kend] by auto
  have fresh: "q \<notin> tpages (Suc l) pt ?m" using ok(4) by auto
  note N = new_child [OF ok(1) i al fresh _ V(3) V(1) m1 m']
  show "ent pt i (kmem_mem t) = v" using N(1) V(4) by simp
  have out: "kmem_mem t a = m1 a" if "\<not> (pt \<le> a \<and> a < pt + PGSIZE)" for a
    unfolding m' using that i(1) by (intro store_outside) (auto simp: PGSIZE_def)
  have "free_ok kend t qs"
  proof (rule free_ok_frame [OF q(3)])
    show "freelist t = freelist ?s1" by (simp add: t set_pte_def zero_page_def)
    fix a assume a: "in_pages (set qs) a"
    have "\<not> in_pages {pt, q} a"
    proof (rule in_pages_apart [OF _ _ a])
      show "\<forall>p\<in>{pt, q} \<union> set qs. p mod PGSIZE = 0"
        using al tpages_root [of pt "Suc l" ?m] free_ok_pages [OF q(3)] page_aligned [of kend] by auto
      show "{pt, q} \<inter> set qs = {}" using q(2) ok(4) tpages_root [of pt "Suc l" ?m] by auto
    qed
    then show "kmem_mem t a = kmem_mem ?s1 a" using out [of a] m1(1) [of a] by (auto simp: in_pages_def s1 memset_at)
  qed
  moreover have "kmem_mem t a = ?m a" if "\<not> in_pages (insert q (tpages (Suc l) pt ?m)) a" for a
    using that out [of a] m1(1) [of a] tpages_root [of pt "Suc l" ?m] by (auto simp: in_pages_def)
  ultimately show "grown (Suc l) kend pt s (q # qs) t qs"
    using N(2-4) V(4) ok(3,4) q(1,2) by (auto simp: grown_def vm_inv_def in_pages_def)
qed

lemma walk_alloc:
  assumes "0 < kend" and "vm_inv l kend pt s ps" and "walk_from l pt va True s = (p, t)"
  shows "\<exists>ps'. walked l kend pt va s ps p t ps' \<and> page_use l p ps ps'"
  using assms(2,3)
proof (induction l arbitrary: pt s ps p t)
  case 0
  then have "0 < pt" using assms(1) by (auto simp: vm_inv_def is_page_def)
  then show ?case using 0 grown_refl [OF 0(1)] by (auto simp: walked_def page_use_def)
next
  case (Suc l)
  let ?i = "PX (Suc l) va"
  show ?case
  proof (cases "odd (ent pt ?i (kmem_mem s))")
    case True
    show ?thesis using walk_existing [OF Suc.IH Suc.prems(1) True Suc.prems(2)] by (auto simp: page_use_def)
  next
    case e: False
    have f: "free_ok kend s ps" using Suc.prems(1) by (simp add: vm_inv_def)
    show ?thesis
    proof (cases ps)
      case Nil
      then have "p = 0" "t = s" using kalloc_ok [OF f] e Suc.prems(2) by (simp_all add: ent_def has_V)
      then show ?thesis using grown_refl [OF Suc.prems(1)] Nil by (auto simp: walked_def page_use_def)
    next
      case (Cons q qs)
      define v where "v = PA2PTE q OR PTE_V"
      define u where "u = set_pte (pt + 8 * ?i) v (zero_page q (snd (kalloc s)))"
      have q: "fst (kalloc s) = q" "q \<noteq> 0" using kalloc_ok [OF f] Cons by simp_all
      note T = walk_new_table [OF Suc.prems(1) [unfolded Cons] PX_less _ v_def u_def]
      have T': "grown (Suc l) kend pt s ps u qs" "ent pt ?i (kmem_mem u) = v" "odd v" "PTE2PA v = q"
        using T e Cons by simp_all
      have "walk_from (Suc l) pt va True s = walk_from (Suc l) pt va True u"
        using e q T'(2-4) by (cases "kalloc s") (simp add: ent_def [symmetric] has_V u_def v_def)
      then have "vm_inv (Suc l) kend pt u qs" "odd (ent pt ?i (kmem_mem u))" "walk_from (Suc l) pt va True u = (p, t)"
        using T' Suc.prems(2) by (simp_all add: grown_def)
      from walk_existing [OF Suc.IH this] obtain ps'
        where "walked (Suc l) kend pt va u qs p t ps'" "page_use l p qs ps'" by blast
      then show ?thesis using grown_trans [OF T'(1)] Cons by (auto simp: walked_def page_use_def)
    qed
  qed
qed

section \<open>Storing an entry\<close>

text \<open>Storing at the entry \<open>walk\<close> found for \<open>va\<close> changes the translation of the addresses in that page.\<close>

lemma leaf_store:
  assumes "tree_ok l pt (kmem_mem s)" and "\<forall>q\<in>tpages l pt (kmem_mem s). q mod PGSIZE = 0"
    and "walk_from l pt va False s = (p, s)" and "p \<noteq> 0" and v: "v < 256 ^ 8" and m': "m' = store64 p v (kmem_mem s)"
  shows "pte_at p s = leaf_pte l pt va (kmem_mem s) \<and> tree_ok l pt m' \<and> tpages l pt m' \<subseteq> tpages l pt (kmem_mem s) \<and>
    (\<exists>q\<in>tpages l pt (kmem_mem s). q \<le> p \<and> p + 8 \<le> q + PGSIZE) \<and>
    (\<forall>va'. leaf_pte l pt va' m' = (if \<forall>k\<le>l. PX k va' = PX k va then v else leaf_pte l pt va' (kmem_mem s)))"
  using assms(1-4)
proof (induction l arbitrary: pt)
  case 0
  then have p: "p = pt + 8 * PX 0 va" by simp
  moreover have "leaf_pte 0 pt va' m' = (if PX 0 va' = PX 0 va then v else leaf_pte 0 pt va' (kmem_mem s))" for va'
    using ent_store [OF v] by (auto simp: m' p)
  ultimately show ?case using PX_less [of 0 va] by (simp add: ent_def PGSIZE_def)
next
  case (Suc l)
  let ?m = "kmem_mem s" and ?i = "PX (Suc l) va"
  define c where "c = PTE2PA (ent pt ?i ?m)"
  note i = PX_less [of "Suc l" va]
  have e: "odd (ent pt ?i ?m)" and w: "walk_from l c va False s = (p, s)"
    using Suc.prems(3,4) by (auto simp: Let_def ent_def has_V c_def split: if_splits)
  have sub: "tpages l c ?m \<subseteq> tpages (Suc l) pt ?m" using tpages_child [OF i e] c_def by simp
  have "tree_ok l c ?m" using Suc.prems(1) i e by (simp add: tree_ok.simps(2) c_def)
  moreover have "\<forall>q\<in>tpages l c ?m. q mod PGSIZE = 0" using Suc.prems(2) sub by blast
  ultimately have IH: "pte_at p s = leaf_pte l c va ?m" "tree_ok l c m'" "tpages l c m' \<subseteq> tpages l c ?m"
      "\<exists>q\<in>tpages l c ?m. q \<le> p \<and> p + 8 \<le> q + PGSIZE"
      "\<And>va'. leaf_pte l c va' m' = (if \<forall>k\<le>l. PX k va' = PX k va then v else leaf_pte l c va' ?m)"
    using Suc.IH [OF _ _ w Suc.prems(4)] by simp_all
  have same: "m' a = ?m a" if "\<not> in_pages (tpages l c ?m \<union> {}) a" for a
    unfolding m' using that IH(4) by (intro store_outside) (force simp: in_pages_def)
  have pre: "\<forall>q\<in>tpages (Suc l) pt ?m \<union> {}. q mod PGSIZE = 0" "tpages (Suc l) pt ?m \<inter> {} = {}" "tpages l c m' \<subseteq> tpages l c ?m \<union> {}"
    using Suc.prems(2) IH(3) by simp_all
  note C = change_child [OF Suc.prems(1) i e c_def pre(1,2) same IH(2) pre(3)]
  have "leaf_pte (Suc l) pt va' m' = (if \<forall>k\<le>Suc l. PX k va' = PX k va then v else leaf_pte (Suc l) pt va' ?m)" for va'
    using C(4) [of va'] IH(5) [of va'] e by (cases "PX (Suc l) va' = ?i") (auto simp del: leaf_pte.simps simp: leaf_pte.simps(2) [of l pt va' ?m] le_Suc_eq c_def)
  moreover have "leaf_pte (Suc l) pt va ?m = pte_at p s" using IH(1) e by (simp add: c_def)
  moreover have "\<exists>q\<in>tpages (Suc l) pt ?m. q \<le> p \<and> p + 8 \<le> q + PGSIZE" using IH(4) sub by blast
  ultimately show ?case using C(2,3) by simp
qed

lemma same_page:
  assumes "va < MAXVA" and "va' < MAXVA"
  shows "(\<forall>k\<le>2. PX k va' = PX k va) \<longleftrightarrow> va' div PGSIZE = va div PGSIZE"
proof -
  have split: "x div PGSIZE = PX 0 x + 512 * PX 1 x + 262144 * PX 2 x" if "x < MAXVA" for x
  proof -
    have "x div 2097152 = x div 4096 div 512" "x div 1073741824 = x div 4096 div 512 div 512" by (simp_all add: div_mult2_eq [symmetric])
    moreover have "y = y mod 512 + 512 * (y div 512 mod 512) + 262144 * (y div 512 div 512)" for y :: nat
      using mult_div_mod_eq [of 512 y] mult_div_mod_eq [of 512 "y div 512"] by linarith
    from this [of "x div 4096"] calculation
    have "x div 4096 = x div 4096 mod 512 + 512 * (x div 2097152 mod 512) + 262144 * (x div 1073741824)" by simp
    moreover have "x div 1073741824 mod 512 = x div 1073741824" using that by (simp add: MAXVA_def)
    ultimately show ?thesis by (simp add: PX_def PGSIZE_def)
  qed
  have px: "PX k x = x div PGSIZE div 512 ^ k mod 512" for k x
    by (simp add: PX_def PGSIZE_def power_add power_mult div_mult2_eq)
  show ?thesis
  proof
    assume eq: "\<forall>k\<le>2. PX k va' = PX k va"
    show "va' div PGSIZE = va div PGSIZE" unfolding split [OF assms(1)] split [OF assms(2)] using eq by simp
  qed (simp add: px)
qed

lemma map_one:
  assumes "vm_inv 2 kend pt s ps" and "walk_from 2 pt va False s = (p, s)" and "p \<noteq> 0" and v: "v < 256 ^ 8"
    and t: "t = set_pte p v s"
  shows "pte_at p s = leaf_pte 2 pt va (kmem_mem s)" and "vm_inv 2 kend pt t ps"
    and "tpages 2 pt (kmem_mem t) \<subseteq> tpages 2 pt (kmem_mem s)"
    and "\<not> in_pages (tpages 2 pt (kmem_mem s)) a \<Longrightarrow> kmem_mem t a = kmem_mem s a"
    and "va < MAXVA \<Longrightarrow> va' < MAXVA \<Longrightarrow>
      leaf_pte 2 pt va' (kmem_mem t) = (if va' div PGSIZE = va div PGSIZE then v else leaf_pte 2 pt va' (kmem_mem s))"
proof -
  have ok: "tree_ok 2 pt (kmem_mem s)" "\<forall>q\<in>tpages 2 pt (kmem_mem s). q mod PGSIZE = 0" "free_ok kend s ps"
    "tpages 2 pt (kmem_mem s) \<inter> set ps = {}" "\<forall>q\<in>tpages 2 pt (kmem_mem s). is_page kend q"
    using assms(1) page_aligned [of kend] by (auto simp: vm_inv_def)
  have "kmem_mem t = store64 p v (kmem_mem s)" by (simp add: t set_pte_def)
  note L = leaf_store [OF ok(1,2) assms(2,3) v this]
  show "pte_at p s = leaf_pte 2 pt va (kmem_mem s)" using L by blast
  show sub: "tpages 2 pt (kmem_mem t) \<subseteq> tpages 2 pt (kmem_mem s)" using L by blast
  have out: "kmem_mem t a = kmem_mem s a" if "\<not> in_pages (tpages 2 pt (kmem_mem s)) a" for a
  proof -
    from L obtain q where "q \<in> tpages 2 pt (kmem_mem s)" "q \<le> p" "p + 8 \<le> q + PGSIZE" by blast
    then show ?thesis unfolding t set_pte_def using that by (simp, intro store_outside) (force simp: in_pages_def)
  qed
  then show "\<not> in_pages (tpages 2 pt (kmem_mem s)) a \<Longrightarrow> kmem_mem t a = kmem_mem s a" .
  have "free_ok kend t ps"
  proof (rule free_ok_frame [OF ok(3)], goal_cases)
    case 1 then show ?case by (simp add: t set_pte_def)
  next
    case (2 a)
    then show ?case using ok(2,4) free_ok_pages [OF ok(3)] page_aligned [of kend]
      by (intro out in_pages_apart [OF _ _ 2]) auto
  qed
  then show "vm_inv 2 kend pt t ps" using L ok(4,5) sub by (auto simp: vm_inv_def)
  show "leaf_pte 2 pt va' (kmem_mem t) = (if va' div PGSIZE = va div PGSIZE then v else leaf_pte 2 pt va' (kmem_mem s))"
    if "va < MAXVA" "va' < MAXVA" using L same_page [OF that] by simp
qed

section \<open>Mapping pages\<close>

text \<open>The entry \<open>walk\<close> finds for an address, 0 where there is none.\<close>

definition pte_of :: "nat \<Rightarrow> nat \<Rightarrow> kmem \<Rightarrow> nat" where
  "pte_of pt va s = (let (p, s') = walk_from 2 pt va False s in if p = 0 then 0 else pte_at p s)"

lemma walk_leaf:
  assumes "0 \<notin> tpages l pt (kmem_mem s)" and "walk_from l pt va False s = (p, t)"
  shows "leaf_pte l pt va (kmem_mem s) = (if p = 0 then 0 else pte_at p s)"
  using assms
proof (induction l arbitrary: pt)
  case (Suc l)
  let ?e = "ent pt (PX (Suc l) va) (kmem_mem s)"
  show ?case
  proof (cases "odd ?e")
    case True
    have "0 \<notin> tpages l (PTE2PA ?e) (kmem_mem s)" using Suc.prems(1) tpages_child [OF PX_less True, of l] by blast
    then show ?thesis using Suc True by (simp add: Let_def ent_def [symmetric] has_V)
  qed (use Suc.prems in \<open>simp add: Let_def ent_def [symmetric] has_V\<close>)
qed (auto simp: ent_def)

lemma pte_of_leaf:
  assumes "vm_inv 2 kend pt s ps" and "0 < kend"
  shows "pte_of pt va s = leaf_pte 2 pt va (kmem_mem s)"
proof -
  have "0 \<notin> tpages 2 pt (kmem_mem s)" using assms by (auto simp: vm_inv_def is_page_def)
  then show ?thesis by (cases "walk_from 2 pt va False s") (auto simp: pte_of_def walk_leaf)
qed

text \<open>What mapping \<open>n\<close> pages at \<open>a\<close> has done.\<close>

definition mapped :: "nat \<Rightarrow> nat \<Rightarrow> nat \<Rightarrow> nat \<Rightarrow> nat \<Rightarrow> nat \<Rightarrow> kmem \<Rightarrow> nat list \<Rightarrow> int \<Rightarrow> kmem \<Rightarrow> nat list \<Rightarrow> bool" where
  "mapped kend pt n a pa perm s ps r t ps' \<longleftrightarrow> vm_inv 2 kend pt t ps' \<and> set ps' \<subseteq> set ps \<and>
     (r = 0 \<or> r = -1 \<and> ps' = [] \<and> length ps < 2 * n) \<and>
     tpages 2 pt (kmem_mem t) \<subseteq> tpages 2 pt (kmem_mem s) \<union> set ps \<and>
     (\<forall>x. \<not> in_pages (tpages 2 pt (kmem_mem s) \<union> set ps) x \<longrightarrow> kmem_mem t x = kmem_mem s x) \<and>
     (\<forall>i < n. r = 0 \<longrightarrow> (\<forall>d < PGSIZE. leaf_pte 2 pt (a + i * PGSIZE + d) (kmem_mem t) = mk_pte (pa + i * PGSIZE) perm)) \<and>
     (\<forall>va < MAXVA. va < a \<or> a + n * PGSIZE \<le> va \<longrightarrow> leaf_pte 2 pt va (kmem_mem t) = leaf_pte 2 pt va (kmem_mem s))"

lemma same_page_at: "a mod PGSIZE = 0 \<Longrightarrow> va div PGSIZE = a div PGSIZE \<longleftrightarrow> a \<le> va \<and> va < a + PGSIZE"
proof -
  assume "a mod PGSIZE = 0"
  then obtain k where k: "a = PGSIZE * k" by (auto simp: mod_eq_0_iff_dvd elim!: dvdE)
  have "va div 4096 = k \<longleftrightarrow> 4096 * k \<le> va \<and> va < 4096 * k + 4096"
    using mult_div_mod_eq [of 4096 va] mod_less_divisor [of 4096 va] by (auto simp: div_nat_eqI)
  then show ?thesis by (simp add: k PGSIZE_def)
qed

lemma mapped_step:
  assumes a: "a mod PGSIZE = 0" "a + Suc n * PGSIZE \<le> MAXVA"
    and w: "walked 2 kend pt a s ps p s1 ps1" "page_use 2 p ps ps1" "p \<noteq> 0" and v: "mk_pte pa perm < 256 ^ 8"
    and s2: "s2 = set_pte p (mk_pte pa perm) s1"
    and m: "mapped kend pt n (a + PGSIZE) (pa + PGSIZE) perm s2 ps1 r t ps'"
  shows "mapped kend pt (Suc n) a pa perm s ps r t ps'"
proof -
  let ?P = "\<lambda>s. tpages 2 pt (kmem_mem s)" and ?L = "\<lambda>va s. leaf_pte 2 pt va (kmem_mem s)"
  have g: "grown 2 kend pt s ps s1 ps1" and f: "walk_from 2 pt a False s1 = (p, s1)" using w by (simp_all add: walked_def)
  then have inv: "vm_inv 2 kend pt s1 ps1" by (simp add: grown_def)
  note O = map_one [OF inv f w(3) v s2]
  have aM: "a < MAXVA" using a by (simp add: PGSIZE_def)
  have sub: "?P s1 \<subseteq> ?P s \<union> set ps" "?P s2 \<subseteq> ?P s1" "set ps1 \<subseteq> set ps" "?P t \<subseteq> ?P s2 \<union> set ps1"
    using g O(3) m by (auto simp: grown_def mapped_def)
  have leaf: "?L va s2 = (if a \<le> va \<and> va < a + PGSIZE then mk_pte pa perm else ?L va s)" if "va < MAXVA" for va
    using O(5) [OF aM that] g same_page_at [OF a(1)] by (simp add: grown_def)
  have mem: "kmem_mem t x = kmem_mem s x" if x: "\<not> in_pages (?P s \<union> set ps) x" for x
  proof -
    have sub': "?P s2 \<union> set ps1 \<subseteq> ?P s \<union> set ps" "?P s \<union> (set ps - set ps1) \<subseteq> ?P s \<union> set ps" using sub by auto
    have "\<not> in_pages (?P s2 \<union> set ps1) x" by (rule notI) (rule notE [OF x in_pages_mono [OF _ sub'(1)]])
    moreover have "\<not> in_pages (?P s1) x" by (rule notI) (rule notE [OF x in_pages_mono [OF _ sub(1)]])
    moreover have "\<not> in_pages (?P s \<union> (set ps - set ps1)) x" by (rule notI) (rule notE [OF x in_pages_mono [OF _ sub'(2)]])
    ultimately show ?thesis using m O(4) [of x] g by (simp add: mapped_def grown_def)
  qed
  have later: "?L va t = ?L va s2" if "va < MAXVA" "va < a + PGSIZE \<or> a + PGSIZE + n * PGSIZE \<le> va" for va
    using m that unfolding mapped_def by blast
  have new: "?L (a + i * PGSIZE + d) t = mk_pte (pa + i * PGSIZE) perm" if i: "i < Suc n" "r = 0" "d < PGSIZE" for i d
  proof (cases i)
    case 0
    have "a + d < MAXVA" using a i(3) by (simp add: PGSIZE_def)
    then show ?thesis using later [of "a + d"] leaf [of "a + d"] i 0 by simp
  next
    case (Suc k)
    then have "?L (a + PGSIZE + k * PGSIZE + d) t = mk_pte (pa + PGSIZE + k * PGSIZE) perm" using m i by (simp add: mapped_def)
    then show ?thesis by (simp add: Suc algebra_simps)
  qed
  have old: "?L va t = ?L va s" if "va < MAXVA" "va < a \<or> a + Suc n * PGSIZE \<le> va" for va
    using later [OF that(1)] leaf [OF that(1)] that(2) by auto
  have "r = 0 \<or> r = - 1 \<and> ps' = [] \<and> length ps < 2 * Suc n" using m w(2) by (auto simp: mapped_def page_use_def)
  moreover have "?P t \<subseteq> ?P s \<union> set ps" "set ps' \<subseteq> set ps" using sub m by (auto simp: mapped_def)
  ultimately show ?thesis using mem new old m unfolding mapped_def by blast
qed

lemma map_pages_mapped:
  assumes "0 < kend" and "perm < 1024" and "vm_inv 2 kend pt s ps"
    and "a mod PGSIZE = 0" and "a + n * PGSIZE \<le> MAXVA" and "pa mod PGSIZE = 0" and "pa + n * PGSIZE \<le> 2 ^ 56"
    and "\<forall>i < n. even (leaf_pte 2 pt (a + i * PGSIZE) (kmem_mem s))"
  shows "\<exists>r t ps'. map_pages n pt a pa perm s = Inr (r, t) \<and> mapped kend pt n a pa perm s ps r t ps'"
  using assms(3-)
proof (induction n arbitrary: s ps a pa)
  case 0
  then show ?case by (auto simp: mapped_def)
next
  case (Suc n)
  have aM: "a < MAXVA" using Suc.prems(3) by (simp add: PGSIZE_def)
  obtain p s1 where w: "walk_from 2 pt a True s = (p, s1)" by fastforce
  obtain ps1 where W: "walked 2 kend pt a s ps p s1 ps1" "page_use 2 p ps ps1" using walk_alloc [OF assms(1) Suc.prems(1) w] by blast
  then have g: "grown 2 kend pt s ps s1 ps1" by (simp add: walked_def)
  show ?case
  proof (cases "p = 0")
    case True
    have "mapped kend pt (Suc n) a pa perm s ps (-1) s1 ps1"
      using g W True in_pages_mono [of "tpages 2 pt (kmem_mem s) \<union> (set ps - set ps1)" _ "tpages 2 pt (kmem_mem s) \<union> set ps"]
      by (auto simp: mapped_def walked_def page_use_def grown_def)
    then show ?thesis using True aM w by (auto simp: walk_def)
  next
    case False
    let ?v = "mk_pte pa perm"
    define s2 where "s2 = set_pte p ?v s1"
    have v: "?v < 256 ^ 8" using Suc.prems(4,5) assms(2) by (intro mk_pte_fields(4)) (simp_all add: PGSIZE_def)
    have inv: "vm_inv 2 kend pt s1 ps1" "walk_from 2 pt a False s1 = (p, s1)" using g W(1) False by (simp_all add: grown_def walked_def)
    note O = map_one [OF inv False v s2_def]
    have ev: "even (pte_at p s1)" using O(1) g Suc.prems(6) by (auto simp: grown_def)
    have run: "map_pages (Suc n) pt a pa perm s = map_pages n pt (a + PGSIZE) (pa + PGSIZE) perm s2"
      using aM w False ev Suc.prems(3,5) by (simp add: walk_def has_V s2_def mk_pte_def MAXVA_def PGSIZE_def)
    have "even (leaf_pte 2 pt (a + PGSIZE + i * PGSIZE) (kmem_mem s2))" if "i < n" for i
    proof -
      let ?b = "a + PGSIZE + i * PGSIZE"
      have "Suc (Suc i) * PGSIZE \<le> Suc n * PGSIZE" using that by (intro mult_le_mono1) simp
      then have b: "?b < MAXVA" using Suc.prems(3) by (simp add: PGSIZE_def)
      have "leaf_pte 2 pt ?b (kmem_mem s2) = leaf_pte 2 pt (a + Suc i * PGSIZE) (kmem_mem s)"
        using O(5) [OF aM b] same_page_at [OF Suc.prems(2), of ?b] g by (simp add: grown_def add.assoc)
      then show ?thesis using Suc.prems(6) [rule_format, of "Suc i"] that by simp
    qed
    then have "\<exists>r t ps'. map_pages n pt (a + PGSIZE) (pa + PGSIZE) perm s2 = Inr (r, t) \<and>
        mapped kend pt n (a + PGSIZE) (pa + PGSIZE) perm s2 ps1 r t ps'"
      using Suc.prems(2-5) O(2) by (intro Suc.IH) (simp_all add: algebra_simps)
    then show ?thesis using mapped_step [OF Suc.prems(2,3) W False v s2_def] unfolding run by blast
  qed
qed

lemma mapped_inv: "mapped kend pt n a pa perm s ps r t ps' \<Longrightarrow> vm_inv 2 kend pt t ps'"
  by (simp add: mapped_def)

lemma walkaddr_pte: "walkaddr pt va s =
    (if va < MAXVA \<and> odd (pte_of pt va s) \<and> has_bits (pte_of pt va s) PTE_U then PTE2PA (pte_of pt va s) else 0)"
  by (auto simp: walkaddr_def pte_of_def has_V Let_def split: prod.splits)

lemma or_U: "has_bits (mk_pte pa perm) PTE_U \<longleftrightarrow> has_bits perm PTE_U" if "perm < 1024"
proof -
  have U: "has_bits x PTE_U \<longleftrightarrow> bit x 4" for x
    using and_exp_eq_0_iff_not_bit [of x 4] by (simp add: has_bits_def PTE_U_def)
  have "bit (pa div 4096 * 1024) (4 :: nat) = False"
    using bit_push_bit_iff [of 10 "pa div 4096" 4] by (simp add: push_bit_eq_mult)
  then show ?thesis by (simp add: U mk_pte_def PA2PTE_def PTE_V_def bit_or_iff bit_1_iff)
qed

text \<open>
  C4. \<open>mappages\<close> of \<open>n\<close> unmapped pages keeps the page table a tree of its own pages, apart from the free
  list, and writes to no page outside the table and the free list. It returns 0 or -1, and 0 whenever
  two free pages per page mapped are at hand. After 0, \<open>walk\<close> finds for every address in page \<open>i\<close> of the
  range an entry for page \<open>i\<close> of the physical range with the permissions asked for, so \<open>walkaddr\<close> of a
  user mapping translates to it. In either case no other address is translated differently than before.
\<close>

theorem mappages_maps:
  assumes "0 < kend" and "vm_inv 2 kend pt s ps" and "perm < 1024" and "0 < n"
    and "va mod PGSIZE = 0" and "va + n * PGSIZE \<le> MAXVA" and "pa mod PGSIZE = 0" and "pa + n * PGSIZE \<le> 2 ^ 56"
    and "\<forall>i < n. even (pte_of pt (va + i * PGSIZE) s)"
  shows "\<exists>r t ps'. mappages pt va (n * PGSIZE) pa perm s = Inr (r, t) \<and> vm_inv 2 kend pt t ps' \<and> set ps' \<subseteq> set ps \<and>
    (r = 0 \<or> r = -1 \<and> ps' = [] \<and> length ps < 2 * n) \<and>
    (\<forall>x. \<not> in_pages (tpages 2 pt (kmem_mem s) \<union> set ps) x \<longrightarrow> kmem_mem t x = kmem_mem s x) \<and>
    (\<forall>i < n. \<forall>d < PGSIZE. r = 0 \<longrightarrow>
       PTE2PA (pte_of pt (va + i * PGSIZE + d) t) = pa + i * PGSIZE \<and>
       PTE_FLAGS (pte_of pt (va + i * PGSIZE + d) t) = perm OR PTE_V \<and>
       walkaddr pt (va + i * PGSIZE + d) t = (if has_bits perm PTE_U then pa + i * PGSIZE else 0)) \<and>
    (\<forall>a < MAXVA. a < va \<or> va + n * PGSIZE \<le> a \<longrightarrow> pte_of pt a t = pte_of pt a s)"
proof -
  have "\<forall>i < n. even (leaf_pte 2 pt (va + i * PGSIZE) (kmem_mem s))" using assms(9) pte_of_leaf [OF assms(2,1)] by simp
  then obtain r t ps' where R: "map_pages n pt va pa perm s = Inr (r, t)" and m: "mapped kend pt n va pa perm s ps r t ps'"
    using map_pages_mapped [OF assms(1,3,2,5-8)] by blast
  note P = pte_of_leaf [OF mapped_inv [OF m] assms(1)] pte_of_leaf [OF assms(2,1)]
  have run: "mappages pt va (n * PGSIZE) pa perm s = Inr (r, t)" using R assms(4,5) by (simp add: mappages_def PGSIZE_def)
  have new: "PTE2PA (pte_of pt a t) = pa + i * PGSIZE \<and> PTE_FLAGS (pte_of pt a t) = perm OR PTE_V \<and>
      walkaddr pt a t = (if has_bits perm PTE_U then pa + i * PGSIZE else 0)"
    if i: "i < n" "d < PGSIZE" "r = 0" and a: "a = va + i * PGSIZE + d" for i d a
  proof -
    have i1: "Suc i * PGSIZE \<le> n * PGSIZE" using i(1) by (intro mult_le_mono1) simp
    then have "a < MAXVA" "pa + i * PGSIZE < 2 ^ 56" using assms(6,8) i(2) a by (simp_all add: PGSIZE_def)
    moreover have "(pa + i * PGSIZE) mod PGSIZE = 0" using assms(7) by simp
    moreover have "pte_of pt a t = mk_pte (pa + i * PGSIZE) perm" using m i P(1) a unfolding mapped_def by simp
    ultimately show ?thesis using mk_pte_fields [OF assms(3)] or_U [OF assms(3)] by (simp add: walkaddr_pte PTE_V_def)
  qed
  show ?thesis using run new m P unfolding mapped_def by (intro exI [of _ r] exI [of _ t] exI [of _ ps'] conjI) auto
qed

text \<open>An empty table at 8192 and two free pages, a page mapped at address 0 for the user.\<close>

definition fresh_mem :: kmem where
  "fresh_mem = \<lparr>kmem_mem = (\<lambda>a. if a = 12289 then 64 else 0), freelist = 12288\<rparr>"

lemma load64_bytes: "load64 p m = unat (m p) + 256 * (unat (m (p + 1)) + 256 * load 6 (p + 2) m)"
proof -
  have "load64 p m = load (Suc (Suc 6)) p m" by simp
  then show ?thesis by (simp only: load.simps) (simp add: add.commute)
qed

lemma fresh_inv: "vm_inv 2 4096 8192 fresh_mem [12288, 16384]"
proof -
  have z: "kmem_mem fresh_mem a = 0" if "8192 \<le> a" "a < 8192 + PGSIZE" for a
    using that by (simp add: fresh_mem_def PGSIZE_def)
  have E: "tpages 2 8192 (kmem_mem fresh_mem) = {8192}" "tree_ok 2 8192 (kmem_mem fresh_mem)"
    by (rule empty_table(1), rule z, assumption+) (rule empty_table(2), rule z)
  have "load 6 12290 (kmem_mem fresh_mem) = 0" "load64 16384 (kmem_mem fresh_mem) = 0"
    by (intro load_zero; simp add: fresh_mem_def)+
  moreover have "load64 12288 (kmem_mem fresh_mem) = 16384"
    unfolding load64_bytes using calculation(1) by (simp add: fresh_mem_def)
  ultimately have "linked (kmem_mem fresh_mem) (freelist fresh_mem) [12288, 16384]"
    by simp (simp add: fresh_mem_def)
  then show ?thesis unfolding vm_inv_def free_ok_def using E
    by (simp del: linked.simps add: is_page_def PGSIZE_def PHYSTOP_def KERNBASE_def)
qed

lemma fresh_leaf: "leaf_pte 2 8192 va (kmem_mem fresh_mem) = 0"
  by (rule empty_table(3)) (simp add: fresh_mem_def PGSIZE_def)

theorem mappages_maps_witness: "\<exists>t. mappages 8192 0 4096 20480 22 fresh_mem = Inr (0, t) \<and> walkaddr 8192 5 t = 20480"
proof -
  have "even (pte_of 8192 0 fresh_mem)" by (simp add: pte_of_leaf [OF fresh_inv] fresh_leaf)
  then have "\<exists>r t ps'. mappages 8192 0 (1 * PGSIZE) 20480 22 fresh_mem = Inr (r, t) \<and> (r = 0 \<or> r = -1 \<and> length [12288, 16384 :: nat] < 2 * 1) \<and>
      (r = 0 \<longrightarrow> walkaddr 8192 (0 + 0 * PGSIZE + 5) t = (if has_bits 22 PTE_U then 20480 + 0 * PGSIZE else 0))"
    using mappages_maps [of 4096 8192 fresh_mem "[12288, 16384]" 22 1 0 20480] fresh_inv
    by (fastforce simp: PGSIZE_def MAXVA_def)
  then show ?thesis by (auto simp: PGSIZE_def has_bits_def PTE_U_def)
qed

end
