(* ===== verification/Kernel_Bio.thy ===== *)
theory Kernel_Bio
  imports Prelude
begin

text \<open>
  The buffer cache of \<^verbatim>\<open>xv6/kernel/bio.c\<close> over one disk. The buffers stay in an array; the
  doubly linked list through \<open>prev\<close> and \<open>next\<close> is the list of their indices, the most recently
  used first. The spin lock makes each operation atomic; the sleep lock of a buffer is its owner's
  pid, and an operation that would sleep on it is \<open>Blocked\<close>.
\<close>

section \<open>State\<close>

type_synonym block = "byte list"

definition NBUF :: nat where "NBUF = 30"
definition BSIZE :: nat where "BSIZE = 1024"

record buf =
  b_valid :: bool
  b_dev :: nat
  b_blockno :: nat
  b_owner :: "int option"
  b_refcnt :: nat
  b_data :: block

text \<open>\<open>me\<close> is \<open>myproc()->pid\<close>; \<open>writes\<close> records the disk writes in order.\<close>

record bstate =
  bufs :: "buf list"
  lru :: "nat list"
  disk :: "nat \<Rightarrow> block"
  writes :: "(nat \<times> block) list"
  me :: int

definition get_buf :: "nat \<Rightarrow> 'a bstate_scheme \<Rightarrow> buf" where
  "get_buf i s = bufs s ! i"

definition set_buf :: "nat \<Rightarrow> buf \<Rightarrow> 'a bstate_scheme \<Rightarrow> 'a bstate_scheme" where
  "set_buf i b s = s\<lparr>bufs := (bufs s)[i := b]\<rparr>"

section \<open>Operations\<close>

definition empty_buf :: buf where
  "empty_buf = \<lparr>b_valid = False, b_dev = 0, b_blockno = 0, b_owner = None, b_refcnt = 0,
     b_data = replicate BSIZE 0\<rparr>"

text \<open>The array is zero at boot; each buffer is inserted at the head of the list.\<close>

definition binit :: "'a bstate_scheme \<Rightarrow> 'a bstate_scheme" where
  "binit s = s\<lparr>bufs := replicate NBUF empty_buf, lru := foldl (\<lambda>l i. i # l) [] [0..<NBUF]\<rparr>"

definition inc32 :: "nat \<Rightarrow> nat" where
  "inc32 n = (n + 1) mod 2 ^ 32"

definition dec32 :: "nat \<Rightarrow> nat" where
  "dec32 n = (n + 2 ^ 32 - 1) mod 2 ^ 32"

definition acquiresleep :: "nat \<Rightarrow> 'a bstate_scheme \<Rightarrow> kerr + 'a bstate_scheme" where
  "acquiresleep i s =
     (case b_owner (get_buf i s) of
        Some _ \<Rightarrow> Inl Blocked
      | None \<Rightarrow> Inr (set_buf i ((get_buf i s)\<lparr>b_owner := Some (me s)\<rparr>) s))"

definition holdingsleep :: "nat \<Rightarrow> 'a bstate_scheme \<Rightarrow> bool" where
  "holdingsleep i s \<longleftrightarrow> b_owner (get_buf i s) = Some (me s)"

definition hit :: "nat \<Rightarrow> nat \<Rightarrow> 'a bstate_scheme \<Rightarrow> nat option" where
  "hit dev blockno s =
     find (\<lambda>i. b_dev (get_buf i s) = dev \<and> b_blockno (get_buf i s) = blockno) (lru s)"

definition victim :: "'a bstate_scheme \<Rightarrow> nat option" where
  "victim s = find (\<lambda>i. b_refcnt (get_buf i s) = 0) (rev (lru s))"

definition bget :: "nat \<Rightarrow> nat \<Rightarrow> 'a bstate_scheme \<Rightarrow> kerr + nat \<times> 'a bstate_scheme" where
  "bget dev blockno s =
     (case hit dev blockno s of
        Some i \<Rightarrow>
          let b = get_buf i s in
          andthen (acquiresleep i (set_buf i (b\<lparr>b_refcnt := inc32 (b_refcnt b)\<rparr>) s))
            (\<lambda>s'. Inr (i, s'))
      | None \<Rightarrow>
          (case victim s of
             Some i \<Rightarrow>
               andthen (acquiresleep i (set_buf i ((get_buf i s)
                 \<lparr>b_dev := dev, b_blockno := blockno, b_valid := False, b_refcnt := 1\<rparr>) s))
                 (\<lambda>s'. Inr (i, s'))
           | None \<Rightarrow> Inl (Panic ''bget: no buffers'')))"

text \<open>\<open>virtio_disk_rw\<close> moves one block and returns when the device has done it.\<close>

definition virtio_read :: "nat \<Rightarrow> 'a bstate_scheme \<Rightarrow> 'a bstate_scheme" where
  "virtio_read i s =
     set_buf i ((get_buf i s)\<lparr>b_data := disk s (b_blockno (get_buf i s))\<rparr>) s"

definition virtio_write :: "nat \<Rightarrow> 'a bstate_scheme \<Rightarrow> 'a bstate_scheme" where
  "virtio_write i s =
     (let b = get_buf i s
      in s\<lparr>disk := (disk s)(b_blockno b := b_data b), writes := writes s @ [(b_blockno b, b_data b)]\<rparr>)"

definition bread :: "nat \<Rightarrow> nat \<Rightarrow> 'a bstate_scheme \<Rightarrow> kerr + nat \<times> 'a bstate_scheme" where
  "bread dev blockno s =
     andthen (bget dev blockno s)
       (\<lambda>(i, s1).
          if \<not> b_valid (get_buf i s1) then
            (let s2 = virtio_read i s1 in Inr (i, set_buf i ((get_buf i s2)\<lparr>b_valid := True\<rparr>) s2))
          else Inr (i, s1))"

definition bwrite :: "nat \<Rightarrow> 'a bstate_scheme \<Rightarrow> kerr + 'a bstate_scheme" where
  "bwrite i s = (if \<not> holdingsleep i s then Inl (Panic ''bwrite'') else Inr (virtio_write i s))"

definition brelse :: "nat \<Rightarrow> 'a bstate_scheme \<Rightarrow> kerr + 'a bstate_scheme" where
  "brelse i s =
     (if \<not> holdingsleep i s then Inl (Panic ''brelse'')
      else
        let b = get_buf i s; r = dec32 (b_refcnt b);
            s' = set_buf i (b\<lparr>b_owner := None, b_refcnt := r\<rparr>) s
        in Inr (if r = 0 then s'\<lparr>lru := i # remove1 i (lru s')\<rparr> else s'))"

definition bpin :: "nat \<Rightarrow> 'a bstate_scheme \<Rightarrow> 'a bstate_scheme" where
  "bpin i s = set_buf i ((get_buf i s)\<lparr>b_refcnt := inc32 (b_refcnt (get_buf i s))\<rparr>) s"

definition bunpin :: "nat \<Rightarrow> 'a bstate_scheme \<Rightarrow> 'a bstate_scheme" where
  "bunpin i s = set_buf i ((get_buf i s)\<lparr>b_refcnt := dec32 (b_refcnt (get_buf i s))\<rparr>) s"

text \<open>What a holder of the buffer does to \<open>b->data\<close>.\<close>

definition set_data :: "nat \<Rightarrow> block \<Rightarrow> 'a bstate_scheme \<Rightarrow> 'a bstate_scheme" where
  "set_data i d s = set_buf i ((get_buf i s)\<lparr>b_data := d\<rparr>) s"

section \<open>What the cache shows\<close>

text \<open>
  The contents of a block as the kernel sees it, the references to it and the owner of its lock,
  whether or not a buffer holds it.
\<close>

definition cur :: "nat \<Rightarrow> 'a bstate_scheme \<Rightarrow> nat \<Rightarrow> block" where
  "cur dev s n =
     (case hit dev n s of
        Some i \<Rightarrow> if b_valid (get_buf i s) then b_data (get_buf i s) else disk s n
      | None \<Rightarrow> disk s n)"

definition refs :: "nat \<Rightarrow> 'a bstate_scheme \<Rightarrow> nat \<Rightarrow> nat" where
  "refs dev s n = (case hit dev n s of Some i \<Rightarrow> b_refcnt (get_buf i s) | None \<Rightarrow> 0)"

definition owner :: "nat \<Rightarrow> 'a bstate_scheme \<Rightarrow> nat \<Rightarrow> int option" where
  "owner dev s n = (case hit dev n s of Some i \<Rightarrow> b_owner (get_buf i s) | None \<Rightarrow> None)"

text \<open>
  The invariant for a kernel with the one device \<open>dev\<close>: the list is a permutation of the array,
  no block is in two buffers, and a buffer nobody references is unlocked and clean.
\<close>

definition bcache_ok :: "nat \<Rightarrow> 'a bstate_scheme \<Rightarrow> bool" where
  "bcache_ok dev s \<longleftrightarrow> dev \<noteq> 0 \<and> length (bufs s) = NBUF \<and> distinct (lru s) \<and> set (lru s) = {..<NBUF} \<and>
     (\<forall>i<NBUF. \<forall>j<NBUF. b_dev (get_buf i s) = dev \<longrightarrow> b_dev (get_buf j s) = dev \<longrightarrow>
        b_blockno (get_buf i s) = b_blockno (get_buf j s) \<longrightarrow> i = j) \<and>
     (\<forall>i<NBUF. b_dev (get_buf i s) \<noteq> dev \<longrightarrow> b_dev (get_buf i s) = 0 \<and> b_refcnt (get_buf i s) = 0 \<and>
        \<not> b_valid (get_buf i s)) \<and>
     (\<forall>i<NBUF. b_refcnt (get_buf i s) < 2 ^ 32 - 1) \<and>
     (\<forall>i<NBUF. b_refcnt (get_buf i s) = 0 \<longrightarrow> b_owner (get_buf i s) = None \<and>
        (b_valid (get_buf i s) \<longrightarrow> b_data (get_buf i s) = disk s (b_blockno (get_buf i s))))"

lemma bcache_okD:
  assumes "bcache_ok dev s"
  shows "dev \<noteq> 0" "length (bufs s) = NBUF" "distinct (lru s)" "set (lru s) = {..<NBUF}"
    and "i < NBUF \<Longrightarrow> j < NBUF \<Longrightarrow> b_dev (get_buf i s) = dev \<Longrightarrow> b_dev (get_buf j s) = dev \<Longrightarrow>
        b_blockno (get_buf i s) = b_blockno (get_buf j s) \<Longrightarrow> i = j"
    and "i < NBUF \<Longrightarrow> b_dev (get_buf i s) \<noteq> dev \<Longrightarrow> b_dev (get_buf i s) = 0 \<and> b_refcnt (get_buf i s) = 0 \<and>
        \<not> b_valid (get_buf i s)"
    and "i < NBUF \<Longrightarrow> b_refcnt (get_buf i s) < 2 ^ 32 - 1"
    and "i < NBUF \<Longrightarrow> b_refcnt (get_buf i s) = 0 \<Longrightarrow> b_owner (get_buf i s) = None"
    and "i < NBUF \<Longrightarrow> b_refcnt (get_buf i s) = 0 \<Longrightarrow> b_valid (get_buf i s) \<Longrightarrow>
        b_data (get_buf i s) = disk s (b_blockno (get_buf i s))"
  using assms unfolding bcache_ok_def by blast+

lemma get_set_buf:
  "i < length (bufs s) \<Longrightarrow> get_buf j (set_buf i b s) = (if j = i then b else get_buf j s)"
  by (simp add: get_buf_def set_buf_def nth_list_update)

lemma set_buf_fields [simp]:
  "lru (set_buf i b s) = lru s" "disk (set_buf i b s) = disk s" "writes (set_buf i b s) = writes s"
  "me (set_buf i b s) = me s" "length (bufs (set_buf i b s)) = length (bufs s)"
  by (simp_all add: set_buf_def)

lemma set_buf_twice [simp]: "set_buf i b (set_buf i c s) = set_buf i b s"
  by (simp add: set_buf_def)

text \<open>Buffer \<open>i\<close> holds block \<open>n\<close>.\<close>

definition holds :: "nat \<Rightarrow> nat \<Rightarrow> nat \<Rightarrow> 'a bstate_scheme \<Rightarrow> bool" where
  "holds dev n i s \<longleftrightarrow> i < NBUF \<and> b_dev (get_buf i s) = dev \<and> b_blockno (get_buf i s) = n"

lemma hit_Some_iff:
  assumes "bcache_ok dev s"
  shows "hit dev n s = Some i \<longleftrightarrow> holds dev n i s"
proof
  assume "hit dev n s = Some i"
  then show "holds dev n i s"
    using bcache_okD(4) [OF assms] nth_mem by (fastforce simp: hit_def find_Some_iff holds_def)
next
  assume i: "holds dev n i s"
  then have "i \<in> set (lru s)" using bcache_okD(4) [OF assms] by (simp add: holds_def)
  with i obtain j where "hit dev n s = Some j"
    by (cases "hit dev n s") (auto simp: hit_def find_None_iff holds_def)
  moreover from this have "holds dev n j s"
    using bcache_okD(4) [OF assms] nth_mem by (fastforce simp: hit_def find_Some_iff holds_def)
  ultimately show "hit dev n s = Some i"
    using bcache_okD(5) [OF assms] i by (metis holds_def)
qed

lemma hit_None_iff:
  assumes "bcache_ok dev s"
  shows "hit dev n s = None \<longleftrightarrow> (\<forall>i. \<not> holds dev n i s)"
  using hit_Some_iff [OF assms] by (metis not_None_eq option.simps(3))

lemma victim_Some:
  assumes "bcache_ok dev s" and "victim s = Some i"
  shows "i < NBUF \<and> b_refcnt (get_buf i s) = 0"
  using assms(2) bcache_okD(4) [OF assms(1)] nth_mem [of _ "rev (lru s)"]
  by (fastforce simp: victim_def find_Some_iff)

lemma victim_None:
  assumes "bcache_ok dev s" and "victim s = None" and "i < NBUF"
  shows "b_refcnt (get_buf i s) > 0"
  using assms bcache_okD(4) [OF assms(1)] by (auto simp: victim_def find_None_iff)

lemma obs_holds:
  assumes "bcache_ok dev s" and "holds dev n i s"
  shows "cur dev s n = (if b_valid (get_buf i s) then b_data (get_buf i s) else disk s n)"
    and "refs dev s n = b_refcnt (get_buf i s)" and "owner dev s n = b_owner (get_buf i s)"
  using iffD2 [OF hit_Some_iff [OF assms(1)] assms(2)] by (simp_all add: cur_def refs_def owner_def)

lemma unreferenced_clean:
  assumes "bcache_ok dev s" and "refs dev s n = 0"
  shows "cur dev s n = disk s n" and "owner dev s n = None"
proof -
  have "cur dev s n = disk s n \<and> owner dev s n = None"
  proof (cases "hit dev n s")
    case None
    then show ?thesis by (simp add: cur_def owner_def)
  next
    case (Some i)
    then have i: "holds dev n i s" using hit_Some_iff [OF assms(1)] by blast
    then have "b_refcnt (get_buf i s) = 0" "i < NBUF" "b_blockno (get_buf i s) = n"
      using assms(2) obs_holds(2) [OF assms(1)] by (auto simp: holds_def)
    then show ?thesis
      using i bcache_okD(8,9) [OF assms(1)] obs_holds [OF assms(1) i] by simp
  qed
  then show "cur dev s n = disk s n" and "owner dev s n = None" by simp_all
qed

text \<open>
  Storing a buffer \<open>b\<close> for block \<open>n\<close> in slot \<open>i\<close>, which holds that block already or holds nothing
  that is referenced while the block is nowhere in the cache.
\<close>

definition slot_for :: "nat \<Rightarrow> nat \<Rightarrow> nat \<Rightarrow> 'a bstate_scheme \<Rightarrow> bool" where
  "slot_for dev n i s \<longleftrightarrow> holds dev n i s \<or>
     i < NBUF \<and> b_refcnt (get_buf i s) = 0 \<and> (\<forall>j. \<not> holds dev n j s)"

definition fits :: "nat \<Rightarrow> nat \<Rightarrow> buf \<Rightarrow> 'a bstate_scheme \<Rightarrow> bool" where
  "fits dev n b s \<longleftrightarrow> b_dev b = dev \<and> b_blockno b = n \<and> b_refcnt b < 2 ^ 32 - 1 \<and>
     (b_refcnt b = 0 \<longrightarrow> b_owner b = None \<and> (b_valid b \<longrightarrow> b_data b = disk s n))"

lemma slot_for_bound: "slot_for dev n i s \<Longrightarrow> i < NBUF"
  by (auto simp: slot_for_def holds_def)

lemma slot_for_unique:
  assumes "bcache_ok dev s" and "slot_for dev n i s" and "holds dev n j s"
  shows "j = i"
proof -
  have "holds dev n i s" using assms(2,3) unfolding slot_for_def by blast
  then show ?thesis
    using bcache_okD(5) [OF assms(1), of i j] assms(3) unfolding holds_def by simp
qed

lemma bcache_ok_set:
  assumes ok: "bcache_ok dev s" and i: "slot_for dev n i s" and b: "fits dev n b s"
  shows "bcache_ok dev (set_buf i b s)"
proof -
  note D = bcache_okD [OF ok]
  have len: "i < length (bufs s)" using i D(2) by (simp add: slot_for_bound)
  have u: "j = i" if "j < NBUF" "b_dev (get_buf j s) = dev" "b_blockno (get_buf j s) = n" for j
    by (rule slot_for_unique [OF ok i]) (simp add: that holds_def)
  have "j = k" if "j < NBUF" "k < NBUF" "b_dev (get_buf j (set_buf i b s)) = dev"
      "b_dev (get_buf k (set_buf i b s)) = dev"
      "b_blockno (get_buf j (set_buf i b s)) = b_blockno (get_buf k (set_buf i b s))" for j k
    using that b len
    by (cases "j = i"; cases "k = i") (auto simp: get_set_buf fits_def dest: u intro: D(5))
  then have "\<forall>j<NBUF. \<forall>k<NBUF. b_dev (get_buf j (set_buf i b s)) = dev \<longrightarrow>
      b_dev (get_buf k (set_buf i b s)) = dev \<longrightarrow>
      b_blockno (get_buf j (set_buf i b s)) = b_blockno (get_buf k (set_buf i b s)) \<longrightarrow> j = k"
    by blast
  moreover have "\<forall>j<NBUF. b_dev (get_buf j (set_buf i b s)) \<noteq> dev \<longrightarrow>
      b_dev (get_buf j (set_buf i b s)) = 0 \<and> b_refcnt (get_buf j (set_buf i b s)) = 0 \<and>
      \<not> b_valid (get_buf j (set_buf i b s))"
    and "\<forall>j<NBUF. b_refcnt (get_buf j (set_buf i b s)) < 2 ^ 32 - 1"
    using b D(6,7) len by (auto simp: get_set_buf fits_def)
  moreover have "\<forall>j<NBUF. b_refcnt (get_buf j (set_buf i b s)) = 0 \<longrightarrow>
      b_owner (get_buf j (set_buf i b s)) = None \<and> (b_valid (get_buf j (set_buf i b s)) \<longrightarrow>
      b_data (get_buf j (set_buf i b s)) = disk s (b_blockno (get_buf j (set_buf i b s))))"
    using b D(8,9) len by (auto simp: get_set_buf fits_def)
  ultimately show ?thesis
    unfolding bcache_ok_def using D(1-4) by simp
qed

lemma hit_set:
  assumes ok: "bcache_ok dev s" and i: "slot_for dev n i s" and b: "fits dev n b s"
  shows "hit dev m (set_buf i b s) =
    (if m = n then Some i else if hit dev m s = Some i then None else hit dev m s)"
proof -
  note D = bcache_okD [OF ok]
  have len: "i < length (bufs s)" using i D(2) by (simp add: slot_for_bound)
  have h: "holds dev m j (set_buf i b s) \<longleftrightarrow> (if j = i then m = n else holds dev m j s)" for j
    using b len D(2) by (auto simp: holds_def get_set_buf fits_def)
  note u = slot_for_unique [OF ok i]
  show ?thesis
  proof (cases "hit dev m (set_buf i b s)")
    case None
    then have "\<forall>j. \<not> holds dev m j (set_buf i b s)"
      using hit_None_iff [OF bcache_ok_set [OF assms]] by blast
    with h have mn: "m \<noteq> n" and no: "\<And>j. j \<noteq> i \<Longrightarrow> \<not> holds dev m j s" by metis+
    then show ?thesis using None hit_Some_iff [OF ok, of m] by (cases "hit dev m s") auto
  next
    case (Some j)
    then have "holds dev m j (set_buf i b s)"
      using hit_Some_iff [OF bcache_ok_set [OF assms]] by blast
    then have "j = i \<and> m = n \<or> j \<noteq> i \<and> holds dev m j s" by (simp add: h split: if_splits)
    then show ?thesis
    proof
      assume "j \<noteq> i \<and> holds dev m j s"
      moreover from this have "m \<noteq> n" using u by blast
      ultimately show ?thesis using Some hit_Some_iff [OF ok, of m j] by simp
    qed (use Some in simp)
  qed
qed

lemma obs_set:
  assumes ok: "bcache_ok dev s" and i: "slot_for dev n i s" and b: "fits dev n b s"
  shows "cur dev (set_buf i b s) = (cur dev s)(n := if b_valid b then b_data b else disk s n)"
    and "refs dev (set_buf i b s) = (refs dev s)(n := b_refcnt b)"
    and "owner dev (set_buf i b s) = (owner dev s)(n := b_owner b)"
proof -
  note D = bcache_okD [OF ok]
  have len: "i < length (bufs s)" using i D(2) by (simp add: slot_for_bound)
  have old: "b_refcnt (get_buf i s) = 0" if "m \<noteq> n" "hit dev m s = Some i" for m
    using that i hit_Some_iff [OF ok] by (auto simp: slot_for_def holds_def)
  have "cur dev (set_buf i b s) m = ((cur dev s)(n := if b_valid b then b_data b else disk s n)) m \<and>
      refs dev (set_buf i b s) m = ((refs dev s)(n := b_refcnt b)) m \<and>
      owner dev (set_buf i b s) m = ((owner dev s)(n := b_owner b)) m" for m
  proof (cases "m \<noteq> n \<and> hit dev m s = Some i")
    case True
    then have "refs dev s m = 0" using old [of m] by (simp add: refs_def)
    then have "cur dev s m = disk s m" "owner dev s m = None" "refs dev s m = 0"
      using unreferenced_clean [OF ok] by simp_all
    then show ?thesis
      using True hit_set [OF assms, of m] by (simp add: cur_def refs_def owner_def)
  next
    case False
    then show ?thesis
      using hit_set [OF assms, of m] len
      by (auto simp: cur_def refs_def owner_def get_set_buf split: option.splits)
  qed
  then show "cur dev (set_buf i b s) = (cur dev s)(n := if b_valid b then b_data b else disk s n)"
    and "refs dev (set_buf i b s) = (refs dev s)(n := b_refcnt b)"
    and "owner dev (set_buf i b s) = (owner dev s)(n := b_owner b)"
    by blast+
qed

section \<open>What the operations do\<close>

text \<open>
  A cache shows contents, references, owners and a disk. \<open>handle n i s\<close> is the position of a
  caller between \<open>bread\<close> and \<open>brelse\<close>: buffer \<open>i\<close> holds block \<open>n\<close>, valid and locked by it.
\<close>

definition handle :: "nat \<Rightarrow> nat \<Rightarrow> nat \<Rightarrow> 'a bstate_scheme \<Rightarrow> bool" where
  "handle dev n i s \<longleftrightarrow> holds dev n i s \<and> b_valid (get_buf i s) \<and> holdingsleep i s"

lemma inc32_simp: "n < 2 ^ 32 - 1 \<Longrightarrow> inc32 n = n + 1"
  by (simp add: inc32_def)

lemma dec32_simp: "0 < n \<Longrightarrow> n < 2 ^ 32 \<Longrightarrow> dec32 n = n - 1"
proof -
  assume n: "0 < n" "n < 2 ^ 32"
  then have "n + 2 ^ 32 - 1 = (n - 1) + 2 ^ 32" by simp
  then have "dec32 n = (n - 1) mod 2 ^ 32" by (simp only: dec32_def mod_add_self2)
  with n show ?thesis by simp
qed

lemma handle_obs:
  assumes "bcache_ok dev s" and "handle dev n i s"
  shows "b_data (get_buf i s) = cur dev s n" and "b_refcnt (get_buf i s) = refs dev s n"
    and "b_owner (get_buf i s) = Some (me s)" and "owner dev s n = Some (me s)"
    and "0 < refs dev s n" and "refs dev s n < 2 ^ 32 - 1" and "i < length (bufs s)"
    and "slot_for dev n i s"
proof -
  have h: "holds dev n i s" "b_valid (get_buf i s)" "b_owner (get_buf i s) = Some (me s)"
    using assms(2) by (simp_all add: handle_def holdingsleep_def)
  note obs = obs_holds [OF assms(1) h(1)]
  have i: "i < NBUF" using h(1) by (simp add: holds_def)
  show "b_data (get_buf i s) = cur dev s n" "b_refcnt (get_buf i s) = refs dev s n"
    "b_owner (get_buf i s) = Some (me s)" "owner dev s n = Some (me s)"
    using h obs by simp_all
  have "b_refcnt (get_buf i s) \<noteq> 0" using bcache_okD(8) [OF assms(1) i] h(3) by auto
  then show "0 < refs dev s n" "refs dev s n < 2 ^ 32 - 1"
    using obs bcache_okD(7) [OF assms(1) i] by simp_all
  show "i < length (bufs s)" using i bcache_okD(2) [OF assms(1)] by simp
  show "slot_for dev n i s" using h(1) by (simp add: slot_for_def)
qed

text \<open>Storing a buffer leaves everything but the observations of its block.\<close>

definition upd :: "nat \<Rightarrow> nat \<Rightarrow> buf \<Rightarrow> 'a bstate_scheme \<Rightarrow> 'a bstate_scheme \<Rightarrow> bool" where
  "upd dev n b s t \<longleftrightarrow> bcache_ok dev t \<and> disk t = disk s \<and> writes t = writes s \<and> me t = me s \<and>
     bstate.more t = bstate.more s \<and>
     cur dev t = (cur dev s)(n := if b_valid b then b_data b else disk s n) \<and>
     refs dev t = (refs dev s)(n := b_refcnt b) \<and> owner dev t = (owner dev s)(n := b_owner b)"

lemma set_buf_upd:
  assumes "bcache_ok dev s" and "slot_for dev n i s" and "fits dev n b s"
  shows "upd dev n b s (set_buf i b s)"
  using bcache_ok_set [OF assms] obs_set [OF assms] by (simp add: upd_def set_buf_def)

lemma bread_result:
  assumes ok: "bcache_ok dev s" and r: "refs dev s n + 2 < 2 ^ 32"
    and free: "owner dev s n = None" and room: "hit dev n s \<noteq> None \<or> victim s \<noteq> None"
  obtains i where "slot_for dev n i s"
    and "bread dev n s = Inr (i, set_buf i \<lparr>b_valid = True, b_dev = dev, b_blockno = n,
      b_owner = Some (me s), b_refcnt = refs dev s n + 1, b_data = cur dev s n\<rparr> s)"
proof (cases "hit dev n s")
  case (Some i)
  then have h: "holds dev n i s" using hit_Some_iff [OF ok] by blast
  then have i: "i < length (bufs s)" using bcache_okD(2) [OF ok] by (simp add: holds_def)
  have rc: "inc32 (b_refcnt (get_buf i s)) = refs dev s n + 1"
    using r obs_holds(2) [OF ok h] by (simp add: inc32_simp)
  have "b_owner (get_buf i s) = None" using free obs_holds(3) [OF ok h] by simp
  with Some h i rc have "bread dev n s = Inr (i, set_buf i \<lparr>b_valid = True, b_dev = dev,
      b_blockno = n, b_owner = Some (me s), b_refcnt = refs dev s n + 1, b_data = cur dev s n\<rparr> s)"
    by (cases "get_buf i s") (simp add: bread_def bget_def acquiresleep_def Let_def get_set_buf
        virtio_read_def obs_holds(1) [OF ok h] holds_def)
  moreover have "slot_for dev n i s" using h by (simp add: slot_for_def)
  ultimately show ?thesis using that by blast
next
  case None
  with room obtain i where v: "victim s = Some i" by auto
  then have i: "i < NBUF" "b_refcnt (get_buf i s) = 0" "i < length (bufs s)"
    using victim_Some [OF ok v] bcache_okD(2) [OF ok] by simp_all
  have "b_owner (get_buf i s) = None" using bcache_okD(8) [OF ok] i by simp
  moreover have "refs dev s n = 0" "cur dev s n = disk s n"
    using None by (simp_all add: refs_def cur_def)
  ultimately have "bread dev n s = Inr (i, set_buf i \<lparr>b_valid = True, b_dev = dev,
      b_blockno = n, b_owner = Some (me s), b_refcnt = refs dev s n + 1, b_data = cur dev s n\<rparr> s)"
    using None v i by (cases "get_buf i s")
      (simp add: bread_def bget_def acquiresleep_def Let_def get_set_buf virtio_read_def)
  moreover have "slot_for dev n i s"
    using None hit_None_iff [OF ok, of n] i by (simp add: slot_for_def)
  ultimately show ?thesis using that by blast
qed

lemma bread_ok:
  assumes "bcache_ok dev s" and "refs dev s n + 2 < 2 ^ 32" and "owner dev s n = None"
    and "hit dev n s \<noteq> None \<or> victim s \<noteq> None"
  obtains i t where "bread dev n s = Inr (i, t)" and "handle dev n i t" and "bcache_ok dev t"
    and "disk t = disk s" "writes t = writes s" "me t = me s" "bstate.more t = bstate.more s"
    and "cur dev t = cur dev s" and "refs dev t = (refs dev s)(n := refs dev s n + 1)"
    and "owner dev t = (owner dev s)(n := Some (me s))"
proof -
  obtain i where i: "slot_for dev n i s" and r: "bread dev n s = Inr (i, set_buf i
      \<lparr>b_valid = True, b_dev = dev, b_blockno = n, b_owner = Some (me s),
       b_refcnt = refs dev s n + 1, b_data = cur dev s n\<rparr> s)" (is "_ = Inr (i, set_buf i ?b s)")
    using bread_result [OF assms] by blast
  have u: "upd dev n ?b s (set_buf i ?b s)"
    using assms(2) by (intro set_buf_upd [OF assms(1) i]) (simp add: fits_def)
  have "handle dev n i (set_buf i ?b s)"
    using slot_for_bound [OF i] bcache_okD(2) [OF assms(1)]
    by (simp add: handle_def holds_def holdingsleep_def get_set_buf)
  from that [OF r this] u show ?thesis by (simp add: upd_def)
qed

lemma set_data_ok:
  assumes ok: "bcache_ok dev s" and h: "handle dev n i s"
  shows "bcache_ok dev (set_data i d s)" and "handle dev n i (set_data i d s)"
    and "cur dev (set_data i d s) = (cur dev s)(n := d)"
    and "refs dev (set_data i d s) = refs dev s" "owner dev (set_data i d s) = owner dev s"
    and "disk (set_data i d s) = disk s" "writes (set_data i d s) = writes s"
    "me (set_data i d s) = me s" "bstate.more (set_data i d s) = bstate.more s"
proof -
  note o = handle_obs [OF ok h]
  have hh: "b_valid (get_buf i s)" "b_dev (get_buf i s) = dev" "b_blockno (get_buf i s) = n"
    using h by (simp_all add: handle_def holds_def)
  have u: "upd dev n ((get_buf i s)\<lparr>b_data := d\<rparr>) s (set_data i d s)"
    unfolding set_data_def using o hh by (intro set_buf_upd [OF ok o(8)]) (simp add: fits_def)
  then show "bcache_ok dev (set_data i d s)" "cur dev (set_data i d s) = (cur dev s)(n := d)"
    "refs dev (set_data i d s) = refs dev s" "owner dev (set_data i d s) = owner dev s"
    "disk (set_data i d s) = disk s" "writes (set_data i d s) = writes s"
    "me (set_data i d s) = me s" "bstate.more (set_data i d s) = bstate.more s"
    using o hh by (simp_all add: upd_def fun_upd_idem_iff)
  show "handle dev n i (set_data i d s)"
    using h o(7) by (simp add: set_data_def handle_def holds_def holdingsleep_def get_set_buf)
qed

lemma bwrite_ok:
  assumes ok: "bcache_ok dev s" and h: "handle dev n i s"
  obtains t where "bwrite i s = Inr t" and "bcache_ok dev t" and "handle dev n i t"
    and "cur dev t = cur dev s" "refs dev t = refs dev s" "owner dev t = owner dev s"
    and "disk t = (disk s)(n := cur dev s n)" "writes t = writes s @ [(n, cur dev s n)]"
    and "me t = me s" "bstate.more t = bstate.more s"
proof -
  note o = handle_obs [OF ok h] and D = bcache_okD [OF ok]
  have hh: "b_valid (get_buf i s)" "holds dev n i s" "b_blockno (get_buf i s) = n"
    using h by (simp_all add: handle_def holds_def)
  let ?t = "virtio_write i s"
  have get: "get_buf j ?t = get_buf j s" "hit dev m ?t = hit dev m s" for j m
    by (simp_all add: virtio_write_def Let_def get_buf_def hit_def)
  have f: "disk ?t = (disk s)(n := cur dev s n)" "writes ?t = writes s @ [(n, cur dev s n)]"
    "me ?t = me s" "bstate.more ?t = bstate.more s" "lru ?t = lru s" "bufs ?t = bufs s"
    using o hh by (simp_all add: virtio_write_def Let_def)
  have "b_blockno (get_buf j s) \<noteq> n"
    if "b_refcnt (get_buf j s) = 0" "j < NBUF" "b_valid (get_buf j s)" for j
    using that obs_holds(2) [OF ok, of n j] o(5) D(6) [of j] unfolding holds_def by auto
  then have "bcache_ok dev ?t"
    unfolding bcache_ok_def get f using D by auto
  moreover have "cur dev ?t = cur dev s" "refs dev ?t = refs dev s" "owner dev ?t = owner dev s"
    using iffD2 [OF hit_Some_iff [OF ok] hh(2)] hh(1)
    by (auto simp: fun_eq_iff cur_def refs_def owner_def get f split: option.splits)
  moreover have "handle dev n i ?t" using h by (simp add: handle_def holds_def holdingsleep_def get f)
  moreover have "bwrite i s = Inr ?t" using h by (simp add: bwrite_def handle_def)
  ultimately show ?thesis using f that by blast
qed

lemma bcache_ok_lru:
  assumes "bcache_ok dev s" and "distinct l" and "set l = {..<NBUF}"
  shows "bcache_ok dev (s\<lparr>lru := l\<rparr>)" and "hit dev n (s\<lparr>lru := l\<rparr>) = hit dev n s"
    and "cur dev (s\<lparr>lru := l\<rparr>) = cur dev s" and "refs dev (s\<lparr>lru := l\<rparr>) = refs dev s"
    and "owner dev (s\<lparr>lru := l\<rparr>) = owner dev s"
proof -
  have get: "get_buf i (s\<lparr>lru := l\<rparr>) = get_buf i s" for i by (simp add: get_buf_def)
  show ok: "bcache_ok dev (s\<lparr>lru := l\<rparr>)"
    using assms unfolding bcache_ok_def get by simp
  have h: "holds dev n i (s\<lparr>lru := l\<rparr>) = holds dev n i s" for n i by (simp add: holds_def get)
  have hit: "hit dev n (s\<lparr>lru := l\<rparr>) = hit dev n s" for n
    using hit_Some_iff [OF ok, of n] hit_Some_iff [OF assms(1), of n] h
    by (cases "hit dev n s") (metis not_None_eq)+
  show "hit dev n (s\<lparr>lru := l\<rparr>) = hit dev n s" by (rule hit)
  show "cur dev (s\<lparr>lru := l\<rparr>) = cur dev s" "refs dev (s\<lparr>lru := l\<rparr>) = refs dev s"
    "owner dev (s\<lparr>lru := l\<rparr>) = owner dev s"
    by (simp_all add: fun_eq_iff cur_def refs_def owner_def hit get split: option.split)
qed

lemma brelse_ok:
  assumes ok: "bcache_ok dev s" and h: "handle dev n i s"
    and clean: "refs dev s n = 1 \<longrightarrow> cur dev s n = disk s n"
  obtains t where "brelse i s = Inr t" and "bcache_ok dev t"
    and "cur dev t = cur dev s" "refs dev t = (refs dev s)(n := refs dev s n - 1)"
    and "owner dev t = (owner dev s)(n := None)" and "disk t = disk s" "writes t = writes s"
    and "me t = me s" "bstate.more t = bstate.more s"
proof -
  note o = handle_obs [OF ok h]
  have hh: "b_valid (get_buf i s)" "b_dev (get_buf i s) = dev" "b_blockno (get_buf i s) = n" "i < NBUF"
    using h by (simp_all add: handle_def holds_def)
  have r: "dec32 (b_refcnt (get_buf i s)) = refs dev s n - 1" using o by (simp add: dec32_simp)
  let ?b = "(get_buf i s)\<lparr>b_owner := None, b_refcnt := refs dev s n - 1\<rparr>"
  define u where "u = set_buf i ?b s"
  have "upd dev n ?b s u"
    unfolding u_def using o hh clean by (intro set_buf_upd [OF ok o(8)]) (auto simp: fits_def)
  then have U: "bcache_ok dev u" "cur dev u = cur dev s" "refs dev u = (refs dev s)(n := refs dev s n - 1)"
      "owner dev u = (owner dev s)(n := None)" "disk u = disk s" "writes u = writes s" "me u = me s"
      "bstate.more u = bstate.more s"
    using o hh by (simp_all add: upd_def fun_upd_idem_iff)
  have l: "distinct (i # remove1 i (lru u))" "set (i # remove1 i (lru u)) = {..<NBUF}"
    using bcache_okD(3,4) [OF U(1)] hh(4) by auto
  have "brelse i s = Inr (if refs dev s n - 1 = 0 then u\<lparr>lru := i # remove1 i (lru u)\<rparr> else u)"
    using h r by (simp add: brelse_def handle_def Let_def u_def)
  then show ?thesis
    using that [of "u\<lparr>lru := i # remove1 i (lru u)\<rparr>"] that [of u] U bcache_ok_lru [OF U(1) l]
    by (cases "refs dev s n - 1 = 0") simp_all
qed

lemma bpin_ok:
  assumes ok: "bcache_ok dev s" and h: "handle dev n i s" and r: "refs dev s n + 2 < 2 ^ 32"
  shows "bcache_ok dev (bpin i s)" and "handle dev n i (bpin i s)"
    and "cur dev (bpin i s) = cur dev s" "refs dev (bpin i s) = (refs dev s)(n := refs dev s n + 1)"
    and "owner dev (bpin i s) = owner dev s" and "disk (bpin i s) = disk s"
    and "writes (bpin i s) = writes s" "me (bpin i s) = me s" "bstate.more (bpin i s) = bstate.more s"
proof -
  note o = handle_obs [OF ok h]
  have hh: "b_valid (get_buf i s)" "b_dev (get_buf i s) = dev" "b_blockno (get_buf i s) = n"
    using h by (simp_all add: handle_def holds_def)
  have e: "inc32 (b_refcnt (get_buf i s)) = refs dev s n + 1" using o r by (simp add: inc32_simp)
  have u: "upd dev n ((get_buf i s)\<lparr>b_refcnt := refs dev s n + 1\<rparr>) s (bpin i s)"
    unfolding bpin_def e using o hh r by (intro set_buf_upd [OF ok o(8)]) (simp add: fits_def)
  then show "bcache_ok dev (bpin i s)" "cur dev (bpin i s) = cur dev s"
    "refs dev (bpin i s) = (refs dev s)(n := refs dev s n + 1)" "owner dev (bpin i s) = owner dev s"
    "disk (bpin i s) = disk s" "writes (bpin i s) = writes s" "me (bpin i s) = me s"
    "bstate.more (bpin i s) = bstate.more s"
    using o hh by (simp_all add: upd_def fun_upd_idem_iff)
  show "handle dev n i (bpin i s)"
    using h o(7) by (simp add: bpin_def handle_def holds_def holdingsleep_def get_set_buf)
qed

lemma bunpin_ok:
  assumes ok: "bcache_ok dev s" and h: "handle dev n i s" and r: "1 < refs dev s n"
  shows "bcache_ok dev (bunpin i s)" and "handle dev n i (bunpin i s)"
    and "cur dev (bunpin i s) = cur dev s" "refs dev (bunpin i s) = (refs dev s)(n := refs dev s n - 1)"
    and "owner dev (bunpin i s) = owner dev s" and "disk (bunpin i s) = disk s"
    and "writes (bunpin i s) = writes s" "me (bunpin i s) = me s" "bstate.more (bunpin i s) = bstate.more s"
proof -
  note o = handle_obs [OF ok h]
  have hh: "b_valid (get_buf i s)" "b_dev (get_buf i s) = dev" "b_blockno (get_buf i s) = n"
    using h by (simp_all add: handle_def holds_def)
  have e: "dec32 (b_refcnt (get_buf i s)) = refs dev s n - 1" using o by (simp add: dec32_simp)
  have u: "upd dev n ((get_buf i s)\<lparr>b_refcnt := refs dev s n - 1\<rparr>) s (bunpin i s)"
    unfolding bunpin_def e using o hh r by (intro set_buf_upd [OF ok o(8)]) (auto simp: fits_def)
  then show "bcache_ok dev (bunpin i s)" "cur dev (bunpin i s) = cur dev s"
    "refs dev (bunpin i s) = (refs dev s)(n := refs dev s n - 1)" "owner dev (bunpin i s) = owner dev s"
    "disk (bunpin i s) = disk s" "writes (bunpin i s) = writes s" "me (bunpin i s) = me s"
    "bstate.more (bunpin i s) = bstate.more s"
    using o hh by (simp_all add: upd_def fun_upd_idem_iff)
  show "handle dev n i (bunpin i s)"
    using h o(7) by (simp add: bunpin_def handle_def holds_def holdingsleep_def get_set_buf)
qed

section \<open>Room in the cache\<close>

lemma referenced_blocks:
  assumes ok: "bcache_ok dev s"
  shows "{m. refs dev s m > 0} = (\<lambda>i. b_blockno (get_buf i s)) ` {i. i < NBUF \<and> b_refcnt (get_buf i s) > 0}"
    and "card {m. refs dev s m > 0} = card {i. i < NBUF \<and> b_refcnt (get_buf i s) > 0}"
proof -
  let ?f = "\<lambda>i. b_blockno (get_buf i s)" and ?I = "{i. i < NBUF \<and> b_refcnt (get_buf i s) > 0}"
  have dev: "b_dev (get_buf i s) = dev" if "i \<in> ?I" for i
    using that bcache_okD(6) [OF ok, of i] by auto
  have "m \<in> ?f ` ?I" if "refs dev s m > 0" for m
  proof -
    from that obtain i where "hit dev m s = Some i" by (auto simp: refs_def split: option.splits)
    then have "holds dev m i s" using hit_Some_iff [OF ok] by blast
    with that obs_holds(2) [OF ok this] show ?thesis by (auto simp: holds_def)
  qed
  moreover have "refs dev s (?f i) > 0" if "i \<in> ?I" for i
    using that dev [OF that] obs_holds(2) [OF ok, of "?f i" i] by (simp add: holds_def)
  ultimately show img: "{m. refs dev s m > 0} = ?f ` ?I" by blast
  have "inj_on ?f ?I"
  proof (rule inj_onI)
    fix i j assume ij: "i \<in> ?I" "j \<in> ?I" "?f i = ?f j"
    then show "i = j" using bcache_okD(5) [OF ok, of i j] dev by simp
  qed
  then show "card {m. refs dev s m > 0} = card ?I" unfolding img by (rule card_image)
qed

lemma card_referenced_le:
  assumes "bcache_ok dev s"
  shows "finite {m. refs dev s m > 0}" and "card {m. refs dev s m > 0} \<le> NBUF"
proof -
  have sub: "{i. i < NBUF \<and> b_refcnt (get_buf i s) > 0} \<subseteq> {..<NBUF}" by auto
  have "card {i. i < NBUF \<and> b_refcnt (get_buf i s) > 0} \<le> card {..<NBUF}"
    by (rule card_mono [OF _ sub]) simp
  then show "card {m. refs dev s m > 0} \<le> NBUF" by (simp add: referenced_blocks(2) [OF assms])
  show "finite {m. refs dev s m > 0}"
    unfolding referenced_blocks(1) [OF assms] using sub by (intro finite_imageI finite_subset [OF sub]) simp
qed

lemma room_iff:
  assumes ok: "bcache_ok dev s" and "refs dev s n = 0"
  shows "hit dev n s \<noteq> None \<or> victim s \<noteq> None \<longleftrightarrow> card {m. refs dev s m > 0} < NBUF"
proof
  assume "card {m. refs dev s m > 0} < NBUF"
  then have less: "card {i. i < NBUF \<and> b_refcnt (get_buf i s) > 0} < NBUF"
    by (simp only: referenced_blocks(2) [OF ok])
  have "victim s \<noteq> None"
  proof
    assume "victim s = None"
    then have "\<forall>i<NBUF. b_refcnt (get_buf i s) > 0" using victim_None [OF ok] by blast
    then have "{i. i < NBUF \<and> b_refcnt (get_buf i s) > 0} = {..<NBUF}" by blast
    with less show False by (simp only: card_lessThan less_irrefl)
  qed
  then show "hit dev n s \<noteq> None \<or> victim s \<noteq> None" by simp
next
  assume "hit dev n s \<noteq> None \<or> victim s \<noteq> None"
  then have "\<exists>i<NBUF. b_refcnt (get_buf i s) = 0"
  proof (elim disjE)
    assume "hit dev n s \<noteq> None"
    then obtain i where i: "holds dev n i s" using hit_Some_iff [OF ok] by blast
    then have "b_refcnt (get_buf i s) = 0" "i < NBUF"
      using assms(2) obs_holds(2) [OF ok i] by (simp_all add: holds_def)
    then show ?thesis by blast
  next
    assume "victim s \<noteq> None"
    then show ?thesis using victim_Some [OF ok] by blast
  qed
  then obtain i where i: "i < NBUF" "b_refcnt (get_buf i s) = 0" by blast
  have "card {i. i < NBUF \<and> b_refcnt (get_buf i s) > 0} \<le> card ({..<NBUF} - {i})"
  proof (rule card_mono)
    show "{i. i < NBUF \<and> b_refcnt (get_buf i s) > 0} \<subseteq> {..<NBUF} - {i}"
    proof
      fix j assume "j \<in> {i. i < NBUF \<and> b_refcnt (get_buf i s) > 0}"
      then show "j \<in> {..<NBUF} - {i}" using i(2) by (cases "j = i") simp_all
    qed
  qed simp
  also have "\<dots> < NBUF" using i(1) by simp
  finally show "card {m. refs dev s m > 0} < NBUF" by (simp only: referenced_blocks(2) [OF ok])
qed

lemma bread_full:
  assumes "bcache_ok dev s" and "refs dev s n = 0" and "card {m. refs dev s m > 0} = NBUF"
  shows "bread dev n s = Inl (Panic ''bget: no buffers'')"
  using room_iff [OF assms(1,2)] assms(3) by (auto simp: bread_def bget_def)

lemma bread_room:
  assumes "bcache_ok dev s" and "refs dev s n > 0 \<or> card {m. refs dev s m > 0} < NBUF"
  shows "hit dev n s \<noteq> None \<or> victim s \<noteq> None"
proof (cases "refs dev s n > 0")
  case True
  then show ?thesis by (auto simp: refs_def split: option.splits)
next
  case False
  with assms room_iff [OF assms(1), of n] show ?thesis by simp
qed

section \<open>The contract of the cache\<close>

text \<open>
  What a client of the cache sees: contents, references and owners by block number, the disk and
  the writes it received. Each operation is a function on this view.
\<close>

record view =
  v_cont :: "nat \<Rightarrow> block"
  v_refs :: "nat \<Rightarrow> nat"
  v_own :: "nat \<Rightarrow> int option"
  v_disk :: "nat \<Rightarrow> block"
  v_writes :: "(nat \<times> block) list"

definition view_of :: "nat \<Rightarrow> 'a bstate_scheme \<Rightarrow> view" where
  "view_of dev s = \<lparr>v_cont = cur dev s, v_refs = refs dev s, v_own = owner dev s, v_disk = disk s,
     v_writes = writes s\<rparr>"

definition acquired :: "int \<Rightarrow> nat \<Rightarrow> view \<Rightarrow> view" where
  "acquired pid n v = v\<lparr>v_refs := (v_refs v)(n := v_refs v n + 1), v_own := (v_own v)(n := Some pid)\<rparr>"

definition stored :: "nat \<Rightarrow> block \<Rightarrow> view \<Rightarrow> view" where
  "stored n d v = v\<lparr>v_cont := (v_cont v)(n := d)\<rparr>"

definition written :: "nat \<Rightarrow> view \<Rightarrow> view" where
  "written n v = v\<lparr>v_disk := (v_disk v)(n := v_cont v n), v_writes := v_writes v @ [(n, v_cont v n)]\<rparr>"

definition released :: "nat \<Rightarrow> view \<Rightarrow> view" where
  "released n v = v\<lparr>v_refs := (v_refs v)(n := v_refs v n - 1), v_own := (v_own v)(n := None)\<rparr>"

definition pinned :: "nat \<Rightarrow> view \<Rightarrow> view" where
  "pinned n v = v\<lparr>v_refs := (v_refs v)(n := v_refs v n + 1)\<rparr>"

definition unpinned :: "nat \<Rightarrow> view \<Rightarrow> view" where
  "unpinned n v = v\<lparr>v_refs := (v_refs v)(n := v_refs v n - 1)\<rparr>"

definition room :: "nat \<Rightarrow> view \<Rightarrow> bool" where
  "room n v \<longleftrightarrow> v_own v n = None \<and> v_refs v n + 2 < 2 ^ 32 \<and>
     (v_refs v n > 0 \<or> card {m. v_refs v m > 0} < NBUF)"

lemmas view_defs = acquired_def stored_def written_def released_def pinned_def unpinned_def

text \<open>
  Operations that keep every handle but that on block \<open>n\<close>, and the state around the cache.
\<close>

definition keeps :: "(nat \<Rightarrow> 'h \<Rightarrow> 's \<Rightarrow> bool) \<Rightarrow> ('s \<Rightarrow> 'r) \<Rightarrow> nat \<Rightarrow> 's \<Rightarrow> 's \<Rightarrow> bool" where
  "keeps hnd env n s t \<longleftrightarrow> env t = env s \<and> (\<forall>m h. m \<noteq> n \<longrightarrow> hnd m h s \<longrightarrow> hnd m h t)"

locale buffer_cache =
  fixes ok :: "'s \<Rightarrow> bool"
    and view :: "'s \<Rightarrow> view"
    and who :: "'s \<Rightarrow> int"
    and env :: "'s \<Rightarrow> 'r"
    and hnd :: "nat \<Rightarrow> 'h \<Rightarrow> 's \<Rightarrow> bool"
    and data :: "'h \<Rightarrow> 's \<Rightarrow> block"
    and get :: "nat \<Rightarrow> 's \<Rightarrow> kerr + 'h \<times> 's"
    and put :: "'h \<Rightarrow> block \<Rightarrow> 's \<Rightarrow> 's"
    and flush :: "'h \<Rightarrow> 's \<Rightarrow> kerr + 's"
    and rel :: "'h \<Rightarrow> 's \<Rightarrow> kerr + 's"
    and pin :: "'h \<Rightarrow> 's \<Rightarrow> 's"
    and unpin :: "'h \<Rightarrow> 's \<Rightarrow> 's"
  assumes clean: "ok s \<Longrightarrow> v_refs (view s) n = 0 \<Longrightarrow>
      v_cont (view s) n = v_disk (view s) n \<and> v_own (view s) n = None"
    and bounded: "ok s \<Longrightarrow> finite {m. v_refs (view s) m > 0} \<and> card {m. v_refs (view s) m > 0} \<le> NBUF"
    and hnd_data: "ok s \<Longrightarrow> hnd n h s \<Longrightarrow> data h s = v_cont (view s) n \<and> 0 < v_refs (view s) n \<and>
      v_refs (view s) n < 2 ^ 32 - 1 \<and> v_own (view s) n = Some (who s)"
    and get_room: "ok s \<Longrightarrow> room n (view s) \<Longrightarrow> \<exists>h t. get n s = Inr (h, t) \<and> ok t \<and> hnd n h t \<and>
      view t = acquired (who s) n (view s) \<and> who t = who s \<and> keeps hnd env n s t"
    and get_full: "ok s \<Longrightarrow> v_refs (view s) n = 0 \<Longrightarrow> card {m. v_refs (view s) m > 0} = NBUF \<Longrightarrow>
      get n s = Inl (Panic ''bget: no buffers'')"
    and put_data: "ok s \<Longrightarrow> hnd n h s \<Longrightarrow> ok (put h d s) \<and> hnd n h (put h d s) \<and>
      view (put h d s) = stored n d (view s) \<and> who (put h d s) = who s \<and> keeps hnd env n s (put h d s)"
    and flush_data: "ok s \<Longrightarrow> hnd n h s \<Longrightarrow> \<exists>t. flush h s = Inr t \<and> ok t \<and> hnd n h t \<and>
      view t = written n (view s) \<and> who t = who s \<and> keeps hnd env n s t"
    and rel_data: "ok s \<Longrightarrow> hnd n h s \<Longrightarrow>
      (v_refs (view s) n = 1 \<longrightarrow> v_cont (view s) n = v_disk (view s) n) \<Longrightarrow>
      \<exists>t. rel h s = Inr t \<and> ok t \<and> view t = released n (view s) \<and> who t = who s \<and> keeps hnd env n s t"
    and pin_data: "ok s \<Longrightarrow> hnd n h s \<Longrightarrow> v_refs (view s) n + 2 < 2 ^ 32 \<Longrightarrow> ok (pin h s) \<and>
      hnd n h (pin h s) \<and> view (pin h s) = pinned n (view s) \<and> who (pin h s) = who s \<and>
      keeps hnd env n s (pin h s)"
    and unpin_data: "ok s \<Longrightarrow> hnd n h s \<Longrightarrow> 1 < v_refs (view s) n \<Longrightarrow> ok (unpin h s) \<and>
      hnd n h (unpin h s) \<and> view (unpin h s) = unpinned n (view s) \<and> who (unpin h s) = who s \<and>
      keeps hnd env n s (unpin h s)"

lemma handle_other:
  assumes ok: "bcache_ok dev s" and i: "slot_for dev n i s" and h: "handle dev m j s" and "m \<noteq> n"
  shows "j \<noteq> i"
proof
  assume "j = i"
  with h have "holds dev m i s" by (simp add: handle_def)
  with i \<open>m \<noteq> n\<close> have "b_refcnt (get_buf i s) = 0" by (auto simp: slot_for_def holds_def)
  with handle_obs(2,5) [OF ok h] \<open>j = i\<close> show False by simp
qed

lemma keeps_set_buf:
  assumes ok: "bcache_ok dev s" and i: "slot_for dev n i s"
  shows "keeps (handle dev) bstate.more n s (set_buf i b s)"
  unfolding keeps_def
proof (intro conjI allI impI)
  show "bstate.more (set_buf i b s) = bstate.more s" by (simp add: set_buf_def)
  fix m j assume "m \<noteq> n" and h: "handle dev m j s"
  then have "j \<noteq> i" using handle_other [OF ok i] by blast
  with h slot_for_bound [OF i] bcache_okD(2) [OF ok] show "handle dev m j (set_buf i b s)"
    by (simp add: handle_def holds_def holdingsleep_def get_set_buf)
qed

lemma handle_lru [simp]: "handle dev m j (s\<lparr>lru := l\<rparr>) = handle dev m j s"
  by (simp add: handle_def holds_def holdingsleep_def get_buf_def)

lemma view_of_simps [simp]:
  "v_cont (view_of dev s) = cur dev s" "v_refs (view_of dev s) = refs dev s"
  "v_own (view_of dev s) = owner dev s" "v_disk (view_of dev s) = disk s"
  "v_writes (view_of dev s) = writes s"
  by (simp_all add: view_of_def)

lemma bread_contract:
  assumes ok: "bcache_ok dev s" and r: "room n (view_of dev s)"
  shows "\<exists>i t. bread dev n s = Inr (i, t) \<and> bcache_ok dev t \<and> handle dev n i t \<and>
      view_of dev t = acquired (me s) n (view_of dev s) \<and> me t = me s \<and>
      keeps (handle dev) bstate.more n s t"
proof -
  have o: "refs dev s n + 2 < 2 ^ 32" "owner dev s n = None" "hit dev n s \<noteq> None \<or> victim s \<noteq> None"
    using r bread_room [OF ok] by (simp_all add: room_def)
  obtain i b where i: "slot_for dev n i s" and b: "bread dev n s = Inr (i, set_buf i b s)"
    using bread_result [OF ok o] by blast
  from bread_ok [OF ok o] b show ?thesis
    using keeps_set_buf [OF ok i, of b] by (auto simp: view_of_def acquired_def)
qed

lemma brelse_keeps:
  assumes ok: "bcache_ok dev s" and h: "handle dev n i s" and "brelse i s = Inr t"
  shows "keeps (handle dev) bstate.more n s t"
proof -
  let ?u = "set_buf i ((get_buf i s)\<lparr>b_owner := None, b_refcnt := dec32 (b_refcnt (get_buf i s))\<rparr>) s"
  have "keeps (handle dev) bstate.more n s ?u"
    by (rule keeps_set_buf [OF ok handle_obs(8) [OF ok h]])
  moreover have "t = ?u \<or> t = ?u\<lparr>lru := i # remove1 i (lru ?u)\<rparr>"
    using assms(3) by (auto simp: brelse_def Let_def split: if_splits)
  ultimately show ?thesis by (auto simp: keeps_def)
qed

lemma bwrite_keeps:
  assumes "bwrite i s = Inr t"
  shows "keeps (handle dev) bstate.more n s t"
  using assms by (auto simp: keeps_def bwrite_def virtio_write_def Let_def handle_def holds_def
      holdingsleep_def get_buf_def split: if_splits)

interpretation bio: buffer_cache "bcache_ok dev" "view_of dev" me bstate.more "handle dev"
  "\<lambda>i s. b_data (get_buf i s)" "bread dev" set_data bwrite brelse bpin bunpin
  for dev :: nat
proof (unfold_locales, goal_cases)
  case (1 s n)
  then show ?case using unreferenced_clean [OF 1(1)] by simp
next
  case (2 s)
  then show ?case using card_referenced_le [OF 2] by simp
next
  case (3 s n h)
  then show ?case using handle_obs [OF 3] by simp
next
  case (4 s n)
  then show ?case by (rule bread_contract)
next
  case (5 s n)
  then show ?case using bread_full [OF 5(1)] by simp
next
  case (6 s n h d)
  then show ?case using set_data_ok [OF 6] keeps_set_buf [OF 6(1) handle_obs(8) [OF 6]]
    by (simp add: view_of_def stored_def set_data_def)
next
  case (7 s n h)
  show ?case by (rule bwrite_ok [OF 7]) (auto simp: view_of_def written_def bwrite_keeps)
next
  case (8 s n h)
  from 8(3) have "refs dev s n = 1 \<longrightarrow> cur dev s n = disk s n" by simp
  then show ?case
    by (rule brelse_ok [OF 8(1,2)]) (auto simp: view_of_def released_def brelse_keeps [OF 8(1,2)])
next
  case (9 s n h)
  then show ?case using bpin_ok [OF 9(1,2)] keeps_set_buf [OF 9(1) handle_obs(8) [OF 9(1,2)]]
    by (simp add: view_of_def pinned_def bpin_def)
next
  case (10 s n h)
  then show ?case using bunpin_ok [OF 10(1,2)] keeps_set_buf [OF 10(1) handle_obs(8) [OF 10(1,2)]]
    by (simp add: view_of_def unpinned_def bunpin_def)
qed

end
