(* ===== verification/Kernel_Log.thy ===== *)
theory Kernel_Log
  imports Kernel_Bio
begin

text \<open>
  The write-ahead log of \<^verbatim>\<open>xv6/kernel/log.c\<close> on top of the buffer cache: transactions,
  commit and recovery. The log's spin lock makes each operation atomic; an operation that has to
  sleep is \<open>Blocked\<close> and is tried again.
\<close>

section \<open>Sessions with the cache\<close>

text \<open>What the log does between \<open>bread\<close> and \<open>brelse\<close>, from the contract of the cache alone.\<close>

context buffer_cache
begin

lemma read_session:
  assumes "ok s" and "room n (view s)"
  obtains h t u where "get n s = Inr (h, t)" and "data h t = v_cont (view s) n" "env t = env s"
    and "rel h t = Inr u"
    and "ok u" "view u = view s" "who u = who s" "env u = env s"
proof -
  obtain h t where t: "get n s = Inr (h, t)" "ok t" "hnd n h t" "view t = acquired (who s) n (view s)"
      "who t = who s" "keeps hnd env n s t"
    using get_room [OF assms] by blast
  have "v_refs (view t) n = 1 \<longrightarrow> v_cont (view t) n = v_disk (view t) n"
    using clean [OF assms(1), of n] t(4) by (simp add: acquired_def)
  then obtain u where u: "rel h t = Inr u" "ok u" "view u = released n (view t)" "who u = who t"
      "keeps hnd env n t u"
    using rel_data [OF t(2,3)] by blast
  have "view u = view s"
    using u(3) t(4) assms(2) by (simp add: acquired_def released_def room_def fun_upd_idem_iff)
  moreover have "data h t = v_cont (view s) n"
    using hnd_data [OF t(2,3)] t(4) by (simp add: acquired_def)
  ultimately show ?thesis using that t u by (simp add: keeps_def)
qed

lemma write_session:
  assumes "ok s" and "room n (view s)"
  obtains h t t' u where "get n s = Inr (h, t)" and "data h t = v_cont (view s) n" "env t = env s"
    and "flush h (put h (f (data h t)) t) = Inr t'" and "rel h t' = Inr u" and "ok u"
    and "view u = written n (stored n (f (v_cont (view s) n)) (view s))" "who u = who s" "env u = env s"
proof -
  obtain h t where t: "get n s = Inr (h, t)" "ok t" "hnd n h t" "view t = acquired (who s) n (view s)"
      "who t = who s" "keeps hnd env n s t"
    using get_room [OF assms] by blast
  have d: "data h t = v_cont (view s) n"
    using hnd_data [OF t(2,3)] t(4) by (simp add: acquired_def)
  note p = put_data [OF t(2,3), of "f (data h t)"]
  obtain t' where w: "flush h (put h (f (data h t)) t) = Inr t'" "ok t'" "hnd n h t'"
      "view t' = written n (view (put h (f (data h t)) t))" "who t' = who t" "env t' = env t"
    using flush_data [of "put h (f (data h t)) t" n h] p by (auto simp: keeps_def)
  have "v_refs (view t') n = 1 \<longrightarrow> v_cont (view t') n = v_disk (view t') n"
    using w(4) by (simp add: written_def)
  then obtain u where u: "rel h t' = Inr u" "ok u" "view u = released n (view t')" "who u = who t'"
      "env u = env t'"
    using rel_data [OF w(2,3)] by (auto simp: keeps_def)
  have "view u = written n (stored n (f (v_cont (view s) n)) (view s))"
    using u(3) w(4) p t(4) d assms(2)
    by (simp add: acquired_def released_def written_def stored_def room_def fun_upd_idem_iff)
  then show ?thesis using that t(1,5,6) d w u by (simp add: keeps_def)
qed

text \<open>Copying block \<open>a\<close> to block \<open>b\<close> on disk, the source read first, with or without an unpin.\<close>

lemma copy_session:
  assumes s: "ok s" and ab: "a \<noteq> b" and ra: "room a (view s)"
    and rb: "room b (acquired (who s) a (view s))" and un: "un \<longrightarrow> v_refs (view s) b > 0"
  obtains h1 s1 h2 s2 s3 s5 s6 where "get a s = Inr (h1, s1)" and "get b s1 = Inr (h2, s2)"
    and "flush h2 (put h2 (data h1 s2) s2) = Inr s3"
    and "rel h1 (if un then unpin h2 s3 else s3) = Inr s5" and "rel h2 s5 = Inr s6" and "ok s6"
    and "view s6 = (let v = written b (stored b (v_cont (view s) a) (view s))
       in if un then unpinned b v else v)" "who s6 = who s" "env s6 = env s"
proof -
  obtain h1 s1 where 1: "get a s = Inr (h1, s1)" "ok s1" "hnd a h1 s1"
      "view s1 = acquired (who s) a (view s)" "who s1 = who s" "keeps hnd env a s s1"
    using get_room [OF s ra] by blast
  obtain h2 s2 where 2: "get b s1 = Inr (h2, s2)" "ok s2" "hnd b h2 s2"
      "view s2 = acquired (who s) b (view s1)" "who s2 = who s" "keeps hnd env b s1 s2"
    using get_room [OF 1(2), of b] rb 1(4,5) by auto
  have h1: "hnd a h1 s2" using 2(6) 1(3) ab by (simp add: keeps_def)
  have d: "data h1 s2 = v_cont (view s) a"
    using hnd_data [OF 2(2) h1] 1(4) 2(4) by (simp add: acquired_def)
  note p = put_data [OF 2(2,3), of "data h1 s2"]
  obtain s3 where 3: "flush h2 (put h2 (data h1 s2) s2) = Inr s3" "ok s3" "hnd b h2 s3"
      "view s3 = written b (view (put h2 (data h1 s2) s2))" "who s3 = who s2"
      "keeps hnd env b (put h2 (data h1 s2) s2) s3"
    using flush_data [of "put h2 (data h1 s2) s2" b h2] p by auto
  let ?s4 = "if un then unpin h2 s3 else s3"
  have v3: "view s3 = written b (stored b (v_cont (view s) a) (acquired (who s) b (acquired (who s) a (view s))))"
    using 3(4) p 2(4) 1(4) d by simp
  have h13: "hnd a h1 s3" using 3(6) p h1 ab by (simp add: keeps_def)
  have "un \<longrightarrow> 1 < v_refs (view s3) b" using un v3 by (simp add: acquired_def stored_def written_def)
  then have 4: "ok ?s4" "hnd b h2 ?s4" "hnd a h1 ?s4" "who ?s4 = who s" "env ?s4 = env s3"
      "view ?s4 = (if un then unpinned b (view s3) else view s3)"
    using unpin_data [OF 3(2,3)] 3 h13 2(5) ab by (auto simp: keeps_def)
  have "v_refs (view ?s4) a = 1 \<longrightarrow> v_cont (view ?s4) a = v_disk (view ?s4) a"
    using 4(6) v3 ab clean [OF s, of a] by (simp add: acquired_def stored_def written_def unpinned_def)
  then obtain s5 where 5: "rel h1 ?s4 = Inr s5" "ok s5" "view s5 = released a (view ?s4)"
      "who s5 = who s" "keeps hnd env a ?s4 s5"
    using rel_data [OF 4(1,3)] 4(4) by auto
  have h25: "hnd b h2 s5" using 5(5) 4(2) ab by (simp add: keeps_def)
  have "v_refs (view s5) b = 1 \<longrightarrow> v_cont (view s5) b = v_disk (view s5) b"
    using 5(3) 4(6) v3 ab by (simp add: acquired_def stored_def written_def unpinned_def released_def)
  then obtain s6 where 6: "rel h2 s5 = Inr s6" "ok s6" "view s6 = released b (view s5)"
      "who s6 = who s" "keeps hnd env b s5 s6"
    using rel_data [OF 5(2) h25] 5(4) by auto
  have "env s6 = env s" using 6(5) 5(5) 4(5) 3(6) p 2(6) 1(6) by (simp add: keeps_def)
  moreover have "view s6 = (let v = written b (stored b (v_cont (view s) a) (view s))
       in if un then unpinned b v else v)"
    unfolding 6(3) 5(3) 4(6) v3 using ab ra rb un
    by (intro view.equality) (simp_all add: view_defs room_def fun_eq_iff Let_def)
  ultimately show ?thesis using that [OF 1(1) 2(1) 3(1) 5(1) 6(1,2)] 6(4) by simp
qed

text \<open>The same copy with the destination read first, as \<open>write_log\<close> does it.\<close>

lemma copy_back_session:
  assumes s: "ok s" and ab: "a \<noteq> b" and rb: "room b (view s)"
    and ra: "room a (acquired (who s) b (view s))"
  obtains h2 s1 h1 s2 s3 s5 s6 where "get b s = Inr (h2, s1)" and "get a s1 = Inr (h1, s2)"
    and "flush h2 (put h2 (data h1 s2) s2) = Inr s3"
    and "rel h1 s3 = Inr s5" and "rel h2 s5 = Inr s6" and "ok s6"
    and "view s6 = written b (stored b (v_cont (view s) a) (view s))" "who s6 = who s" "env s6 = env s"
proof -
  obtain h2 s1 where 1: "get b s = Inr (h2, s1)" "ok s1" "hnd b h2 s1"
      "view s1 = acquired (who s) b (view s)" "who s1 = who s" "keeps hnd env b s s1"
    using get_room [OF s rb] by blast
  obtain h1 s2 where 2: "get a s1 = Inr (h1, s2)" "ok s2" "hnd a h1 s2"
      "view s2 = acquired (who s) a (view s1)" "who s2 = who s" "keeps hnd env a s1 s2"
    using get_room [OF 1(2), of a] ra 1(4,5) by auto
  have h2: "hnd b h2 s2" using 2(6) 1(3) ab by (simp add: keeps_def)
  have d: "data h1 s2 = v_cont (view s) a"
    using hnd_data [OF 2(2,3)] 1(4) 2(4) by (simp add: acquired_def)
  note p = put_data [OF 2(2) h2, of "data h1 s2"]
  obtain s3 where 3: "flush h2 (put h2 (data h1 s2) s2) = Inr s3" "ok s3" "hnd b h2 s3"
      "view s3 = written b (view (put h2 (data h1 s2) s2))" "who s3 = who s2"
      "keeps hnd env b (put h2 (data h1 s2) s2) s3"
    using flush_data [of "put h2 (data h1 s2) s2" b h2] p by auto
  have v3: "view s3 = written b (stored b (v_cont (view s) a) (acquired (who s) a (acquired (who s) b (view s))))"
    using 3(4) p 2(4) 1(4) d by simp
  have h13: "hnd a h1 s3" using 3(6) p 2(3) ab by (simp add: keeps_def)
  have "v_refs (view s3) a = 1 \<longrightarrow> v_cont (view s3) a = v_disk (view s3) a"
    using v3 ab clean [OF s, of a] by (simp add: acquired_def stored_def written_def)
  then obtain s5 where 5: "rel h1 s3 = Inr s5" "ok s5" "view s5 = released a (view s3)"
      "who s5 = who s" "keeps hnd env a s3 s5"
    using rel_data [OF 3(2) h13] 3(5) 2(5) by auto
  have h25: "hnd b h2 s5" using 5(5) 3(3) ab by (simp add: keeps_def)
  have "v_refs (view s5) b = 1 \<longrightarrow> v_cont (view s5) b = v_disk (view s5) b"
    using 5(3) v3 ab by (simp add: acquired_def stored_def written_def released_def)
  then obtain s6 where 6: "rel h2 s5 = Inr s6" "ok s6" "view s6 = released b (view s5)"
      "who s6 = who s" "keeps hnd env b s5 s6"
    using rel_data [OF 5(2) h25] 5(4) by auto
  have "env s6 = env s" using 6(5) 5(5) 3(6) p 2(6) 1(6) by (simp add: keeps_def)
  moreover have "view s6 = written b (stored b (v_cont (view s) a) (view s))"
    unfolding 6(3) 5(3) v3 using ab ra rb
    by (intro view.equality) (simp_all add: view_defs room_def fun_eq_iff)
  ultimately show ?thesis using that [OF 1(1) 2(1) 3(1) 5(1) 6(1,2)] 6(4) by simp
qed

end

section \<open>Integers in a block\<close>

text \<open>The \<open>i\<close>-th little-endian 32-bit integer of a block, as an unsigned value, and as an \<open>int\<close>.\<close>

definition get32 :: "nat \<Rightarrow> block \<Rightarrow> nat" where
  "get32 i d = unat (d ! (4 * i)) + 256 * unat (d ! (4 * i + 1)) + 65536 * unat (d ! (4 * i + 2)) +
     16777216 * unat (d ! (4 * i + 3))"

definition put32 :: "nat \<Rightarrow> nat \<Rightarrow> block \<Rightarrow> block" where
  "put32 i v d = d[4 * i := of_nat v, 4 * i + 1 := of_nat (v div 256), 4 * i + 2 := of_nat (v div 65536),
     4 * i + 3 := of_nat (v div 16777216)]"

definition sint32 :: "nat \<Rightarrow> int" where
  "sint32 v = (if v < 2 ^ 31 then int v else int v - 2 ^ 32)"

definition uint32 :: "int \<Rightarrow> nat" where
  "uint32 i = nat (i mod 2 ^ 32)"

lemma length_put32 [simp]: "length (put32 i v d) = length d"
  by (simp add: put32_def)

lemma split_bytes:
  fixes v :: nat
  assumes "v < 2 ^ 32"
  shows "v mod 256 + 256 * (v div 256 mod 256) + 65536 * (v div 65536 mod 256) +
    16777216 * (v div 16777216 mod 256) = v"
proof -
  define a b c where "a = v div 256" and "b = a div 256" and "c = b div 256"
  have d: "v div 256 = a" "v div 65536 = b" "v div 16777216 = c"
    by (simp_all add: a_def b_def c_def div_mult2_eq [symmetric])
  have "256 * a + v mod 256 = v" "256 * b + a mod 256 = a" "256 * c + b mod 256 = b"
    unfolding c_def by (simp_all add: b_def, simp_all add: a_def)
  moreover have "c < 256" using assms by (simp add: d(3) [symmetric] div_less_iff_less_mult)
  then have "c mod 256 = c" by simp
  ultimately show ?thesis unfolding d by linarith
qed

lemma get_put32_same:
  assumes "4 * i + 3 < length d" and "v < 2 ^ 32"
  shows "get32 i (put32 i v d) = v"
  using assms split_bytes [OF assms(2)]
  by (simp add: get32_def put32_def unat_of_nat take_bit_eq_mod)

lemma nth_put32_other:
  assumes "k div 4 \<noteq> j"
  shows "put32 j v d ! k = d ! k"
proof -
  have "4 * j \<noteq> k" "4 * j + 1 \<noteq> k" "4 * j + 2 \<noteq> k" "4 * j + 3 \<noteq> k" using assms by auto
  then show ?thesis unfolding put32_def by (simp only: nth_list_update_neq not_False_eq_True)
qed

lemma get_put32_other: "i \<noteq> j \<Longrightarrow> get32 i (put32 j v d) = get32 i d"
  by (simp add: get32_def nth_put32_other)

lemma sint32_uint32: "0 \<le> i \<Longrightarrow> i < 2 ^ 31 \<Longrightarrow> sint32 (uint32 i) = i"
  by (simp add: sint32_def uint32_def)

section \<open>The log\<close>

definition MAXOPBLOCKS :: int where "MAXOPBLOCKS = 10"
definition LOGBLOCKS :: nat where "LOGBLOCKS = 30"

record logheader =
  lh_n :: int
  lh_block :: "nat list"

record log =
  l_start :: nat
  l_outstanding :: int
  l_committing :: bool
  l_dev :: nat
  l_ncommit :: int
  l_lh :: logheader

record fsstate = bstate +
  logst :: log

definition set_lh :: "logheader \<Rightarrow> fsstate \<Rightarrow> fsstate" where
  "set_lh h s = s\<lparr>logst := (logst s)\<lparr>l_lh := h\<rparr>\<rparr>"

definition set_n :: "int \<Rightarrow> fsstate \<Rightarrow> fsstate" where
  "set_n n s = set_lh ((l_lh (logst s))\<lparr>lh_n := n\<rparr>) s"

text \<open>A loop whose body may fail.\<close>

fun for_each :: "('a \<Rightarrow> 's \<Rightarrow> 'e + 's) \<Rightarrow> 'a list \<Rightarrow> 's \<Rightarrow> 'e + 's" where
  "for_each f [] s = Inr s"
| "for_each f (x # xs) s = andthen (f x s) (for_each f xs)"

text \<open>One turn of the loop of \<open>install_trans\<close>; the message printed while recovering is left out.\<close>

definition install_one :: "bool \<Rightarrow> nat \<Rightarrow> fsstate \<Rightarrow> kerr + fsstate" where
  "install_one recovering tail s =
     (let l = logst s in
      andthen (bread (l_dev l) (l_start l + tail + 1) s) (\<lambda>(lbuf, s1).
      andthen (bread (l_dev l) (lh_block (l_lh l) ! tail) s1) (\<lambda>(dbuf, s2).
      andthen (bwrite dbuf (set_data dbuf (b_data (get_buf lbuf s2)) s2)) (\<lambda>s3.
      andthen (brelse lbuf (if \<not> recovering then bunpin dbuf s3 else s3)) (\<lambda>s4.
      brelse dbuf s4)))))"

definition install_trans :: "bool \<Rightarrow> fsstate \<Rightarrow> kerr + fsstate" where
  "install_trans recovering s =
     for_each (install_one recovering) [0..<nat (lh_n (l_lh (logst s)))] s"

text \<open>A count beyond the array is \<open>Bounds\<close>: the loop would write past \<open>log.lh.block\<close>.\<close>

definition read_head :: "fsstate \<Rightarrow> kerr + fsstate" where
  "read_head s =
     andthen (bread (l_dev (logst s)) (l_start (logst s)) s) (\<lambda>(buf, s1).
       let d = b_data (get_buf buf s1); n = sint32 (get32 0 d) in
       if n > int LOGBLOCKS then Inl Bounds
       else brelse buf (set_lh \<lparr>lh_n = n, lh_block = map (\<lambda>i. get32 (i + 1) d) [0..<nat n] @
         drop (nat n) (lh_block (l_lh (logst s1)))\<rparr> s1))"

definition head_data :: "logheader \<Rightarrow> block \<Rightarrow> block" where
  "head_data h d = foldl (\<lambda>e i. put32 (i + 1) (lh_block h ! i) e) (put32 0 (uint32 (lh_n h)) d)
     [0..<nat (lh_n h)]"

definition write_head :: "fsstate \<Rightarrow> kerr + fsstate" where
  "write_head s =
     andthen (bread (l_dev (logst s)) (l_start (logst s)) s) (\<lambda>(buf, s1).
     andthen (bwrite buf (set_data buf (head_data (l_lh (logst s1)) (b_data (get_buf buf s1))) s1))
       (\<lambda>s2. brelse buf s2))"

definition recover_from_log :: "fsstate \<Rightarrow> kerr + fsstate" where
  "recover_from_log s =
     andthen (read_head s) (\<lambda>s1.
     andthen (install_trans True s1) (\<lambda>s2. write_head (set_n 0 s2)))"

definition initlog :: "nat \<Rightarrow> nat \<Rightarrow> fsstate \<Rightarrow> kerr + fsstate" where
  "initlog dev logstart s =
     recover_from_log (s\<lparr>logst := (logst s)\<lparr>l_start := logstart, l_dev := dev\<rparr>\<rparr>)"

definition begin_op :: "fsstate \<Rightarrow> kerr + fsstate" where
  "begin_op s =
     (let l = logst s in
      if l_committing l then Inl Blocked
      else if lh_n (l_lh l) + (l_outstanding l + 1) * MAXOPBLOCKS > int LOGBLOCKS then Inl Blocked
      else Inr (s\<lparr>logst := l\<lparr>l_outstanding := l_outstanding l + 1\<rparr>\<rparr>))"

definition write_log_one :: "nat \<Rightarrow> fsstate \<Rightarrow> kerr + fsstate" where
  "write_log_one tail s =
     (let l = logst s in
      andthen (bread (l_dev l) (l_start l + tail + 1) s) (\<lambda>(dst, s1).
      andthen (bread (l_dev l) (lh_block (l_lh l) ! tail) s1) (\<lambda>(src, s2).
      andthen (bwrite dst (set_data dst (b_data (get_buf src s2)) s2)) (\<lambda>s3.
      andthen (brelse src s3) (\<lambda>s4. brelse dst s4)))))"

definition write_log :: "fsstate \<Rightarrow> kerr + fsstate" where
  "write_log s = for_each write_log_one [0..<nat (lh_n (l_lh (logst s)))] s"

definition commit :: "fsstate \<Rightarrow> kerr + fsstate" where
  "commit s =
     (if lh_n (l_lh (logst s)) > 0 then
        andthen (write_log s) (\<lambda>s1.
        andthen (write_head s1) (\<lambda>s2.
        andthen (install_trans False s2) (\<lambda>s3. write_head (set_n 0 s3))))
      else Inr s)"

definition end_op :: "fsstate \<Rightarrow> kerr + fsstate" where
  "end_op s =
     (let l = (logst s)\<lparr>l_outstanding := l_outstanding (logst s) - 1\<rparr> in
      if l_committing l then Inl (Panic ''log.committing'')
      else if l_outstanding l = 0 then
        andthen (commit (s\<lparr>logst := l\<lparr>l_committing := True\<rparr>\<rparr>)) (\<lambda>t.
          Inr (t\<lparr>logst := (logst t)\<lparr>l_committing := False, l_ncommit := l_ncommit (logst t) + 1\<rparr>\<rparr>))
      else Inr (s\<lparr>logst := l\<rparr>))"

definition log_slot :: "nat \<Rightarrow> logheader \<Rightarrow> nat" where
  "log_slot b h = (case find (\<lambda>i. lh_block h ! i = b) [0..<nat (lh_n h)] of
     Some i \<Rightarrow> i | None \<Rightarrow> nat (lh_n h))"

definition log_write :: "nat \<Rightarrow> fsstate \<Rightarrow> kerr + fsstate" where
  "log_write b s =
     (let l = logst s; h = l_lh l; n = b_blockno (get_buf b s); i = log_slot n h in
      if lh_n h \<ge> int LOGBLOCKS then Inl (Panic ''too big a transaction'')
      else if l_outstanding l < 1 then Inl (Panic ''log_write outside of trans'')
      else
        let h1 = h\<lparr>lh_block := (lh_block h)[i := n]\<rparr> in
        if int i = lh_n h then Inr (set_lh (h1\<lparr>lh_n := lh_n h + 1\<rparr>) (bpin b s))
        else Inr (set_lh h1 s))"

text \<open>\<open>sys_sync\<close> returns at once, or when \<open>ncommit\<close> has reached the value it computes first.\<close>

definition sync_target :: "fsstate \<Rightarrow> int option" where
  "sync_target s = (if l_committing (logst s) \<or> l_outstanding (logst s) > 0
     then Some (l_ncommit (logst s) + 1) else None)"

definition sync_done :: "int option \<Rightarrow> fsstate \<Rightarrow> bool" where
  "sync_done target s = (case target of None \<Rightarrow> True | Some n \<Rightarrow> l_ncommit (logst s) \<ge> n)"

section \<open>Copying between the log and the home locations\<close>

definition apply_writes :: "(nat \<Rightarrow> block) \<Rightarrow> (nat \<times> block) list \<Rightarrow> nat \<Rightarrow> block" where
  "apply_writes d ws = foldl (\<lambda>d (n, b). d(n := b)) d ws"

lemma apply_writes_simps [simp]:
  "apply_writes d [] = d" "apply_writes d ((n, b) # ws) = apply_writes (d(n := b)) ws"
  "apply_writes d (ws @ ws') = apply_writes (apply_writes d ws) ws'"
  by (simp_all add: apply_writes_def)

lemma apply_writes_notin: "m \<notin> fst ` set ws \<Longrightarrow> apply_writes d ws m = d m"
  by (induction ws arbitrary: d) auto

lemma apply_writes_map:
  "apply_writes d (map (\<lambda>x. (x, g x)) xs) m = (if m \<in> set xs then g m else d m)"
  by (induction xs arbitrary: d) auto

lemma apply_writes_log:
  "k < n \<Longrightarrow> apply_writes d (map (\<lambda>t. (Suc (start + t), g t)) [0..<n]) (Suc (start + k)) = g k"
  by (induction n) (auto simp: less_Suc_eq)

definition copy_view :: "bool \<Rightarrow> view \<Rightarrow> nat \<times> nat \<Rightarrow> view" where
  "copy_view un v = (\<lambda>(dst, src). let v' = written dst (stored dst (v_cont v src) v)
     in if un then unpinned dst v' else v')"

lemma copy_view_simps [simp]:
  "v_cont (copy_view un v (a, b)) = (v_cont v)(a := v_cont v b)"
  "v_disk (copy_view un v (a, b)) = (v_disk v)(a := v_cont v b)"
  "v_writes (copy_view un v (a, b)) = v_writes v @ [(a, v_cont v b)]"
  "v_own (copy_view un v (a, b)) = v_own v"
  "v_refs (copy_view un v (a, b)) = (if un then (v_refs v)(a := v_refs v a - 1) else v_refs v)"
  by (simp_all add: copy_view_def view_defs Let_def)

lemma copy_views_all:
  assumes "fst ` set ps \<inter> snd ` set ps = {}"
  shows "v_cont (foldl (copy_view un) v ps) = apply_writes (v_cont v) (map (\<lambda>(a, b). (a, v_cont v b)) ps) \<and>
    v_disk (foldl (copy_view un) v ps) = apply_writes (v_disk v) (map (\<lambda>(a, b). (a, v_cont v b)) ps) \<and>
    v_writes (foldl (copy_view un) v ps) = v_writes v @ map (\<lambda>(a, b). (a, v_cont v b)) ps \<and>
    v_own (foldl (copy_view un) v ps) = v_own v \<and>
    (distinct (map fst ps) \<longrightarrow> (\<forall>m. v_refs (foldl (copy_view un) v ps) m =
      (if un \<and> m \<in> fst ` set ps then v_refs v m - 1 else v_refs v m)))"
  using assms
proof (induction ps arbitrary: v)
  case (Cons p ps)
  obtain a b where p: "p = (a, b)" by (cases p)
  have dis: "fst ` set ps \<inter> snd ` set ps = {}" using Cons.prems by auto
  have "\<forall>q\<in>set ps. snd q \<noteq> a" using Cons.prems p by force
  then have m: "map (\<lambda>(a', b'). (a', v_cont (copy_view un v (a, b)) b')) ps = map (\<lambda>(a', b'). (a', v_cont v b')) ps"
    by auto
  note IH = Cons.IH [OF dis, of "copy_view un v (a, b)", unfolded m]
  then show ?case by (auto simp: p fun_upd_def)
qed simp

lemmas copy_views = copy_views_all [THEN conjunct1] copy_views_all [THEN conjunct2, THEN conjunct1]
  copy_views_all [THEN conjunct2, THEN conjunct2, THEN conjunct1]
  copy_views_all [THEN conjunct2, THEN conjunct2, THEN conjunct2, THEN conjunct1]
  copy_views_all [THEN conjunct2, THEN conjunct2, THEN conjunct2, THEN conjunct2, rule_format]

lemma more_logst: "bstate.more t = bstate.more s \<Longrightarrow> logst t = logst s"
  by (cases t; cases s) simp

lemma install_one_ok:
  assumes ok: "bcache_ok dev s" and dev: "l_dev (logst s) = dev"
    and "l_start (logst s) + tail + 1 = a" and "lh_block (l_lh (logst s)) ! tail = b" and "a \<noteq> b"
    and "room a (view_of dev s)" and "room b (acquired (me s) a (view_of dev s))"
    and "\<not> recovering \<longrightarrow> refs dev s b > 0"
  shows "\<exists>t. install_one recovering tail s = Inr t \<and> bcache_ok dev t \<and>
    view_of dev t = copy_view (\<not> recovering) (view_of dev s) (b, a) \<and> me t = me s \<and> logst t = logst s"
proof -
  have un: "\<not> recovering \<longrightarrow> v_refs (view_of dev s) b > 0" using assms(8) by simp
  obtain h1 s1 h2 s2 s3 s5 s6 where "bread dev a s = Inr (h1, s1)" and "bread dev b s1 = Inr (h2, s2)"
    and "bwrite h2 (set_data h2 (b_data (get_buf h1 s2)) s2) = Inr s3"
    and "brelse h1 (if \<not> recovering then bunpin h2 s3 else s3) = Inr s5" and "brelse h2 s5 = Inr s6"
    and 6: "bcache_ok dev s6" "view_of dev s6 = (let v = written b (stored b (v_cont (view_of dev s) a) (view_of dev s))
       in if \<not> recovering then unpinned b v else v)" "me s6 = me s" "bstate.more s6 = bstate.more s"
    using bio.copy_session [OF ok assms(5,6,7) un] by metis
  then have "install_one recovering tail s = Inr s6"
    using assms(3,4) dev by (simp add: install_one_def Let_def)
  moreover have "view_of dev s6 = copy_view (\<not> recovering) (view_of dev s) (b, a)"
    unfolding 6(2) copy_view_def by simp
  ultimately show ?thesis using 6(1,3) more_logst [OF 6(4)] by blast
qed

lemma write_log_one_ok:
  assumes ok: "bcache_ok dev s" and dev: "l_dev (logst s) = dev"
    and "l_start (logst s) + tail + 1 = a" and "lh_block (l_lh (logst s)) ! tail = b" and "b \<noteq> a"
    and "room a (view_of dev s)" and "room b (acquired (me s) a (view_of dev s))"
  shows "\<exists>t. write_log_one tail s = Inr t \<and> bcache_ok dev t \<and>
    view_of dev t = copy_view False (view_of dev s) (a, b) \<and> me t = me s \<and> logst t = logst s"
proof -
  obtain h2 s1 h1 s2 s3 s5 s6 where "bread dev a s = Inr (h2, s1)" and "bread dev b s1 = Inr (h1, s2)"
    and "bwrite h2 (set_data h2 (b_data (get_buf h1 s2)) s2) = Inr s3"
    and "brelse h1 s3 = Inr s5" and "brelse h2 s5 = Inr s6"
    and 6: "bcache_ok dev s6" "view_of dev s6 = written a (stored a (v_cont (view_of dev s) b) (view_of dev s))"
      "me s6 = me s" "bstate.more s6 = bstate.more s"
    using bio.copy_back_session [OF ok assms(5,6,7)] by metis
  then have "write_log_one tail s = Inr s6"
    using assms(3,4) dev by (simp add: write_log_one_def Let_def)
  moreover have "view_of dev s6 = copy_view False (view_of dev s) (a, b)"
    unfolding 6(2) copy_view_def by simp
  ultimately show ?thesis using 6(1,3) more_logst [OF 6(4)] by blast
qed

text \<open>What copying between log block \<open>a\<close> and home block \<open>b\<close> needs of the cache.\<close>

definition used :: "view \<Rightarrow> nat" where
  "used v = card {m. v_refs v m > 0}"

definition link_ok :: "view \<Rightarrow> nat \<Rightarrow> nat \<Rightarrow> bool" where
  "link_ok v a b \<longleftrightarrow> a \<noteq> b \<and> v_refs v a = 0 \<and> v_own v b = None \<and> v_refs v b + 2 < 2 ^ 32 \<and>
     (v_refs v b > 0 \<and> used v < NBUF \<or> used v + 1 < NBUF)"

lemma link_room:
  assumes ok: "bcache_ok dev s" and l: "link_ok (view_of dev s) a b"
  shows "room a (view_of dev s)" and "room b (acquired pid a (view_of dev s))"
proof -
  let ?v = "view_of dev s"
  have own: "v_own ?v a = None" using bio.clean [OF ok, of a] l by (simp add: link_ok_def)
  then show "room a ?v" using l by (auto simp: room_def link_ok_def used_def)
  have "{m. v_refs (acquired pid a ?v) m > 0} = insert a {m. v_refs ?v m > 0}"
    by (auto simp: acquired_def)
  then have "card {m. v_refs (acquired pid a ?v) m > 0} \<le> card {m. v_refs ?v m > 0} + 1"
    using bio.bounded [OF ok] by (simp add: card_insert_if)
  moreover have "v_own (acquired pid a ?v) b = v_own ?v b" "v_refs (acquired pid a ?v) b = v_refs ?v b"
    using l by (simp_all add: acquired_def link_ok_def)
  ultimately show "room b (acquired pid a ?v)"
    using l unfolding room_def link_ok_def used_def by (elim conjE disjE) simp_all
qed

lemma link_ok_copy:
  assumes l: "link_ok v a b" and fin: "finite {m. v_refs v m > 0}" and b: "un \<longrightarrow> b \<noteq> dst"
  shows "link_ok (copy_view un v (dst, src)) a b"
proof -
  have "{m. v_refs (copy_view un v (dst, src)) m > 0} \<subseteq> {m. v_refs v m > 0}" by auto
  then have "used (copy_view un v (dst, src)) \<le> used v"
    unfolding used_def by (rule card_mono [OF fin])
  moreover have "v_refs (copy_view un v (dst, src)) b = v_refs v b" using b by simp
  moreover have "v_refs (copy_view un v (dst, src)) a = 0" using l by (auto simp: link_ok_def)
  ultimately show ?thesis using l unfolding link_ok_def by (elim conjE disjE) simp_all
qed

lemma write_log_loop:
  assumes "bcache_ok dev s" and "l_dev (logst s) = dev" and "l_start (logst s) = start"
    and "lh_block (l_lh (logst s)) = bs"
    and "\<forall>t\<in>set ts. link_ok (view_of dev s) (start + t + 1) (bs ! t)"
  shows "\<exists>u. for_each write_log_one ts s = Inr u \<and> bcache_ok dev u \<and>
    view_of dev u = foldl (copy_view False) (view_of dev s) (map (\<lambda>t. (start + t + 1, bs ! t)) ts) \<and>
    me u = me s \<and> logst u = logst s"
  using assms
proof (induction ts arbitrary: s)
  case (Cons t ts)
  let ?a = "start + t + 1" and ?b = "bs ! t"
  have l: "link_ok (view_of dev s) ?a ?b" using Cons.prems(5) by simp
  then have ne: "?b \<noteq> ?a" by (auto simp: link_ok_def)
  obtain u where u: "write_log_one t s = Inr u" "bcache_ok dev u"
      "view_of dev u = copy_view False (view_of dev s) (?a, ?b)" "me u = me s" "logst u = logst s"
    using write_log_one_ok [OF Cons.prems(1,2) _ _ ne link_room [OF Cons.prems(1) l]] Cons.prems(3,4)
    by auto
  have "finite {m. v_refs (view_of dev s) m > 0}" using bio.bounded [OF Cons.prems(1)] by simp
  then have "\<forall>t\<in>set ts. link_ok (view_of dev u) (start + t + 1) (bs ! t)"
    using Cons.prems(5) u(3) link_ok_copy [of _ _ _ False] by simp
  then show ?case using Cons.IH [OF u(2)] Cons.prems u by simp
qed simp

lemma install_loop:
  assumes "bcache_ok dev s" and "l_dev (logst s) = dev" and "l_start (logst s) = start"
    and "lh_block (l_lh (logst s)) = bs"
    and "\<forall>t\<in>set ts. link_ok (view_of dev s) (start + t + 1) (bs ! t)"
    and "\<not> recovering \<longrightarrow> (\<forall>t\<in>set ts. refs dev s (bs ! t) > 0) \<and> distinct (map ((!) bs) ts)"
  shows "\<exists>u. for_each (install_one recovering) ts s = Inr u \<and> bcache_ok dev u \<and>
    view_of dev u = foldl (copy_view (\<not> recovering)) (view_of dev s) (map (\<lambda>t. (bs ! t, start + t + 1)) ts) \<and>
    me u = me s \<and> logst u = logst s"
  using assms
proof (induction ts arbitrary: s)
  case (Cons t ts)
  let ?a = "start + t + 1" and ?b = "bs ! t"
  have l: "link_ok (view_of dev s) ?a ?b" using Cons.prems(5) by simp
  then have ne: "?a \<noteq> ?b" by (auto simp: link_ok_def)
  have un: "\<not> recovering \<longrightarrow> refs dev s ?b > 0" using Cons.prems(6) by simp
  obtain u where u: "install_one recovering t s = Inr u" "bcache_ok dev u"
      "view_of dev u = copy_view (\<not> recovering) (view_of dev s) (?b, ?a)" "me u = me s" "logst u = logst s"
    using install_one_ok [OF Cons.prems(1,2) _ _ ne link_room [OF Cons.prems(1) l] un] Cons.prems(3,4)
    by auto
  have other: "\<not> recovering \<longrightarrow> bs ! t' \<noteq> ?b" if "t' \<in> set ts" for t'
    using Cons.prems(6) that by (force simp: image_iff)
  have "finite {m. v_refs (view_of dev s) m > 0}" using bio.bounded [OF Cons.prems(1)] by simp
  then have ls: "\<forall>t\<in>set ts. link_ok (view_of dev u) (start + t + 1) (bs ! t)"
    using Cons.prems(5) u(3) link_ok_copy other by simp
  have "refs dev u = (if \<not> recovering then (refs dev s)(?b := refs dev s ?b - 1) else refs dev s)"
    using arg_cong [OF u(3), of v_refs] by simp
  then have "\<not> recovering \<longrightarrow> (\<forall>t\<in>set ts. refs dev u (bs ! t) > 0) \<and> distinct (map ((!) bs) ts)"
    using Cons.prems(6) other by auto
  then show ?case using Cons.IH [OF u(2) _ _ _ ls] Cons.prems u by simp
qed simp

section \<open>The header block\<close>

lemma logst_irrelevant [simp]:
  "get_buf i (s\<lparr>logst := l\<rparr>) = get_buf i s" "hit dev n (s\<lparr>logst := l\<rparr>) = hit dev n s"
  "bcache_ok dev (s\<lparr>logst := l\<rparr>) = bcache_ok dev s" "view_of dev (s\<lparr>logst := l\<rparr>) = view_of dev s"
  "cur dev (s\<lparr>logst := l\<rparr>) = cur dev s" "refs dev (s\<lparr>logst := l\<rparr>) = refs dev s"
  "owner dev (s\<lparr>logst := l\<rparr>) = owner dev s"
  by (simp_all add: get_buf_def hit_def bcache_ok_def view_of_def cur_def refs_def owner_def fun_eq_iff
      split: option.split)

lemma set_lh_irrelevant [simp]:
  "bcache_ok dev (set_lh h s) = bcache_ok dev s" "view_of dev (set_lh h s) = view_of dev s"
  "logst (set_lh h s) = (logst s)\<lparr>l_lh := h\<rparr>" "me (set_lh h s) = me s" "disk (set_lh h s) = disk s"
  "cur dev (set_lh h s) = cur dev s" "refs dev (set_lh h s) = refs dev s" "owner dev (set_lh h s) = owner dev s"
  by (simp_all add: set_lh_def)

lemma brelse_set_lh: "brelse i s = Inr t \<Longrightarrow> brelse i (set_lh h s) = Inr (set_lh h t)"
  by (auto simp: brelse_def holdingsleep_def set_lh_def set_buf_def get_buf_def Let_def split: if_splits)

lemma write_head_ok:
  assumes ok: "bcache_ok dev s" and dev: "l_dev (logst s) = dev" and start: "l_start (logst s) = start"
    and r: "room start (view_of dev s)"
  shows "\<exists>u. write_head s = Inr u \<and> bcache_ok dev u \<and>
    view_of dev u = written start (stored start (head_data (l_lh (logst s)) (cur dev s start)) (view_of dev s)) \<and>
    me u = me s \<and> logst u = logst s"
proof -
  obtain h t t' u where "bread dev start s = Inr (h, t)" and "b_data (get_buf h t) = cur dev s start"
    and e: "bstate.more t = bstate.more s"
    and "bwrite h (set_data h (head_data (l_lh (logst s)) (b_data (get_buf h t))) t) = Inr t'"
    and "brelse h t' = Inr u" and u: "bcache_ok dev u"
      "view_of dev u = written start (stored start (head_data (l_lh (logst s)) (cur dev s start)) (view_of dev s))"
      "me u = me s" "bstate.more u = bstate.more s"
    using bio.write_session [OF ok r, of "head_data (l_lh (logst s))"] by (metis view_of_simps(1))
  then have "write_head s = Inr u"
    using dev start more_logst [OF e] by (simp add: write_head_def)
  with u more_logst [OF u(4)] show ?thesis by blast
qed

lemma read_head_ok:
  assumes ok: "bcache_ok dev s" and dev: "l_dev (logst s) = dev" and start: "l_start (logst s) = start"
    and r: "room start (view_of dev s)" and n: "sint32 (get32 0 (cur dev s start)) \<le> int LOGBLOCKS"
  shows "\<exists>u. read_head s = Inr u \<and> bcache_ok dev u \<and> view_of dev u = view_of dev s \<and> me u = me s \<and>
    logst u = (logst s)\<lparr>l_lh := \<lparr>lh_n = sint32 (get32 0 (cur dev s start)),
      lh_block = map (\<lambda>i. get32 (i + 1) (cur dev s start)) [0..<nat (sint32 (get32 0 (cur dev s start)))] @
        drop (nat (sint32 (get32 0 (cur dev s start)))) (lh_block (l_lh (logst s)))\<rparr>\<rparr>"
proof -
  obtain h t u where "bread dev start s = Inr (h, t)" and "b_data (get_buf h t) = cur dev s start"
    and e: "bstate.more t = bstate.more s"
    and rel: "brelse h t = Inr u" and u: "bcache_ok dev u" "view_of dev u = view_of dev s"
      "me u = me s" "bstate.more u = bstate.more s"
    using bio.read_session [OF ok r] by (metis view_of_simps(1))
  then show ?thesis
    using dev start more_logst [OF e] more_logst [OF u(4)] n
    by (simp add: read_head_def Let_def brelse_set_lh [OF rel])
qed

text \<open>What the header block holds after \<open>write_head\<close>.\<close>

lemma length_head_data [simp]: "length (head_data h d) = length d"
proof -
  have "length (foldl (\<lambda>e i. put32 (i + 1) (lh_block h ! i) e) d is) = length d" for d "is"
    by (induction "is" arbitrary: d) simp_all
  then show ?thesis by (simp add: head_data_def)
qed

lemma get_head_data:
  assumes "length d = BSIZE" and "0 \<le> lh_n h" and "lh_n h \<le> int LOGBLOCKS"
    and "\<forall>i<nat (lh_n h). lh_block h ! i < 2 ^ 32"
  shows "sint32 (get32 0 (head_data h d)) = lh_n h"
    and "i < nat (lh_n h) \<Longrightarrow> get32 (i + 1) (head_data h d) = lh_block h ! i"
proof -
  let ?p = "\<lambda>k e. foldl (\<lambda>e i. put32 (i + 1) (lh_block h ! i) e) e [0..<k]"
  have len: "length (?p k e) = length e" for k e by (induction k) simp_all
  have "get32 0 (?p k e) = get32 0 e" for k e by (induction k) (simp_all add: get_put32_other)
  then show "sint32 (get32 0 (head_data h d)) = lh_n h"
    using assms by (simp add: head_data_def get_put32_same BSIZE_def LOGBLOCKS_def sint32_uint32 uint32_def)
      (simp add: sint32_def)
  have "k \<le> nat (lh_n h) \<Longrightarrow> length e = BSIZE \<Longrightarrow> i < k \<Longrightarrow> get32 (i + 1) (?p k e) = lh_block h ! i" for k e
  proof (induction k)
    case (Suc k)
    then have "4 * (k + 1) + 3 < length (?p k e)"
      unfolding len using assms(3) by (simp add: BSIZE_def LOGBLOCKS_def)
    with Suc assms(4) show ?case
      by (cases "i = k") (simp_all add: get_put32_same get_put32_other)
  qed simp
  then show "i < nat (lh_n h) \<Longrightarrow> get32 (i + 1) (head_data h d) = lh_block h ! i"
    using assms(1) by (simp add: head_data_def)
qed

section \<open>Commit\<close>

text \<open>
  The log starts at block \<open>start\<close>: the header and \<open>LOGBLOCKS\<close> data blocks. A state is ready to
  commit if the logged blocks are distinct home blocks, pinned and not locked, nobody holds a block
  of the log, one buffer is free, and the log on disk is empty.
\<close>

definition log_area :: "nat \<Rightarrow> nat set" where
  "log_area start = {start..start + LOGBLOCKS}"

definition logged :: "fsstate \<Rightarrow> nat list" where
  "logged s = take (nat (lh_n (l_lh (logst s)))) (lh_block (l_lh (logst s)))"

definition commit_ready :: "nat \<Rightarrow> fsstate \<Rightarrow> bool" where
  "commit_ready dev s \<longleftrightarrow> bcache_ok dev s \<and> l_dev (logst s) = dev \<and>
     0 \<le> lh_n (l_lh (logst s)) \<and> lh_n (l_lh (logst s)) \<le> int LOGBLOCKS \<and>
     length (lh_block (l_lh (logst s))) = LOGBLOCKS \<and> distinct (logged s) \<and>
     (\<forall>b\<in>set (logged s). b < 2 ^ 32 \<and> b \<notin> log_area (l_start (logst s)) \<and> refs dev s b > 0 \<and>
        refs dev s b + 2 < 2 ^ 32 \<and> owner dev s b = None) \<and>
     (\<forall>a\<in>log_area (l_start (logst s)). refs dev s a = 0) \<and> used (view_of dev s) < NBUF \<and>
     sint32 (get32 0 (disk s (l_start (logst s)))) = 0 \<and>
     length (disk s (l_start (logst s))) = BSIZE"

text \<open>The disk writes of a commit, in order.\<close>

definition commit_writes :: "nat \<Rightarrow> fsstate \<Rightarrow> (nat \<times> block) list" where
  "commit_writes dev s =
     (let start = l_start (logst s); h = l_lh (logst s); bs = logged s; g = cur dev s;
          d = head_data h (disk s start)
      in map (\<lambda>t. (start + t + 1, g (bs ! t))) [0..<length bs] @ [(start, d)] @
         map (\<lambda>b. (b, g b)) bs @ [(start, head_data (h\<lparr>lh_n := 0\<rparr>) d)])"

lemma room_log:
  assumes "bcache_ok dev s" and "refs dev s n = 0" and "used (view_of dev s) < NBUF"
  shows "room n (view_of dev s)"
  using bio.clean [OF assms(1), of n] assms(2,3) by (simp add: room_def used_def)

lemma used_mono:
  assumes "finite {m. v_refs v m > 0}" and "\<And>m. v_refs w m \<le> v_refs v m"
  shows "used w \<le> used v"
  unfolding used_def
proof (rule card_mono [OF assms(1)])
  show "{m. v_refs w m > 0} \<subseteq> {m. v_refs v m > 0}" using assms(2) less_le_trans by blast
qed

lemma commit_ready_facts:
  assumes "commit_ready dev s"
  defines "start \<equiv> l_start (logst s)" and "bs \<equiv> logged s"
  shows "bcache_ok dev s" "l_dev (logst s) = dev" "length bs = nat (lh_n (l_lh (logst s)))"
    and "t < length bs \<Longrightarrow> lh_block (l_lh (logst s)) ! t = bs ! t" "distinct bs"
    and "b \<in> set bs \<Longrightarrow> b \<notin> log_area start \<and> refs dev s b > 0"
    and "t < length bs \<Longrightarrow> start + t + 1 \<in> log_area start" "start \<in> log_area start"
    and "a \<in> log_area start \<Longrightarrow> refs dev s a = 0" "used (view_of dev s) < NBUF"
    and "t < length bs \<Longrightarrow> link_ok (view_of dev s) (start + t + 1) (bs ! t)"
    and "cur dev s start = disk s start"
proof -
  show A: "bcache_ok dev s" "l_dev (logst s) = dev" "length bs = nat (lh_n (l_lh (logst s)))"
    "t < length bs \<Longrightarrow> lh_block (l_lh (logst s)) ! t = bs ! t" "distinct bs"
    "b \<in> set bs \<Longrightarrow> b \<notin> log_area start \<and> refs dev s b > 0"
    "a \<in> log_area start \<Longrightarrow> refs dev s a = 0" "used (view_of dev s) < NBUF" for t a b
    using assms(1) by (auto simp: commit_ready_def start_def bs_def logged_def)
  show L: "t < length bs \<Longrightarrow> start + t + 1 \<in> log_area start" "start \<in> log_area start" for t
    using assms(1) A(3) by (auto simp: commit_ready_def log_area_def)
  show "cur dev s start = disk s start"
    using unreferenced_clean(1) [OF A(1)] A(7) [OF L(2)] by blast
  assume t: "t < length bs"
  then have b: "bs ! t \<in> set bs" by simp
  moreover have "\<forall>b\<in>set bs. refs dev s b + 2 < 2 ^ 32 \<and> owner dev s b = None"
    using assms(1) by (simp add: commit_ready_def bs_def)
  ultimately have "refs dev s (bs ! t) + 2 < 2 ^ 32" "owner dev s (bs ! t) = None" by simp_all
  moreover have "start + t + 1 \<noteq> bs ! t" using A(6) [OF b] L(1) [OF t] by metis
  ultimately show "link_ok (view_of dev s) (start + t + 1) (bs ! t)"
    using A(6) [OF b] A(7) [OF L(1) [OF t]] A(8) unfolding link_ok_def view_of_simps by simp
qed

lemma refs_foldl_copy: "v_refs (foldl (copy_view False) v ps) = v_refs v"
  by (induction ps arbitrary: v) auto

lemma view_write:
  assumes "view_of dev u = written n (stored n d (view_of dev s))"
  shows "cur dev u = (cur dev s)(n := d)" "disk u = (disk s)(n := d)" "writes u = writes s @ [(n, d)]"
    "refs dev u = refs dev s" "owner dev u = owner dev s"
  using arg_cong [OF assms, of v_cont] arg_cong [OF assms, of v_disk] arg_cong [OF assms, of v_writes]
    arg_cong [OF assms, of v_refs] arg_cong [OF assms, of v_own]
  by (simp_all add: written_def stored_def)

lemma view_copy:
  assumes "view_of dev u = foldl (copy_view un) (view_of dev s) ps"
    and "fst ` set ps \<inter> snd ` set ps = {}"
  shows "cur dev u = apply_writes (cur dev s) (map (\<lambda>(a, b). (a, cur dev s b)) ps)"
    and "disk u = apply_writes (disk s) (map (\<lambda>(a, b). (a, cur dev s b)) ps)"
    and "writes u = writes s @ map (\<lambda>(a, b). (a, cur dev s b)) ps" and "owner dev u = owner dev s"
    and "distinct (map fst ps) \<Longrightarrow>
      refs dev u m = (if un \<and> m \<in> fst ` set ps then refs dev s m - 1 else refs dev s m)"
  using copy_views [OF assms(2), of un "view_of dev s"] assms(1) [symmetric] by simp_all

lemma link_ok_cong:
  "refs dev t = refs dev s \<Longrightarrow> owner dev t = owner dev s \<Longrightarrow>
   link_ok (view_of dev t) a b = link_ok (view_of dev s) a b"
  by (simp add: link_ok_def used_def)

text \<open>The two halves of a commit: writing the log with its header, and installing and clearing it.\<close>

lemma commit_log_half:
  assumes r: "commit_ready dev s"
  defines "start \<equiv> l_start (logst s)" and "h \<equiv> l_lh (logst s)" and "bs \<equiv> logged s"
  defines "ws \<equiv> map (\<lambda>t. (start + t + 1, cur dev s (bs ! t))) [0..<length bs] @
    [(start, head_data h (disk s start))]"
  shows "\<exists>s2. andthen (write_log s) write_head = Inr s2 \<and> bcache_ok dev s2 \<and>
    cur dev s2 = apply_writes (cur dev s) ws \<and> disk s2 = apply_writes (disk s) ws \<and>
    writes s2 = writes s @ ws \<and> refs dev s2 = refs dev s \<and> owner dev s2 = owner dev s \<and>
    me s2 = me s \<and> logst s2 = logst s"
proof -
  note F = commit_ready_facts [OF r, folded start_def h_def bs_def]
  let ?ps = "map (\<lambda>t. (start + t + 1, lh_block h ! t)) [0..<length bs]"
  have st: "l_start (logst s) = start" "lh_block (l_lh (logst s)) = lh_block h"
      "nat (lh_n (l_lh (logst s))) = length bs"
    using F(3) by (simp_all add: start_def h_def)
  have l: "\<forall>t\<in>set [0..<length bs]. link_ok (view_of dev s) (start + t + 1) (lh_block h ! t)"
    using F(4,11) by simp
  obtain s1 where s1: "write_log s = Inr s1" "bcache_ok dev s1" "me s1 = me s" "logst s1 = logst s"
      and v1: "view_of dev s1 = foldl (copy_view False) (view_of dev s) ?ps"
    using write_log_loop [OF F(1,2) st(1,2) l] unfolding write_log_def st(3) by blast
  have "fst ` set ?ps \<inter> snd ` set ?ps = {}"
    using F(4,6,7) by (force simp: set_conv_nth)
  note V1 = view_copy [OF v1 this]
  have "distinct (map fst ?ps)" by (simp add: distinct_map inj_on_def comp_def)
  then have refs1: "refs dev s1 = refs dev s" using V1(5) by auto
  have m: "map (\<lambda>(a, b). (a, cur dev s b)) ?ps = map (\<lambda>t. (start + t + 1, cur dev s (bs ! t))) [0..<length bs]"
    using F(4) by simp
  have c1: "cur dev s1 start = disk s start"
    unfolding V1(1) m by (subst apply_writes_notin) (auto simp: F(12))
  have "used (view_of dev s1) < NBUF" using F(10) refs1 by (simp add: used_def)
  with refs1 F(8,9) have "room start (view_of dev s1)" by (intro room_log [OF s1(2)]) simp_all
  then obtain s2 where s2: "write_head s1 = Inr s2" "bcache_ok dev s2" "me s2 = me s1" "logst s2 = logst s1"
      and v2: "view_of dev s2 = written start (stored start (head_data h (disk s start)) (view_of dev s1))"
    using write_head_ok [OF s1(2), of start] s1(4) F(2) c1 h_def start_def by auto
  note V2 = view_write [OF v2]
  show ?thesis
    using s1 s2 V1 V2 refs1 unfolding ws_def m by simp
qed

lemma commit_install_half:
  assumes r: "commit_ready dev s" and ok: "bcache_ok dev s2"
    and eq: "refs dev s2 = refs dev s" "owner dev s2 = owner dev s" "logst s2 = logst s"
  defines "start \<equiv> l_start (logst s)" and "h \<equiv> l_lh (logst s)" and "bs \<equiv> logged s"
  assumes log: "\<And>t. t < length bs \<Longrightarrow> cur dev s2 (start + t + 1) = cur dev s (bs ! t)"
  defines "ws \<equiv> map (\<lambda>b. (b, cur dev s b)) bs @ [(start, head_data (h\<lparr>lh_n := 0\<rparr>) (cur dev s2 start))]"
  shows "\<exists>s4. andthen (install_trans False s2) (\<lambda>s3. write_head (set_n 0 s3)) = Inr s4 \<and>
    bcache_ok dev s4 \<and> cur dev s4 = apply_writes (cur dev s2) ws \<and>
    disk s4 = apply_writes (disk s2) ws \<and> writes s4 = writes s2 @ ws \<and>
    (\<forall>m. refs dev s4 m = (if m \<in> set bs then refs dev s m - 1 else refs dev s m)) \<and>
    owner dev s4 = owner dev s \<and> me s4 = me s2 \<and> logst s4 = (logst s)\<lparr>l_lh := h\<lparr>lh_n := 0\<rparr>\<rparr>"
proof -
  note F = commit_ready_facts [OF r, folded start_def h_def bs_def]
  let ?ps = "map (\<lambda>t. (lh_block h ! t, start + t + 1)) [0..<length bs]"
  have st: "l_dev (logst s2) = dev" "l_start (logst s2) = start" "lh_block (l_lh (logst s2)) = lh_block h"
      "nat (lh_n (l_lh (logst s2))) = length bs"
    using F(2,3) eq(3) by (simp_all add: start_def h_def)
  have l: "\<forall>t\<in>set [0..<length bs]. link_ok (view_of dev s2) (start + t + 1) (lh_block h ! t)"
    using F(4,11) by (simp add: link_ok_cong [OF eq(1,2)])
  have mb: "map ((!) (lh_block h)) [0..<length bs] = bs"
    using F(4) by (intro nth_equalityI) simp_all
  then have un: "\<not> False \<longrightarrow> (\<forall>t\<in>set [0..<length bs]. refs dev s2 (lh_block h ! t) > 0) \<and>
      distinct (map ((!) (lh_block h)) [0..<length bs])"
    using F(4,5,6) eq(1) by simp
  obtain s3 where s3: "install_trans False s2 = Inr s3" "bcache_ok dev s3" "me s3 = me s2" "logst s3 = logst s"
      and v3: "view_of dev s3 = foldl (copy_view True) (view_of dev s2) ?ps"
    using install_loop [OF ok st(1-3) l un] eq(3) unfolding install_trans_def st(4) by auto
  have "fst ` set ?ps \<inter> snd ` set ?ps = {}"
    using F(4,6,7) by (force simp: set_conv_nth)
  note V3 = view_copy [OF v3 this]
  have fst: "map fst ?ps = bs" using mb by (simp add: comp_def)
  then have "set bs = fst ` set ?ps" by (metis list.set_map)
  with V3(5) fst F(5) have refs3: "refs dev s3 m = (if m \<in> set bs then refs dev s m - 1 else refs dev s m)" for m
    using eq(1) by simp
  have "map (\<lambda>(a, b). (a, cur dev s2 b)) ?ps = map (\<lambda>b. (b, cur dev s b)) (map ((!) (lh_block h)) [0..<length bs])"
    using log F(4) by simp
  then have m: "map (\<lambda>(a, b). (a, cur dev s2 b)) ?ps = map (\<lambda>b. (b, cur dev s b)) bs"
    unfolding mb .
  have nl: "start \<notin> set bs" using F(6,8) by blast
  then have c3: "cur dev s3 start = cur dev s2 start"
    unfolding V3(1) m by (simp add: apply_writes_map)
  have "used (view_of dev s3) \<le> used (view_of dev s)"
    using bio.bounded [OF F(1)] refs3 by (intro used_mono) simp_all
  with nl refs3 F(8,9,10) have "room start (view_of dev (set_n 0 s3))"
    using room_log [OF s3(2), of start] by (simp add: set_n_def)
  moreover have "bcache_ok dev (set_n 0 s3)" "l_dev (logst (set_n 0 s3)) = dev"
      "l_start (logst (set_n 0 s3)) = start" "cur dev (set_n 0 s3) = cur dev s3"
      "l_lh (logst (set_n 0 s3)) = h\<lparr>lh_n := 0\<rparr>" "me (set_n 0 s3) = me s2"
      "view_of dev (set_n 0 s3) = view_of dev s3" "logst (set_n 0 s3) = (logst s)\<lparr>l_lh := h\<lparr>lh_n := 0\<rparr>\<rparr>"
    using s3 F(2) by (simp_all add: set_n_def start_def h_def)
  ultimately obtain s4 where s4: "write_head (set_n 0 s3) = Inr s4" "bcache_ok dev s4" "me s4 = me s2"
      "logst s4 = (logst s)\<lparr>l_lh := h\<lparr>lh_n := 0\<rparr>\<rparr>"
      and v4: "view_of dev s4 = written start (stored start (head_data (h\<lparr>lh_n := 0\<rparr>) (cur dev s2 start)) (view_of dev s3))"
    using write_head_ok [of dev "set_n 0 s3" start] c3 by auto
  note V4 = view_write [OF v4]
  show ?thesis
    using s3(1) s4 V3 V4 refs3 eq(2) unfolding ws_def m by simp
qed

lemma commit_ok:
  assumes r: "commit_ready dev s" and n: "lh_n (l_lh (logst s)) > 0"
  shows "\<exists>u. commit s = Inr u \<and> bcache_ok dev u \<and> writes u = writes s @ commit_writes dev s \<and>
    disk u = apply_writes (disk s) (commit_writes dev s) \<and>
    cur dev u = apply_writes (cur dev s) (commit_writes dev s) \<and>
    (\<forall>m. refs dev u m = (if m \<in> set (logged s) then refs dev s m - 1 else refs dev s m)) \<and>
    owner dev u = owner dev s \<and> me u = me s \<and>
    logst u = (logst s)\<lparr>l_lh := (l_lh (logst s))\<lparr>lh_n := 0\<rparr>\<rparr>"
proof -
  note F = commit_ready_facts [OF r]
  let ?start = "l_start (logst s)" and ?h = "l_lh (logst s)" and ?bs = "logged s"
  let ?w1 = "map (\<lambda>t. (?start + t + 1, cur dev s (?bs ! t))) [0..<length ?bs] @
    [(?start, head_data ?h (disk s ?start))]"
  obtain s2 where s2: "andthen (write_log s) write_head = Inr s2" "bcache_ok dev s2"
      "cur dev s2 = apply_writes (cur dev s) ?w1" "disk s2 = apply_writes (disk s) ?w1"
      "writes s2 = writes s @ ?w1" "refs dev s2 = refs dev s" "owner dev s2 = owner dev s"
      "me s2 = me s" "logst s2 = logst s"
    using commit_log_half [OF r] by blast
  have log: "cur dev s2 (?start + t + 1) = cur dev s (?bs ! t)" if "t < length ?bs" for t
    using that unfolding s2(3) by (simp add: apply_writes_log)
  have hd: "cur dev s2 ?start = head_data ?h (disk s ?start)" unfolding s2(3) by simp
  from commit_install_half [OF r s2(2,6,7,9) log]
  obtain u where u: "andthen (install_trans False s2) (\<lambda>s3. write_head (set_n 0 s3)) = Inr u"
      "bcache_ok dev u" "owner dev u = owner dev s" "me u = me s2"
      "logst u = (logst s)\<lparr>l_lh := ?h\<lparr>lh_n := 0\<rparr>\<rparr>"
      "\<forall>m. refs dev u m = (if m \<in> set ?bs then refs dev s m - 1 else refs dev s m)"
    and w: "cur dev u = apply_writes (cur dev s2) (map (\<lambda>b. (b, cur dev s b)) ?bs @
        [(?start, head_data (?h\<lparr>lh_n := 0\<rparr>) (cur dev s2 ?start))])"
      "disk u = apply_writes (disk s2) (map (\<lambda>b. (b, cur dev s b)) ?bs @
        [(?start, head_data (?h\<lparr>lh_n := 0\<rparr>) (cur dev s2 ?start))])"
      "writes u = writes s2 @ map (\<lambda>b. (b, cur dev s b)) ?bs @
        [(?start, head_data (?h\<lparr>lh_n := 0\<rparr>) (cur dev s2 ?start))]"
    by blast
  have "commit s = Inr u"
    using s2(1) u(1) n by (auto simp: commit_def andthen_Inr_iff)
  moreover have "commit_writes dev s = ?w1 @ map (\<lambda>b. (b, cur dev s b)) ?bs @
        [(?start, head_data (?h\<lparr>lh_n := 0\<rparr>) (cur dev s2 ?start))]"
    unfolding hd by (simp add: commit_writes_def Let_def)
  ultimately show ?thesis using u w s2 by simp
qed

section \<open>Recovery\<close>

text \<open>The kernel after a crash or at boot: an empty cache over the disk as it was left.\<close>

definition boot :: "(nat \<Rightarrow> block) \<Rightarrow> int \<Rightarrow> fsstate" where
  "boot d pid = binit \<lparr>bufs = [], lru = [], disk = d, writes = [], me = pid, logst =
     \<lparr>l_start = 0, l_outstanding = 0, l_committing = False, l_dev = 0, l_ncommit = 0,
      l_lh = \<lparr>lh_n = 0, lh_block = replicate LOGBLOCKS 0\<rparr>\<rparr>\<rparr>"

lemma foldl_cons: "foldl (\<lambda>l i. i # l) acc xs = rev xs @ acc"
  by (induction xs arbitrary: acc) simp_all

lemma boot_ok:
  assumes "dev \<noteq> 0"
  shows "bcache_ok dev (boot d pid)" "cur dev (boot d pid) = d" "refs dev (boot d pid) = (\<lambda>_. 0)"
    "owner dev (boot d pid) = (\<lambda>_. None)" "disk (boot d pid) = d"
proof -
  have get: "i < NBUF \<Longrightarrow> get_buf i (boot d pid) = empty_buf" for i
    by (simp add: boot_def binit_def get_buf_def)
  show ok: "bcache_ok dev (boot d pid)"
    using assms unfolding bcache_ok_def
    by (auto simp: get empty_buf_def) (auto simp: boot_def binit_def foldl_cons)
  have "\<not> holds dev n i (boot d pid)" for n i
    using assms get by (auto simp: holds_def empty_buf_def)
  then have "hit dev n (boot d pid) = None" for n using hit_None_iff [OF ok] by blast
  moreover show disk: "disk (boot d pid) = d" by (simp add: boot_def binit_def)
  ultimately show "cur dev (boot d pid) = d" "refs dev (boot d pid) = (\<lambda>_. 0)"
      "owner dev (boot d pid) = (\<lambda>_. None)"
    by (simp_all add: fun_eq_iff cur_def refs_def owner_def)
qed

text \<open>The blocks a header names.\<close>

definition head_blocks :: "block \<Rightarrow> nat list" where
  "head_blocks d = map (\<lambda>i. get32 (i + 1) d) [0..<nat (sint32 (get32 0 d))]"

lemma recover_ok:
  fixes d :: "nat \<Rightarrow> block"
  defines "bs start \<equiv> head_blocks (d start)"
  assumes dev: "dev \<noteq> 0" and n: "sint32 (get32 0 (d start)) \<le> int LOGBLOCKS"
    and home: "\<forall>b\<in>set (bs start). b \<notin> log_area start"
  shows "\<exists>r. initlog dev start (boot d pid) = Inr r \<and> (\<forall>m. m \<noteq> start \<longrightarrow>
    disk r m = apply_writes d (map (\<lambda>t. (bs start ! t, d (start + t + 1))) [0..<length (bs start)]) m)"
proof -
  let ?bs = "bs start"
  define s0 where "s0 = (boot d pid)\<lparr>logst := (logst (boot d pid))\<lparr>l_start := start, l_dev := dev\<rparr>\<rparr>"
  note B = boot_ok [OF dev, of d pid]
  have s0: "bcache_ok dev s0" "l_dev (logst s0) = dev" "l_start (logst s0) = start"
      "cur dev s0 = d" "refs dev s0 = (\<lambda>_. 0)" "disk s0 = d"
    using B by (simp_all add: s0_def)
  have used0: "used (view_of dev s0) = 0" using s0(5) by (simp add: used_def)
  then have "room start (view_of dev s0)"
    using s0(5) by (intro room_log [OF s0(1)]) (simp_all add: NBUF_def)
  then obtain s1 where s1: "read_head s0 = Inr s1" "bcache_ok dev s1" "view_of dev s1 = view_of dev s0"
      "l_dev (logst s1) = dev" "l_start (logst s1) = start" "nat (lh_n (l_lh (logst s1))) = length ?bs"
      "lh_block (l_lh (logst s1)) = ?bs @ drop (length ?bs) (lh_block (l_lh (logst s0)))"
    using read_head_ok [OF s0(1-3)] n s0 by (auto simp: bs_def head_blocks_def)
  let ?ps = "map (\<lambda>t. (lh_block (l_lh (logst s1)) ! t, start + t + 1)) [0..<length ?bs]"
  have nth: "lh_block (l_lh (logst s1)) ! t = ?bs ! t" if "t < length ?bs" for t
    using that s1(7) by (simp add: nth_append)
  have len: "length ?bs \<le> LOGBLOCKS" using n by (simp add: bs_def head_blocks_def)
  have area: "start + t + 1 \<in> log_area start \<and> ?bs ! t \<notin> log_area start" if "t < length ?bs" for t
    using that home len nth_mem [OF that] by (simp add: log_area_def)
  then have ne: "start + t + 1 \<noteq> ?bs ! u" if "t < length ?bs" "u < length ?bs" for t u
    using that by metis
  have obs1: "cur dev s1 = d" "disk s1 = d" "refs dev s1 = (\<lambda>_. 0)"
    using arg_cong [OF s1(3), of v_cont] arg_cong [OF s1(3), of v_disk] arg_cong [OF s1(3), of v_refs] s0
    by simp_all
  have "\<forall>t\<in>set [0..<length ?bs]. link_ok (view_of dev s1) (start + t + 1) (lh_block (l_lh (logst s1)) ! t)"
    using ne nth used0 bio.clean [OF s1(2)] obs1 unfolding s1(3) [symmetric]
    by (simp add: link_ok_def NBUF_def)
  then obtain s2 where s2: "install_trans True s1 = Inr s2" "bcache_ok dev s2" "logst s2 = logst s1"
      and v2: "view_of dev s2 = foldl (copy_view False) (view_of dev s1) ?ps"
    using install_loop [OF s1(2,4,5) refl, of "[0..<length ?bs]" True]
    unfolding install_trans_def s1(6) by auto
  have "fst ` set ?ps \<inter> snd ` set ?ps = {}" using nth ne by (auto simp: image_def) (metis)
  note V2 = view_copy [OF v2 this]
  have "view_of dev (set_n 0 s2) = view_of dev s2" by (simp add: set_n_def)
  moreover have "refs dev s2 = (\<lambda>_. 0)"
    using arg_cong [OF v2, of v_refs] obs1 by (simp add: refs_foldl_copy)
  then have "room start (view_of dev s2)"
    by (intro room_log [OF s2(2)]) (simp_all add: used_def NBUF_def)
  ultimately obtain r where r: "write_head (set_n 0 s2) = Inr r"
      and vr: "view_of dev r = written start (stored start (head_data (l_lh (logst (set_n 0 s2)))
        (cur dev (set_n 0 s2) start)) (view_of dev s2))"
    using write_head_ok [of dev "set_n 0 s2" start] s2(2,3) s1(4,5) by (auto simp: set_n_def)
  have "initlog dev start (boot d pid) = Inr r"
    using s1(1) s2(1) r by (simp add: initlog_def recover_from_log_def s0_def)
  moreover have m: "map (\<lambda>(a, b). (a, cur dev s1 b)) ?ps = map (\<lambda>t. (?bs ! t, d (start + t + 1))) [0..<length ?bs]"
    using nth obs1 by simp
  have "disk s2 = apply_writes d (map (\<lambda>t. (?bs ! t, d (start + t + 1))) [0..<length ?bs])"
    unfolding V2(2) m obs1(2) by (rule refl)
  ultimately show ?thesis using view_write(2) [OF vr] by simp
qed

section \<open>Crashes during a commit\<close>

text \<open>The three phases of a commit as the disk sees them, for \<open>n\<close> logged blocks.\<close>

lemma take_commit_writes:
  assumes "length w1 = n" and "length w2 = n"
  obtains "k \<le> n" and "take k (w1 @ [a] @ w2 @ [b]) = take k w1"
  | j where "n < k" and "take k (w1 @ [a] @ w2 @ [b]) = w1 @ [a] @ take j w2"
  | "n < k" and "take k (w1 @ [a] @ w2 @ [b]) = w1 @ [a] @ w2 @ [b]"
proof -
  consider "k \<le> n" | "n < k" "k \<le> n + 1 + n" | "n + 1 + n < k" by linarith
  then show thesis
  proof cases
    case 1
    then show ?thesis using that(1) assms by simp
  next
    case 2
    then have "take k (w1 @ [a] @ w2 @ [b]) = w1 @ [a] @ take (k - n - 1) w2"
      using assms by (simp add: take_Cons')
    with 2 that(2) show ?thesis by blast
  next
    case 3
    then show ?thesis using that(3) assms by simp
  qed
qed

lemma set_take_fst: "x \<in> fst ` set (take j (map (\<lambda>b. (b, g b)) bs)) \<Longrightarrow> x \<in> set bs"
  by (auto dest!: in_set_takeD)

lemma commit_header_facts:
  assumes r: "commit_ready dev s" and d: "length d = BSIZE"
  defines "h \<equiv> l_lh (logst s)"
  shows "sint32 (get32 0 (head_data h d)) \<le> int LOGBLOCKS" and "head_blocks (head_data h d) = logged s"
    and "head_blocks (head_data (h\<lparr>lh_n := 0\<rparr>) d) = []"
    and "sint32 (get32 0 (head_data (h\<lparr>lh_n := 0\<rparr>) d)) \<le> int LOGBLOCKS"
proof -
  note F = commit_ready_facts [OF r]
  have n: "0 \<le> lh_n h" "lh_n h \<le> int LOGBLOCKS" and b: "\<forall>b\<in>set (logged s). b < 2 ^ 32"
    using r by (simp_all add: commit_ready_def h_def)
  have len: "length (logged s) = nat (lh_n h)" using F(3) by (simp add: h_def)
  have nth: "lh_block h ! t = logged s ! t" if "t < nat (lh_n h)" for t
    using that F(4) len by (simp add: h_def)
  have "\<forall>i<nat (lh_n h). lh_block h ! i < 2 ^ 32" using nth b len by simp
  note G = get_head_data [OF d n this]
  show "sint32 (get32 0 (head_data h d)) \<le> int LOGBLOCKS" using G(1) n by simp
  show "head_blocks (head_data h d) = logged s"
    using G(2) nth len by (intro nth_equalityI) (simp_all add: head_blocks_def G(1))
  have "sint32 (get32 0 (head_data (h\<lparr>lh_n := 0\<rparr>) d)) = 0"
    using get_head_data(1) [OF d, of "h\<lparr>lh_n := 0\<rparr>"] by (simp add: LOGBLOCKS_def)
  then show "head_blocks (head_data (h\<lparr>lh_n := 0\<rparr>) d) = []"
    "sint32 (get32 0 (head_data (h\<lparr>lh_n := 0\<rparr>) d)) \<le> int LOGBLOCKS"
    by (simp_all add: head_blocks_def)
qed

text \<open>What recovery makes of a disk whose header names nothing, or names the logged blocks.\<close>

lemma recover_empty:
  assumes "dev \<noteq> 0" and "head_blocks (d start) = []" and "sint32 (get32 0 (d start)) \<le> int LOGBLOCKS"
  shows "\<exists>r. initlog dev start (boot d pid) = Inr r \<and> (\<forall>m. m \<noteq> start \<longrightarrow> disk r m = d m)"
  using recover_ok [of dev d start pid] assms by simp

lemma recover_full:
  assumes dev: "dev \<noteq> 0" and n: "sint32 (get32 0 (d start)) \<le> int LOGBLOCKS"
    and bs: "head_blocks (d start) = bs" "\<forall>b\<in>set bs. b \<notin> log_area start"
    and log: "\<forall>t<length bs. d (start + t + 1) = g (bs ! t)"
  shows "\<exists>r. initlog dev start (boot d pid) = Inr r \<and>
    (\<forall>m. m \<noteq> start \<longrightarrow> disk r m = (if m \<in> set bs then g m else d m))"
proof -
  have "map (\<lambda>t. (bs ! t, d (start + t + 1))) [0..<length bs] = map (\<lambda>b. (b, g b)) (map ((!) bs) [0..<length bs])"
    using log by simp
  also have "\<dots> = map (\<lambda>b. (b, g b)) bs" by (simp only: map_nth)
  finally show ?thesis using recover_ok [of dev d start pid] dev n bs by (simp add: apply_writes_map)
qed

lemma recovered_home:
  assumes "\<exists>r. X = Inr r \<and> (\<forall>m. m \<noteq> start \<longrightarrow> disk r m = f m)" and "start \<in> A"
    and "\<And>m. m \<notin> A \<Longrightarrow> f m = g m"
  shows "\<exists>r. X = Inr r \<and> (\<forall>m. m \<notin> A \<longrightarrow> disk r m = g m)"
  using assms by metis

text \<open>
  C1. A commit is atomic and durable under crashes. From a state ready to commit, \<open>commit\<close> returns;
  if the machine stops after any number \<open>k\<close> of the commit's disk writes, the recovery of the next
  boot returns, and leaves every block outside the log either as it was before the commit, when the
  header had not been written, or with the contents of the transaction.
\<close>

theorem commit_crash_atomic:
  assumes r: "commit_ready dev s" and n: "lh_n (l_lh (logst s)) > 0"
  shows "\<exists>u. commit s = Inr u \<and> (\<forall>k. \<exists>r.
    initlog dev (l_start (logst s))
      (boot (apply_writes (disk s) (take k (drop (length (writes s)) (writes u)))) pid) = Inr r \<and>
    (\<forall>m. m \<notin> log_area (l_start (logst s)) \<longrightarrow>
       disk r m = (if length (logged s) < k \<and> m \<in> set (logged s) then cur dev s m else disk s m)))"
proof -
  note F = commit_ready_facts [OF r]
  let ?start = "l_start (logst s)" and ?bs = "logged s" and ?h = "l_lh (logst s)"
  let ?w1 = "map (\<lambda>t. (Suc (?start + t), cur dev s (?bs ! t))) [0..<length ?bs]"
  let ?w2 = "map (\<lambda>b. (b, cur dev s b)) ?bs"
  let ?H = "head_data ?h (disk s ?start)"
  let ?E = "head_data (?h\<lparr>lh_n := 0\<rparr>) ?H"
  have len: "length (disk s ?start) = BSIZE" "length ?H = BSIZE" and dev: "dev \<noteq> 0"
    and zero: "sint32 (get32 0 (disk s ?start)) = 0"
    using r bcache_okD(1) [OF F(1)] by (simp_all add: commit_ready_def)
  have nl: "?start \<notin> set ?bs" using F(6,8) by blast
  have w1: "apply_writes d (take k ?w1) m = d m" if "m \<notin> log_area ?start \<or> m = ?start" for d k m
    using that F(7) by (intro apply_writes_notin) (force dest!: in_set_takeD)
  have w1': "apply_writes d ?w1 m = d m" if "m \<notin> log_area ?start \<or> m = ?start" for d m
    using w1 [OF that, of d "length ?w1"] by simp
  have w2: "apply_writes d (take j ?w2) m = d m" if "m \<in> log_area ?start" for d j m
  proof (intro apply_writes_notin notI)
    assume "m \<in> fst ` set (take j ?w2)"
    then have "m \<in> set ?bs" by (rule set_take_fst)
    with F(6) that show False by blast
  qed
  have cw: "commit_writes dev s = ?w1 @ [(?start, ?H)] @ ?w2 @ [(?start, ?E)]"
    by (simp add: commit_writes_def Let_def)
  have rec: "\<exists>r. initlog dev ?start (boot (apply_writes (disk s) (take k (commit_writes dev s))) pid) = Inr r \<and>
    (\<forall>m. m \<notin> log_area ?start \<longrightarrow>
       disk r m = (if length ?bs < k \<and> m \<in> set ?bs then cur dev s m else disk s m))" for k
  proof (rule take_commit_writes [of ?w1 "length ?bs" ?w2 k "(?start, ?H)" "(?start, ?E)"])
    assume k: "k \<le> length ?bs" "take k (?w1 @ [(?start, ?H)] @ ?w2 @ [(?start, ?E)]) = take k ?w1"
    let ?d = "apply_writes (disk s) (take k ?w1)"
    have st: "?d ?start = disk s ?start" by (rule w1) simp
    have R: "\<exists>r. initlog dev ?start (boot ?d pid) = Inr r \<and> (\<forall>m. m \<noteq> ?start \<longrightarrow> disk r m = ?d m)"
      by (rule recover_empty [OF dev]) (simp_all add: st zero head_blocks_def LOGBLOCKS_def)
    have E: "?d m = disk s m" if "m \<notin> log_area ?start" for m using w1 that by blast
    show ?thesis unfolding cw k(2) by (rule recovered_home [OF R F(8)]) (use E k(1) in auto)
  next
    fix j assume k: "length ?bs < k"
      "take k (?w1 @ [(?start, ?H)] @ ?w2 @ [(?start, ?E)]) = ?w1 @ [(?start, ?H)] @ take j ?w2"
    let ?d = "apply_writes (disk s) (?w1 @ [(?start, ?H)] @ take j ?w2)"
    have st: "?d ?start = ?H" using w2 [OF F(8)] by simp
    have log: "\<forall>t<length ?bs. ?d (?start + t + 1) = cur dev s (?bs ! t)"
    proof (intro allI impI)
      fix t assume t: "t < length ?bs"
      have "?d (?start + t + 1) = apply_writes (disk s) (?w1 @ [(?start, ?H)]) (?start + t + 1)"
        using w2 [OF F(7) [OF t]] by simp
      then show "?d (?start + t + 1) = cur dev s (?bs ! t)"
        using t by (simp add: apply_writes_log)
    qed
    have E: "?d m = disk s m" if "m \<notin> log_area ?start" "m \<notin> set ?bs" for m
    proof -
      have "m \<notin> fst ` set (take j ?w2)" using that(2) by (rule contrapos_nn) (rule set_take_fst)
      moreover have "m \<noteq> ?start" using that(1) F(8) by metis
      ultimately show ?thesis using w1' that(1) by (simp add: apply_writes_notin)
    qed
    have R: "\<exists>r. initlog dev ?start (boot ?d pid) = Inr r \<and>
        (\<forall>m. m \<noteq> ?start \<longrightarrow> disk r m = (if m \<in> set ?bs then cur dev s m else ?d m))"
      using commit_header_facts(1,2) [OF r len(1)] F(6) log st by (intro recover_full [OF dev]) auto
    show ?thesis unfolding cw k(2) by (rule recovered_home [OF R F(8)]) (use E k(1) in auto)
  next
    assume k: "length ?bs < k"
      "take k (?w1 @ [(?start, ?H)] @ ?w2 @ [(?start, ?E)]) = ?w1 @ [(?start, ?H)] @ ?w2 @ [(?start, ?E)]"
    let ?d = "apply_writes (disk s) (?w1 @ [(?start, ?H)] @ ?w2 @ [(?start, ?E)])"
    have st: "?d ?start = ?E" by simp
    have E: "?d m = (if m \<in> set ?bs then cur dev s m else disk s m)" if "m \<notin> log_area ?start" for m
      using that w1' F(8) by (auto simp: apply_writes_map)
    have R: "\<exists>r. initlog dev ?start (boot ?d pid) = Inr r \<and> (\<forall>m. m \<noteq> ?start \<longrightarrow> disk r m = ?d m)"
      using commit_header_facts(3,4) [OF r len(2)] st by (intro recover_empty [OF dev]) simp_all
    show ?thesis unfolding cw k(2) by (rule recovered_home [OF R F(8)]) (use E k(1) in auto)
  qed simp_all
  obtain u where "commit s = Inr u" "writes u = writes s @ commit_writes dev s"
    using commit_ok [OF r n] by blast
  with rec show ?thesis by auto
qed

text \<open>A transaction that has changed block 40 of an empty disk, in a log that starts at block 2.\<close>

definition one_txn :: fsstate where
  "one_txn = (set_buf 0 \<lparr>b_valid = True, b_dev = 1, b_blockno = 40, b_owner = None, b_refcnt = 1,
      b_data = replicate BSIZE 7\<rparr> (boot (\<lambda>_. replicate BSIZE 0) 5))
     \<lparr>logst := \<lparr>l_start = 2, l_outstanding = 0, l_committing = True, l_dev = 1, l_ncommit = 0,
        l_lh = \<lparr>lh_n = 1, lh_block = 40 # replicate 29 0\<rparr>\<rparr>\<rparr>"

lemma one_txn_ready: "commit_ready 1 one_txn"
proof -
  let ?b = "\<lparr>b_valid = True, b_dev = 1, b_blockno = 40, b_owner = None, b_refcnt = 1,
      b_data = replicate BSIZE (7 :: byte)\<rparr>" and ?s = "boot (\<lambda>_. replicate BSIZE 0) 5"
  have B: "bcache_ok 1 ?s" "refs 1 ?s = (\<lambda>_. 0)" "owner 1 ?s = (\<lambda>_. None)" "disk ?s = (\<lambda>_. replicate BSIZE 0)"
    using boot_ok [of 1] by simp_all
  have get: "get_buf i ?s = empty_buf" if "i < NBUF" for i
    using that by (simp add: boot_def binit_def get_buf_def)
  have "\<not> holds 1 40 j ?s" for j using get [of j] by (auto simp: holds_def empty_buf_def)
  moreover have "get_buf 0 ?s = empty_buf" by (rule get) (simp add: NBUF_def)
  ultimately have "slot_for 1 40 0 ?s" by (simp add: slot_for_def empty_buf_def NBUF_def)
  moreover have "fits 1 40 ?b ?s" by (simp add: fits_def)
  ultimately have "bcache_ok 1 one_txn" "refs 1 one_txn = (\<lambda>_. 0)(40 := 1)"
      "owner 1 one_txn = (\<lambda>_. None)" "disk one_txn = (\<lambda>_. replicate BSIZE 0)"
    using B bcache_ok_set [of 1 ?s 40 0 ?b] obs_set [of 1 ?s 40 0 ?b]
    by (simp_all add: one_txn_def fun_eq_iff)
  moreover from this have "used (view_of 1 one_txn) = 1" by (simp add: used_def)
  moreover have "sint32 (get32 0 (replicate BSIZE 0)) = 0"
    by (simp add: get32_def sint32_def BSIZE_def)
  ultimately show ?thesis
    by (simp add: commit_ready_def logged_def log_area_def LOGBLOCKS_def NBUF_def one_txn_def)
qed

theorem commit_crash_atomic_witness:
  "\<exists>u r. commit one_txn = Inr u \<and>
    initlog 1 2 (boot (apply_writes (disk one_txn) (take 2 (drop (length (writes one_txn)) (writes u)))) 9) = Inr r \<and>
    disk r 40 = cur 1 one_txn 40"
proof -
  have "lh_n (l_lh (logst one_txn)) > 0" "l_start (logst one_txn) = 2" "logged one_txn = [40]"
      "40 \<notin> log_area 2"
    by (simp_all add: one_txn_def logged_def log_area_def LOGBLOCKS_def)
  with commit_crash_atomic [OF one_txn_ready, of 9] show ?thesis by fastforce
qed


text \<open>Thirty logged blocks, each pinned in its buffer.\<close>

definition full_txn :: fsstate where
  "full_txn = \<lparr>bufs = map (\<lambda>i. \<lparr>b_valid = True, b_dev = 1, b_blockno = 40 + i, b_owner = None,
       b_refcnt = 1, b_data = replicate BSIZE 7\<rparr>) [0..<NBUF], lru = [0..<NBUF],
     disk = (\<lambda>_. replicate BSIZE 0), writes = [], me = 5, logst =
     \<lparr>l_start = 2, l_outstanding = 0, l_committing = True, l_dev = 1, l_ncommit = 0,
        l_lh = \<lparr>lh_n = 30, lh_block = map ((+) 40) [0..<30]\<rparr>\<rparr>\<rparr>"

lemma full_txn_facts:
  "bcache_ok 1 full_txn" "refs 1 full_txn 3 = 0" "card {m. refs 1 full_txn m > 0} = NBUF"
proof -
  have get: "get_buf i full_txn = \<lparr>b_valid = True, b_dev = 1, b_blockno = 40 + i, b_owner = None,
       b_refcnt = 1, b_data = replicate BSIZE 7\<rparr>" if "i < NBUF" for i
    using that by (simp add: get_buf_def full_txn_def)
  show ok: "bcache_ok 1 full_txn"
    unfolding bcache_ok_def by (simp add: get) (auto simp: full_txn_def)
  have "\<forall>i. \<not> holds 1 3 i full_txn" by (auto simp: holds_def get)
  then have "hit 1 3 full_txn = None" by (rule iffD2 [OF hit_None_iff [OF ok]])
  then show "refs 1 full_txn 3 = 0" by (simp add: refs_def)
  have "{i. i < NBUF \<and> b_refcnt (get_buf i full_txn) > 0} = {..<NBUF}" by (auto simp: get)
  then show "card {m. refs 1 full_txn m > 0} = NBUF" using referenced_blocks(2) [OF ok] by simp
qed


section \<open>Transactions\<close>

text \<open>No operation of the cache touches the log's own state.\<close>

lemma bread_more: "bread dev n s = Inr (i, t) \<Longrightarrow> bstate.more t = bstate.more s"
  by (auto simp: bread_def bget_def acquiresleep_def virtio_read_def set_buf_def Let_def andthen_def
      split: option.splits sum.splits if_splits)

lemma bwrite_more: "bwrite i s = Inr t \<Longrightarrow> bstate.more t = bstate.more s"
  by (auto simp: bwrite_def virtio_write_def Let_def split: if_splits)

lemma brelse_more: "brelse i s = Inr t \<Longrightarrow> bstate.more t = bstate.more s"
  by (auto simp: brelse_def set_buf_def Let_def split: if_splits)

lemma pin_more [simp]: "bstate.more (bpin i s) = bstate.more s" "bstate.more (bunpin i s) = bstate.more s"
  "bstate.more (set_data i d s) = bstate.more s"
  by (simp_all add: bpin_def bunpin_def set_data_def set_buf_def)

lemmas logst_cong = more_logst [OF bread_more] more_logst [OF bwrite_more] more_logst [OF brelse_more]

lemma logst_pin [simp]: "logst (bpin i s) = logst s" "logst (bunpin i s) = logst s"
  "logst (set_data i d s) = logst s"
  by (rule more_logst, simp)+

lemma install_one_logst: "install_one b t s = Inr u \<Longrightarrow> logst u = logst s"
  by (auto simp: install_one_def Let_def andthen_Inr_iff dest!: logst_cong split: if_splits)

lemma write_log_one_logst: "write_log_one t s = Inr u \<Longrightarrow> logst u = logst s"
  by (auto simp: write_log_one_def Let_def andthen_Inr_iff dest!: logst_cong)

lemma write_head_logst: "write_head s = Inr u \<Longrightarrow> logst u = logst s"
  by (auto simp: write_head_def andthen_Inr_iff dest!: logst_cong)

lemma for_each_inv:
  assumes "for_each f xs s = Inr u" and "\<And>x s u. f x s = Inr u \<Longrightarrow> g u = g s"
  shows "g u = g s"
  using assms(1) by (induction xs arbitrary: s) (auto simp: andthen_Inr_iff dest: assms(2))

lemma commit_logst:
  assumes "commit s = Inr u"
  shows "logst u = (if lh_n (l_lh (logst s)) > 0
    then (logst s)\<lparr>l_lh := (l_lh (logst s))\<lparr>lh_n := 0\<rparr>\<rparr> else logst s)"
proof (cases "lh_n (l_lh (logst s)) > 0")
  case True
  with assms obtain s1 s2 s3 where c: "write_log s = Inr s1" "write_head s1 = Inr s2"
      "install_trans False s2 = Inr s3" "write_head (set_n 0 s3) = Inr u"
    by (auto simp: commit_def andthen_Inr_iff)
  have "logst s1 = logst s"
    using c(1) unfolding write_log_def by (rule for_each_inv) (rule write_log_one_logst)
  moreover have "logst s3 = logst s2"
    using c(3) unfolding install_trans_def by (rule for_each_inv) (rule install_one_logst)
  ultimately show ?thesis
    using True c(2,4) by (auto simp: set_n_def dest!: write_head_logst)
qed (use assms in \<open>simp add: commit_def\<close>)

text \<open>
  The system calls in progress, each with the number of blocks it may still add to the log: it
  starts with \<open>MAXOPBLOCKS\<close>, and a \<open>log_write\<close> of a block that is logged already costs nothing.
\<close>

inductive log_step :: "fsstate \<times> nat list \<Rightarrow> fsstate \<times> nat list \<Rightarrow> bool" where
  start_op: "begin_op s = Inr t \<Longrightarrow> log_step (s, ops) (t, ops @ [nat MAXOPBLOCKS])"
| absorb: "log_write b s = Inr t \<Longrightarrow> lh_n (l_lh (logst t)) = lh_n (l_lh (logst s)) \<Longrightarrow>
    log_step (s, ops) (t, ops)"
| append: "log_write b s = Inr t \<Longrightarrow> lh_n (l_lh (logst t)) \<noteq> lh_n (l_lh (logst s)) \<Longrightarrow>
    i < length ops \<Longrightarrow> ops ! i > 0 \<Longrightarrow> log_step (s, ops) (t, ops[i := ops ! i - 1])"
| finish_op: "end_op s = Inr t \<Longrightarrow> i < length ops \<Longrightarrow>
    log_step (s, ops) (t, take i ops @ drop (Suc i) ops)"
| cache: "logst t = logst s \<Longrightarrow> log_step (s, ops) (t, ops)"

definition log_init :: "fsstate \<times> nat list \<Rightarrow> bool" where
  "log_init st \<longleftrightarrow> snd st = [] \<and> l_outstanding (logst (fst st)) = 0 \<and>
     \<not> l_committing (logst (fst st)) \<and> lh_n (l_lh (logst (fst st))) = 0"

definition log_inv :: "fsstate \<times> nat list \<Rightarrow> bool" where
  "log_inv st \<longleftrightarrow> (let l = logst (fst st); ops = snd st in
     \<not> l_committing l \<and> l_outstanding l = int (length ops) \<and> 0 \<le> lh_n (l_lh l) \<and>
     lh_n (l_lh l) + int (sum_list ops) \<le> int LOGBLOCKS \<and> (ops = [] \<longrightarrow> lh_n (l_lh l) = 0) \<and>
     (\<forall>n\<in>set ops. int n \<le> MAXOPBLOCKS))"

lemma log_write_lh:
  assumes "log_write b s = Inr t" and "0 \<le> lh_n (l_lh (logst s))"
  shows "l_outstanding (logst t) = l_outstanding (logst s)" "l_committing (logst t) = l_committing (logst s)"
    and "lh_n (l_lh (logst t)) \<in> {lh_n (l_lh (logst s)), lh_n (l_lh (logst s)) + 1}"
  using assms by (auto simp: log_write_def Let_def split: if_splits)

lemma sum_list_dec:
  "i < length ops \<Longrightarrow> ops ! i > (0 :: nat) \<Longrightarrow> sum_list (ops[i := ops ! i - 1]) = sum_list ops - 1"
  by (simp add: sum_list_update)

lemma sum_list_bound: "\<forall>n\<in>set ns. n \<le> c \<Longrightarrow> sum_list ns \<le> c * length ns" for c :: nat
  by (induction ns) auto

lemma sum_list_remove:
  assumes "i < length ops"
  shows "sum_list (take i ops @ drop (Suc i) ops) = sum_list ops - (ops ! i :: nat)"
proof -
  have "sum_list ops = sum_list (take i ops @ ops ! i # drop (Suc i) ops)"
    using id_take_nth_drop [OF assms] by simp
  then show ?thesis by simp
qed

lemma end_op_logst:
  assumes "end_op s = Inr t" and "0 \<le> lh_n (l_lh (logst s))"
  shows "\<not> l_committing (logst s)" "\<not> l_committing (logst t)"
    and "l_outstanding (logst t) = l_outstanding (logst s) - 1"
    and "lh_n (l_lh (logst t)) = (if l_outstanding (logst s) = 1 then 0 else lh_n (l_lh (logst s)))"
  using assms by (auto simp: end_op_def Let_def andthen_Inr_iff split: if_splits dest!: commit_logst)

lemma log_step_inv: "log_step st st' \<Longrightarrow> log_inv st \<Longrightarrow> log_inv st'"
proof (induction rule: log_step.induct)
  case (start_op s t ops)
  then have "sum_list ops \<le> 10 * length ops"
    by (intro sum_list_bound) (simp add: log_inv_def Let_def MAXOPBLOCKS_def)
  with start_op show ?case
    by (auto simp: begin_op_def log_inv_def Let_def MAXOPBLOCKS_def LOGBLOCKS_def split: if_splits)
next
  case (absorb b s t ops)
  then show ?case using log_write_lh [OF absorb(1)] by (simp add: log_inv_def Let_def)
next
  case (append b s t i ops)
  then have "int (ops ! i) \<le> MAXOPBLOCKS" by (simp add: log_inv_def Let_def)
  then have "int (ops ! i) - 1 \<le> MAXOPBLOCKS" by simp
  moreover have "sum_list ops > 0" "ops \<noteq> []"
    using append(3,4) elem_le_sum_list [of i ops] by auto
  ultimately show ?case using append
    using log_write_lh [OF append(1)] sum_list_dec [OF append(3,4)]
    by (auto simp: log_inv_def Let_def dest!: subsetD [OF set_update_subset_insert])
next
  case (finish_op s t i ops)
  have "ops ! i \<le> sum_list ops" using finish_op(2) by (rule elem_le_sum_list)
  moreover have "take i ops @ drop (Suc i) ops = [] \<longleftrightarrow> length ops = 1"
    using finish_op(2) by (cases ops) auto
  ultimately show ?case
    using finish_op end_op_logst [OF finish_op(1)] sum_list_remove [OF finish_op(2)]
    by (auto simp: log_inv_def Let_def dest: in_set_takeD in_set_dropD)
next
  case (cache t s ops)
  then show ?case by (simp add: log_inv_def)
qed

interpretation txn: safety log_init log_step log_inv
proof unfold_locales
  show "log_init st \<Longrightarrow> log_inv st" for st
    by (simp add: log_init_def log_inv_def Let_def LOGBLOCKS_def)
qed (rule log_step_inv)


text \<open>
  C25. No system call waits for ever behind an idle log: when none is in progress the log is empty
  and \<open>begin_op\<close> does not block.
\<close>

theorem begin_op_when_idle:
  assumes "reachable log_init log_step (s, [])"
  shows "\<exists>t. begin_op s = Inr t \<and> l_outstanding (logst t) = 1"
proof -
  have "log_inv (s, [])" using assms by (rule txn.reachable_inv)
  then show ?thesis
    by (auto simp: log_inv_def Let_def begin_op_def MAXOPBLOCKS_def LOGBLOCKS_def)
qed

lemma boot_log_init: "log_init (boot d pid, [])"
  by (simp add: log_init_def boot_def binit_def)

lemma boot_reachable: "reachable log_init log_step (boot d pid, [])"
  by (rule reachable.start) (rule boot_log_init)

lemma boot_begin: "\<exists>t. begin_op (boot d pid) = Inr t"
  by (simp add: begin_op_def boot_def binit_def MAXOPBLOCKS_def LOGBLOCKS_def)


theorem begin_op_when_idle_witness:
  "\<exists>t. begin_op (boot (\<lambda>_. []) 5) = Inr t \<and> l_outstanding (logst t) = 1"
  by (rule begin_op_when_idle) (rule boot_reachable)

end
