(* ===== verification/Kernel_Fs.thy ===== *)
theory Kernel_Fs
  imports Kernel_Log
begin

unbundle bit_operations_syntax

text \<open>
  Blocks, inodes and file contents of \<^verbatim>\<open>xv6/kernel/fs.c\<close>. The buffer cache and the log are
  seen through what they provide: \<open>bread\<close> gives the current contents of a block, and \<open>bread\<close>,
  a change, \<open>log_write\<close> and \<open>brelse\<close> replace them. The calls of \<open>log_write\<close>, \<open>begin_op\<close> and
  \<open>end_op\<close> are recorded in \<open>trace\<close>. There is one disk. A block number is a \<open>uint\<close>; 0 stands for no
  block.
\<close>

section \<open>State\<close>

definition FSMAGIC :: nat where "FSMAGIC = 0x10203040"
definition NDIRECT :: nat where "NDIRECT = 12"
definition NINDIRECT :: nat where "NINDIRECT = BSIZE div 4"
definition MAXFILE :: nat where "MAXFILE = NDIRECT + NINDIRECT"
definition NINODE :: nat where "NINODE = 50"
definition IPB :: nat where "IPB = BSIZE div 64"
definition BPB :: nat where "BPB = BSIZE * 8"
definition ROOTINO :: nat where "ROOTINO = 1"
definition ROOTDEV :: nat where "ROOTDEV = 1"
definition T_DIR :: int where "T_DIR = 1"
definition T_FILE :: int where "T_FILE = 2"
definition T_DEVICE :: int where "T_DEVICE = 3"

record superblock =
  sb_magic :: nat
  sb_size :: nat
  sb_nblocks :: nat
  sb_ninodes :: nat
  sb_nlog :: nat
  sb_logstart :: nat
  sb_inodestart :: nat
  sb_bmapstart :: nat

record dinode =
  d_type :: int
  d_major :: int
  d_minor :: int
  d_nlink :: int
  d_size :: nat
  d_addrs :: "nat list"

text \<open>\<open>i_owner\<close> is the holder of the sleep lock.\<close>

record inode =
  i_dev :: nat
  i_inum :: nat
  i_ref :: int
  i_owner :: "int option"
  i_valid :: bool
  i_type :: int
  i_major :: int
  i_minor :: int
  i_nlink :: int
  i_size :: nat
  i_addrs :: "nat list"

datatype fs_event = BeginOp | EndOp | Logged nat

record fsys =
  blk :: "nat \<Rightarrow> block"
  sblock :: superblock
  itable :: "inode list"
  trace :: "fs_event list"
  messages :: "string list"
  cur_pid :: int

definition event :: "fs_event \<Rightarrow> fsys \<Rightarrow> fsys" where
  "event e s = s\<lparr>trace := trace s @ [e]\<rparr>"

definition printk :: "string \<Rightarrow> fsys \<Rightarrow> fsys" where
  "printk m s = s\<lparr>messages := messages s @ [m]\<rparr>"

text \<open>\<open>bread\<close>, new contents, \<open>log_write\<close>, \<open>brelse\<close>.\<close>

definition log_block :: "nat \<Rightarrow> block \<Rightarrow> fsys \<Rightarrow> fsys" where
  "log_block n d s = event (Logged n) (s\<lparr>blk := (blk s)(n := d)\<rparr>)"

abbreviation get_inode :: "nat \<Rightarrow> fsys \<Rightarrow> inode" where
  "get_inode i s \<equiv> itable s ! i"

definition upd_inode :: "nat \<Rightarrow> (inode \<Rightarrow> inode) \<Rightarrow> fsys \<Rightarrow> fsys" where
  "upd_inode i f s = s\<lparr>itable := (itable s)[i := f (itable s ! i)]\<rparr>"

section \<open>Integers in a block\<close>

definition get16 :: "nat \<Rightarrow> block \<Rightarrow> nat" where
  "get16 i d = unat (d ! (2 * i)) + 256 * unat (d ! (2 * i + 1))"

definition put16 :: "nat \<Rightarrow> nat \<Rightarrow> block \<Rightarrow> block" where
  "put16 i v d = d[2 * i := of_nat v, 2 * i + 1 := of_nat (v div 256)]"

definition sint16 :: "nat \<Rightarrow> int" where
  "sint16 v = (if v < 2 ^ 15 then int v else int v - 2 ^ 16)"

definition uint16 :: "int \<Rightarrow> nat" where
  "uint16 i = nat (i mod 2 ^ 16)"

section \<open>Blocks\<close>

definition readsb :: "fsys \<Rightarrow> fsys" where
  "readsb s =
     (let d = blk s 1 in
      s\<lparr>sblock := \<lparr>sb_magic = get32 0 d, sb_size = get32 1 d, sb_nblocks = get32 2 d, sb_ninodes = get32 3 d,
        sb_nlog = get32 4 d, sb_logstart = get32 5 d, sb_inodestart = get32 6 d, sb_bmapstart = get32 7 d\<rparr>\<rparr>)"

definition IBLOCK :: "nat \<Rightarrow> fsys \<Rightarrow> nat" where
  "IBLOCK i s = i div IPB + sb_inodestart (sblock s)"

definition BBLOCK :: "nat \<Rightarrow> fsys \<Rightarrow> nat" where
  "BBLOCK b s = b div BPB + sb_bmapstart (sblock s)"

definition bzero :: "nat \<Rightarrow> fsys \<Rightarrow> fsys" where
  "bzero bno s = log_block bno (replicate BSIZE 0) s"

definition bit_mask :: "nat \<Rightarrow> byte" where
  "bit_mask bi = push_bit (bi mod 8) 1"

definition bit_used :: "block \<Rightarrow> nat \<Rightarrow> bool" where
  "bit_used d bi \<longleftrightarrow> (d ! (bi div 8)) AND bit_mask bi \<noteq> 0"

definition set_bit_used :: "nat \<Rightarrow> block \<Rightarrow> block" where
  "set_bit_used bi d = d[bi div 8 := (d ! (bi div 8)) OR bit_mask bi]"

definition clear_bit_used :: "nat \<Rightarrow> block \<Rightarrow> block" where
  "clear_bit_used bi d = d[bi div 8 := (d ! (bi div 8)) AND NOT (bit_mask bi)]"

text \<open>The loop over the blocks of the bit map, from \<open>b\<close>.\<close>

function balloc_from :: "nat \<Rightarrow> fsys \<Rightarrow> nat \<times> fsys" where
  "balloc_from b s =
     (if b < sb_size (sblock s) then
        let d = blk s (BBLOCK b s) in
        case find (\<lambda>bi. \<not> bit_used d bi) [0..<min BPB (sb_size (sblock s) - b)] of
          Some bi \<Rightarrow> (b + bi, bzero (b + bi) (log_block (BBLOCK b s) (set_bit_used bi d) s))
        | None \<Rightarrow> balloc_from (b + BPB) s
      else (0, printk ''balloc: out of blocks'' s))"
  by pat_completeness auto
termination by (relation "measure (\<lambda>(b, s). sb_size (sblock s) - b)") (auto simp: BPB_def BSIZE_def)

declare balloc_from.simps [simp del]

definition balloc :: "fsys \<Rightarrow> nat \<times> fsys" where
  "balloc s = balloc_from 0 s"

definition bfree :: "nat \<Rightarrow> fsys \<Rightarrow> kerr + fsys" where
  "bfree b s =
     (let d = blk s (BBLOCK b s); bi = b mod BPB in
      if \<not> bit_used d bi then Inl (Panic ''freeing free block'')
      else Inr (log_block (BBLOCK b s) (clear_bit_used bi d) s))"

section \<open>Inodes on disk\<close>

text \<open>The \<open>k\<close>-th \<open>struct dinode\<close> of a block: four shorts, the size, thirteen block numbers.\<close>

definition get_dinode :: "nat \<Rightarrow> block \<Rightarrow> dinode" where
  "get_dinode k d =
     \<lparr>d_type = sint16 (get16 (32 * k) d), d_major = sint16 (get16 (32 * k + 1) d),
      d_minor = sint16 (get16 (32 * k + 2) d), d_nlink = sint16 (get16 (32 * k + 3) d),
      d_size = get32 (16 * k + 2) d, d_addrs = map (\<lambda>j. get32 (16 * k + 3 + j) d) [0..<NDIRECT + 1]\<rparr>"

definition put_addrs :: "nat \<Rightarrow> nat list \<Rightarrow> block \<Rightarrow> block" where
  "put_addrs k as d = foldl (\<lambda>e j. put32 (16 * k + 3 + j) (as ! j) e) d [0..<NDIRECT + 1]"

definition put_dinode :: "nat \<Rightarrow> dinode \<Rightarrow> block \<Rightarrow> block" where
  "put_dinode k di d =
     put_addrs k (d_addrs di) (put32 (16 * k + 2) (d_size di)
       (put16 (32 * k + 3) (uint16 (d_nlink di)) (put16 (32 * k + 2) (uint16 (d_minor di))
         (put16 (32 * k + 1) (uint16 (d_major di)) (put16 (32 * k) (uint16 (d_type di)) d)))))"

definition zero_dinode :: dinode where
  "zero_dinode = \<lparr>d_type = 0, d_major = 0, d_minor = 0, d_nlink = 0, d_size = 0,
     d_addrs = replicate (NDIRECT + 1) 0\<rparr>"

section \<open>The inode table\<close>

definition zero_inode :: inode where
  "zero_inode = \<lparr>i_dev = 0, i_inum = 0, i_ref = 0, i_owner = None, i_valid = False, i_type = 0, i_major = 0,
     i_minor = 0, i_nlink = 0, i_size = 0, i_addrs = replicate (NDIRECT + 1) 0\<rparr>"

definition iinit :: "fsys \<Rightarrow> fsys" where
  "iinit s = s\<lparr>itable := replicate NINODE zero_inode\<rparr>"

definition iget :: "nat \<Rightarrow> nat \<Rightarrow> fsys \<Rightarrow> kerr + nat \<times> fsys" where
  "iget dev inum s =
     (case find (\<lambda>i. i_ref (get_inode i s) > 0 \<and> i_dev (get_inode i s) = dev \<and> i_inum (get_inode i s) = inum)
        [0..<NINODE] of
        Some i \<Rightarrow> Inr (i, upd_inode i (\<lambda>p. p\<lparr>i_ref := i_ref p + 1\<rparr>) s)
      | None \<Rightarrow>
          (case find (\<lambda>i. i_ref (get_inode i s) = 0) [0..<NINODE] of
             None \<Rightarrow> Inl (Panic ''iget: no inodes'')
           | Some i \<Rightarrow> Inr (i, upd_inode i (\<lambda>p. p\<lparr>i_dev := dev, i_inum := inum, i_ref := 1, i_valid := False\<rparr>) s)))"

definition ialloc :: "nat \<Rightarrow> int \<Rightarrow> fsys \<Rightarrow> kerr + nat option \<times> fsys" where
  "ialloc dev ty s =
     (case find (\<lambda>inum. d_type (get_dinode (inum mod IPB) (blk s (IBLOCK inum s))) = 0)
        [1..<sb_ninodes (sblock s)] of
        None \<Rightarrow> Inr (None, printk ''ialloc: no inodes'' s)
      | Some inum \<Rightarrow>
          andthen (iget dev inum (log_block (IBLOCK inum s)
              (put_dinode (inum mod IPB) (zero_dinode\<lparr>d_type := ty\<rparr>) (blk s (IBLOCK inum s))) s))
            (\<lambda>(i, s1). Inr (Some i, s1)))"

definition dinode_of :: "inode \<Rightarrow> dinode" where
  "dinode_of ip = \<lparr>d_type = i_type ip, d_major = i_major ip, d_minor = i_minor ip, d_nlink = i_nlink ip,
     d_size = i_size ip, d_addrs = i_addrs ip\<rparr>"

definition iupdate :: "nat \<Rightarrow> fsys \<Rightarrow> fsys" where
  "iupdate i s =
     (let ip = get_inode i s; n = IBLOCK (i_inum ip) s in
      log_block n (put_dinode (i_inum ip mod IPB) (dinode_of ip) (blk s n)) s)"

definition idup :: "nat \<Rightarrow> fsys \<Rightarrow> nat \<times> fsys" where
  "idup i s = (i, upd_inode i (\<lambda>p. p\<lparr>i_ref := i_ref p + 1\<rparr>) s)"

definition fill_inode :: "dinode \<Rightarrow> inode \<Rightarrow> inode" where
  "fill_inode di p = p\<lparr>i_type := d_type di, i_major := d_major di, i_minor := d_minor di, i_nlink := d_nlink di,
     i_size := d_size di, i_addrs := d_addrs di, i_valid := True\<rparr>"

definition ilock :: "nat \<Rightarrow> fsys \<Rightarrow> kerr + fsys" where
  "ilock i s =
     (let ip = get_inode i s in
      if i_ref ip < 1 then Inl (Panic ''ilock'')
      else if i_owner ip \<noteq> None then Inl Blocked
      else
        let s1 = upd_inode i (\<lambda>p. p\<lparr>i_owner := Some (cur_pid s)\<rparr>) s in
        if i_valid ip then Inr s1
        else
          let di = get_dinode (i_inum ip mod IPB) (blk s (IBLOCK (i_inum ip) s)) in
          if d_type di = 0 then Inl (Panic ''ilock: no type'') else Inr (upd_inode i (fill_inode di) s1))"

definition holding_inode :: "nat \<Rightarrow> fsys \<Rightarrow> bool" where
  "holding_inode i s \<longleftrightarrow> i_owner (get_inode i s) = Some (cur_pid s)"

definition release_inode :: "nat \<Rightarrow> fsys \<Rightarrow> fsys" where
  "release_inode i s = upd_inode i (\<lambda>p. p\<lparr>i_owner := None\<rparr>) s"

definition iunlock :: "nat \<Rightarrow> fsys \<Rightarrow> kerr + fsys" where
  "iunlock i s =
     (if \<not> holding_inode i s \<or> i_ref (get_inode i s) < 1 then Inl (Panic ''iunlock'') else Inr (release_inode i s))"

definition ifree :: "nat \<Rightarrow> fsys \<Rightarrow> fsys" where
  "ifree inum s =
     (let n = IBLOCK inum s in log_block n (put16 (32 * (inum mod IPB)) 0 (blk s n)) s)"

section \<open>Truncation\<close>

fun free_addrs :: "nat list \<Rightarrow> fsys \<Rightarrow> kerr + fsys" where
  "free_addrs [] s = Inr s"
| "free_addrs (a # as) s = (if a \<noteq> 0 then andthen (bfree a s) (free_addrs as) else free_addrs as s)"

definition itrunc :: "nat \<Rightarrow> fsys \<Rightarrow> kerr + fsys" where
  "itrunc i s =
     (let as = i_addrs (get_inode i s); ind = as ! NDIRECT in
      andthen (free_addrs (take NDIRECT as) s) (\<lambda>s1.
        let s2 = upd_inode i (\<lambda>p. p\<lparr>i_addrs := replicate NDIRECT 0 @ drop NDIRECT (i_addrs p)\<rparr>) s1 in
        andthen
          (if ind \<noteq> 0 then
             andthen (free_addrs (map (\<lambda>j. get32 j (blk s2 ind)) [0..<NINDIRECT]) s2) (\<lambda>s3.
             andthen (bfree ind s3) (\<lambda>s4.
               Inr (upd_inode i (\<lambda>p. p\<lparr>i_addrs := (i_addrs p)[NDIRECT := 0]\<rparr>) s4)))
           else Inr s2)
          (\<lambda>s5. Inr (iupdate i (upd_inode i (\<lambda>p. p\<lparr>i_size := 0\<rparr>) s5)))))"

definition iput :: "nat \<Rightarrow> fsys \<Rightarrow> kerr + fsys" where
  "iput i s =
     (let ip = get_inode i s; lst = (i_ref ip = 1 \<and> i_valid ip \<and> i_nlink ip = 0) in
      andthen
        (if lst then
           if i_owner ip \<noteq> None then Inl Blocked
           else
             andthen (itrunc i (upd_inode i (\<lambda>p. p\<lparr>i_owner := Some (cur_pid s)\<rparr>) s)) (\<lambda>s1.
               Inr (release_inode i (upd_inode i (\<lambda>p. p\<lparr>i_valid := False\<rparr>) s1)))
         else Inr s)
        (\<lambda>s2.
          let s3 = upd_inode i (\<lambda>p. p\<lparr>i_ref := i_ref p - 1\<rparr>) s2 in
          Inr (if lst then ifree (i_inum ip) s3 else s3)))"

definition iunlockput :: "nat \<Rightarrow> fsys \<Rightarrow> kerr + fsys" where
  "iunlockput i s = andthen (iunlock i s) (iput i)"

fun ireclaim_from :: "nat list \<Rightarrow> fsys \<Rightarrow> kerr + fsys" where
  "ireclaim_from [] s = Inr s"
| "ireclaim_from (inum # inums) s =
     (let di = get_dinode (inum mod IPB) (blk s (IBLOCK inum s)) in
      if d_type di \<noteq> 0 \<and> d_nlink di = 0 then
        andthen (iget ROOTDEV inum (printk (''ireclaim: orphaned inode '' @ show_nat inum) s)) (\<lambda>(i, s1).
        andthen (ilock i (event BeginOp s1)) (\<lambda>s2.
        andthen (iunlock i s2) (\<lambda>s3.
        andthen (iput i s3) (\<lambda>s4. ireclaim_from inums (event EndOp s4)))))
      else ireclaim_from inums s)"

definition ireclaim :: "fsys \<Rightarrow> kerr + fsys" where
  "ireclaim s = ireclaim_from [1..<sb_ninodes (sblock s)] s"

text \<open>\<open>initlog\<close> is what makes the blocks current: recovery has happened when \<open>blk\<close> is read.\<close>

definition fsinit :: "fsys \<Rightarrow> kerr + fsys" where
  "fsinit s =
     (let s1 = readsb s in
      if sb_magic (sblock s1) \<noteq> FSMAGIC then Inl (Panic ''invalid file system'') else ireclaim s1)"

section \<open>Contents\<close>

text \<open>The block of the file with number \<open>bn\<close>, allocated if necessary; 0 when the disk is full.\<close>

definition bmap :: "nat \<Rightarrow> nat \<Rightarrow> fsys \<Rightarrow> kerr + nat \<times> fsys" where
  "bmap i bn s =
     (let as = i_addrs (get_inode i s) in
      if bn < NDIRECT then
        if as ! bn = 0 then
          let (addr, s1) = balloc s in
          Inr (if addr = 0 then (0, s1)
               else (addr, upd_inode i (\<lambda>p. p\<lparr>i_addrs := (i_addrs p)[bn := addr]\<rparr>) s1))
        else Inr (as ! bn, s)
      else
        let bn' = bn - NDIRECT in
        if bn' < NINDIRECT then
          let (ind, s1) = (if as ! NDIRECT = 0 then
                let (addr, s1) = balloc s in
                if addr = 0 then (0, s1)
                else (addr, upd_inode i (\<lambda>p. p\<lparr>i_addrs := (i_addrs p)[NDIRECT := addr]\<rparr>) s1)
              else (as ! NDIRECT, s))
          in if ind = 0 then Inr (0, s1)
             else if get32 bn' (blk s1 ind) = 0 then
               let (addr, s2) = balloc s1 in
               Inr (if addr \<noteq> 0 then (addr, log_block ind (put32 bn' addr (blk s2 ind)) s2) else (0, s2))
             else Inr (get32 bn' (blk s1 ind), s1)
        else Inl (Panic ''bmap: out of range''))"

record stat =
  st_dev :: int
  st_ino :: nat
  st_type :: int
  st_nlink :: int
  st_size :: nat

definition stati :: "nat \<Rightarrow> fsys \<Rightarrow> stat" where
  "stati i s = (let ip = get_inode i s in
     \<lparr>st_dev = int (i_dev ip), st_ino = i_inum ip, st_type = i_type ip, st_nlink = i_nlink ip, st_size = i_size ip\<rparr>)"

text \<open>
  The loop of \<open>readi\<close>; \<open>ok tot m\<close> is whether \<open>either_copyout\<close> of the \<open>m\<close> bytes at \<open>dst + tot\<close>
  succeeds. The result is the value returned and the bytes copied out.
\<close>

function read_from :: "(nat \<Rightarrow> nat \<Rightarrow> bool) \<Rightarrow> nat \<Rightarrow> nat \<Rightarrow> nat \<Rightarrow> nat \<Rightarrow> fsys \<Rightarrow> kerr + int \<times> byte list \<times> fsys" where
  "read_from ok i off n tot s =
     (if tot < n then
        andthen (bmap i (off div BSIZE) s) (\<lambda>(addr, s1).
          if addr = 0 then Inr (int tot, [], s1)
          else
            let m = min (n - tot) (BSIZE - off mod BSIZE) in
            if \<not> ok tot m then Inr (-1, [], s1)
            else
              andthen (read_from ok i (off + m) n (tot + m) s1) (\<lambda>(r, bs, s2).
                Inr (r, take m (drop (off mod BSIZE) (blk s1 addr)) @ bs, s2)))
      else Inr (int tot, [], s))"
  by pat_completeness auto
termination
  by (relation "measure (\<lambda>(ok, i, off, n, tot, s). n - tot)") (auto simp: BSIZE_def)

declare read_from.simps [simp del]

definition readi :: "(nat \<Rightarrow> nat \<Rightarrow> bool) \<Rightarrow> nat \<Rightarrow> nat \<Rightarrow> nat \<Rightarrow> fsys \<Rightarrow> kerr + int \<times> byte list \<times> fsys" where
  "readi ok i off n s =
     (let size = i_size (get_inode i s) in
      if off > size \<or> (off + n) mod 2 ^ 32 < off then Inr (0, [], s)
      else read_from ok i off (if (off + n) mod 2 ^ 32 > size then size - off else n) 0 s)"

text \<open>
  The loop of \<open>writei\<close>; \<open>src tot m\<close> are the bytes \<open>either_copyin\<close> of the \<open>m\<close> bytes at \<open>src + tot\<close>
  brings in and whether it succeeds. The result is \<open>tot\<close> and \<open>off\<close>.
\<close>

definition overlay :: "nat \<Rightarrow> byte list \<Rightarrow> block \<Rightarrow> block" where
  "overlay at bs d = take at d @ bs @ drop (at + length bs) d"

function write_from ::
  "(nat \<Rightarrow> nat \<Rightarrow> byte list \<times> bool) \<Rightarrow> nat \<Rightarrow> nat \<Rightarrow> nat \<Rightarrow> nat \<Rightarrow> fsys \<Rightarrow> kerr + nat \<times> nat \<times> fsys" where
  "write_from src i off n tot s =
     (if tot < n then
        andthen (bmap i (off div BSIZE) s) (\<lambda>(addr, s1).
          if addr = 0 then Inr (tot, off, s1)
          else
            let m = min (n - tot) (BSIZE - off mod BSIZE);
                (bs, good) = src tot m;
                s2 = log_block addr (overlay (off mod BSIZE) bs (blk s1 addr)) s1
            in if \<not> good then Inr (tot, off, s2) else write_from src i (off + m) n (tot + m) s2)
      else Inr (tot, off, s))"
  by pat_completeness auto
termination
  by (relation "measure (\<lambda>(src, i, off, n, tot, s). n - tot)") (auto simp: BSIZE_def)

declare write_from.simps [simp del]

definition writei :: "(nat \<Rightarrow> nat \<Rightarrow> byte list \<times> bool) \<Rightarrow> nat \<Rightarrow> nat \<Rightarrow> nat \<Rightarrow> fsys \<Rightarrow> kerr + int \<times> fsys" where
  "writei src i off n s =
     (if off > i_size (get_inode i s) \<or> (off + n) mod 2 ^ 32 < off then Inr (-1, s)
      else if (off + n) mod 2 ^ 32 > MAXFILE * BSIZE then Inr (-1, s)
      else
        andthen (write_from src i off n 0 s) (\<lambda>(tot, off', s1).
          Inr (int tot, iupdate i (if off' > i_size (get_inode i s1)
            then upd_inode i (\<lambda>p. p\<lparr>i_size := off'\<rparr>) s1 else s1))))"

text \<open>Copies from and to kernel memory always succeed.\<close>

definition from_kernel :: "byte list \<Rightarrow> nat \<Rightarrow> nat \<Rightarrow> byte list \<times> bool" where
  "from_kernel data tot m = (take m (drop tot data), True)"

definition to_kernel :: "nat \<Rightarrow> nat \<Rightarrow> bool" where
  "to_kernel tot m = True"

end
