(* ===== verification/Kernel_Dir.thy ===== *)
theory Kernel_Dir
  imports Kernel_Fs
begin

text \<open>
  Directories and path names of \<^verbatim>\<open>xv6/kernel/fs.c\<close>. A path is the list of its bytes before
  the NUL. A name is the bytes of a \<open>char[DIRSIZ]\<close> before the first NUL, at most \<open>DIRSIZ\<close> of them.
\<close>

section \<open>Names\<close>

definition DIRSIZ :: nat where "DIRSIZ = 14"

definition DIRENT :: nat where "DIRENT = 16"

text \<open>The byte a pointer into a string points at.\<close>

definition deref :: "byte list \<Rightarrow> byte" where
  "deref s = (case s of [] \<Rightarrow> 0 | c # _ \<Rightarrow> c)"

primrec strncmp_str :: "nat \<Rightarrow> byte list \<Rightarrow> byte list \<Rightarrow> int" where
  "strncmp_str 0 p q = 0"
| "strncmp_str (Suc n) p q =
     (if deref p \<noteq> 0 \<and> deref p = deref q then strncmp_str n (tl p) (tl q) else uint (deref p) - uint (deref q))"

definition namecmp :: "byte list \<Rightarrow> byte list \<Rightarrow> int" where
  "namecmp s t = strncmp_str DIRSIZ s t"

definition slash :: byte where "slash = 47"
definition dot :: byte where "dot = 46"

text \<open>The next element of a path, cut to \<open>DIRSIZ\<close> bytes, and the rest without leading slashes.\<close>

definition skipelem :: "byte list \<Rightarrow> (byte list \<times> byte list) option" where
  "skipelem path =
     (let p = dropWhile (\<lambda>c. c = slash) path in
      if p = [] then None
      else Some (take DIRSIZ (takeWhile (\<lambda>c. c \<noteq> slash) p),
        dropWhile (\<lambda>c. c = slash) (dropWhile (\<lambda>c. c \<noteq> slash) p)))"

section \<open>Directory entries\<close>

text \<open>\<open>struct dirent\<close>: a \<open>ushort\<close> and fourteen bytes.\<close>

definition de_inum :: "byte list \<Rightarrow> nat" where
  "de_inum de = get16 0 de"

definition de_name :: "byte list \<Rightarrow> byte list" where
  "de_name de = drop 2 de"

text \<open>The entry \<open>dirlink\<close> builds: \<open>strncpy\<close> pads with NULs, \<open>inum\<close> is cut to 16 bits.\<close>

definition mk_dirent :: "byte list \<Rightarrow> nat \<Rightarrow> byte list" where
  "mk_dirent name inum =
     of_nat inum # of_nat (inum div 256) # take DIRSIZ name @ replicate (DIRSIZ - length name) 0"

text \<open>The loop of \<open>dirlookup\<close>; \<open>readi\<close> does not change the size \<open>sz\<close>.\<close>

function lookup_from :: "nat \<Rightarrow> byte list \<Rightarrow> nat \<Rightarrow> nat \<Rightarrow> fsys \<Rightarrow> kerr + (nat \<times> nat) option \<times> fsys" where
  "lookup_from dp name sz off s =
     (if off < sz then
        andthen (readi to_kernel dp off DIRENT s) (\<lambda>(r, de, s1).
          if r \<noteq> int DIRENT then Inl (Panic ''dirlookup read'')
          else if de_inum de = 0 then lookup_from dp name sz (off + DIRENT) s1
          else if namecmp name (de_name de) = 0 then
            andthen (iget (i_dev (get_inode dp s1)) (de_inum de) s1) (\<lambda>(ip, s2). Inr (Some (ip, off), s2))
          else lookup_from dp name sz (off + DIRENT) s1)
      else Inr (None, s))"
  by pat_completeness auto
termination by (relation "measure (\<lambda>(dp, name, sz, off, s). sz - off)") (auto simp: DIRENT_def)

declare lookup_from.simps [simp del]

definition dirlookup :: "nat \<Rightarrow> byte list \<Rightarrow> fsys \<Rightarrow> kerr + (nat \<times> nat) option \<times> fsys" where
  "dirlookup dp name s =
     (if i_type (get_inode dp s) \<noteq> T_DIR then Inl (Panic ''dirlookup not DIR'')
      else lookup_from dp name (i_size (get_inode dp s)) 0 s)"

text \<open>The search for an unused entry.\<close>

function empty_from :: "nat \<Rightarrow> nat \<Rightarrow> nat \<Rightarrow> fsys \<Rightarrow> kerr + nat \<times> fsys" where
  "empty_from dp sz off s =
     (if off < sz then
        andthen (readi to_kernel dp off DIRENT s) (\<lambda>(r, de, s1).
          if r \<noteq> int DIRENT then Inl (Panic ''dirlink read'')
          else if de_inum de = 0 then Inr (off, s1)
          else empty_from dp sz (off + DIRENT) s1)
      else Inr (off, s))"
  by pat_completeness auto
termination by (relation "measure (\<lambda>(dp, sz, off, s). sz - off)") (auto simp: DIRENT_def)

declare empty_from.simps [simp del]

definition dirlink :: "nat \<Rightarrow> byte list \<Rightarrow> nat \<Rightarrow> fsys \<Rightarrow> kerr + int \<times> fsys" where
  "dirlink dp name inum s =
     andthen (dirlookup dp name s) (\<lambda>(found, s1).
       case found of
         Some (ip, _) \<Rightarrow> andthen (iput ip s1) (\<lambda>s2. Inr (-1, s2))
       | None \<Rightarrow>
           andthen (empty_from dp (i_size (get_inode dp s1)) 0 s1) (\<lambda>(off, s2).
           andthen (writei (from_kernel (mk_dirent name inum)) dp off DIRENT s2) (\<lambda>(r, s3).
             Inr (if r \<noteq> int DIRENT then -1 else 0, s3))))"

section \<open>Paths\<close>

lemma skipelem_shorter: "skipelem path = Some (name, rest) \<Longrightarrow> length rest < length path"
proof -
  assume a: "skipelem path = Some (name, rest)"
  let ?p = "dropWhile (\<lambda>c. c = slash) path"
  have p: "?p \<noteq> []" "rest = dropWhile (\<lambda>c. c = slash) (dropWhile (\<lambda>c. c \<noteq> slash) ?p)"
    using a by (auto simp: skipelem_def Let_def split: if_splits)
  then have "hd ?p \<noteq> slash" by (metis (full_types) hd_dropWhile)
  then have "length (dropWhile (\<lambda>c. c \<noteq> slash) ?p) < length ?p"
    using p(1) length_dropWhile_le [of "\<lambda>c. c \<noteq> slash" "tl ?p"] by (cases ?p) auto
  moreover have "length rest \<le> length (dropWhile (\<lambda>c. c \<noteq> slash) ?p)" unfolding p(2) by (rule length_dropWhile_le)
  moreover have "length ?p \<le> length path" by (rule length_dropWhile_le)
  ultimately show ?thesis by linarith
qed

text \<open>The loop of \<open>namex\<close>: the inode, and the last element when the parent was asked for.\<close>

function namex_from :: "bool \<Rightarrow> byte list \<Rightarrow> byte list \<Rightarrow> nat \<Rightarrow> fsys \<Rightarrow> kerr + (nat option \<times> byte list) \<times> fsys" where
  "namex_from parent path nm ip s =
     (case skipelem path of
        None \<Rightarrow>
          if parent then andthen (iput ip s) (\<lambda>s1. Inr ((None, nm), s1)) else Inr ((Some ip, nm), s)
      | Some (name, rest) \<Rightarrow>
          andthen (ilock ip s) (\<lambda>s1.
            if i_type (get_inode ip s1) \<noteq> T_DIR then andthen (iunlockput ip s1) (\<lambda>s2. Inr ((None, name), s2))
            else if i_nlink (get_inode ip s1) = 0 then andthen (iunlockput ip s1) (\<lambda>s2. Inr ((None, name), s2))
            else if parent \<and> rest = [] then andthen (iunlock ip s1) (\<lambda>s2. Inr ((Some ip, name), s2))
            else
              andthen (dirlookup ip name s1) (\<lambda>(found, s2).
                case found of
                  None \<Rightarrow> andthen (iunlockput ip s2) (\<lambda>s3. Inr ((None, name), s3))
                | Some (nxt, _) \<Rightarrow>
                    andthen (iunlockput ip s2) (\<lambda>s3. namex_from parent rest name nxt s3))))"
  by pat_completeness auto
termination
  by (relation "measure (\<lambda>(parent, path, nm, ip, s). length path)") (auto dest: skipelem_shorter)

declare namex_from.simps [simp del]

text \<open>\<open>cwd\<close> is \<open>myproc()->cwd\<close>.\<close>

definition namex :: "bool \<Rightarrow> byte list \<Rightarrow> nat \<Rightarrow> fsys \<Rightarrow> kerr + (nat option \<times> byte list) \<times> fsys" where
  "namex parent path cwd s =
     (if deref path = slash then
        andthen (iget ROOTDEV ROOTINO s) (\<lambda>(ip, s1). namex_from parent path [] ip s1)
      else let (ip, s1) = idup cwd s in namex_from parent path [] ip s1)"

definition namei :: "byte list \<Rightarrow> nat \<Rightarrow> fsys \<Rightarrow> kerr + nat option \<times> fsys" where
  "namei path cwd s = andthen (namex False path cwd s) (\<lambda>((ip, _), s1). Inr (ip, s1))"

definition nameiparent :: "byte list \<Rightarrow> nat \<Rightarrow> fsys \<Rightarrow> kerr + (nat option \<times> byte list) \<times> fsys" where
  "nameiparent path cwd s = namex True path cwd s"

end
