(* ===== verification/Kernel_Pipe.thy ===== *)
theory Kernel_Pipe
  imports Prelude
begin

text \<open>
  Pipes, \<^verbatim>\<open>xv6/kernel/pipe.c\<close>: a ring buffer of 512 bytes with 32-bit counters that
  wrap around. A call that has to sleep returns \<open>Sleeps\<close>, and goes on from the same place when the
  process runs again. \<open>user i\<close> is the byte \<open>copyin\<close> reads at \<open>addr + i\<close>, \<open>None\<close> when it fails;
  \<open>room i\<close> is whether \<open>copyout\<close> to \<open>addr + i\<close> succeeds.
\<close>

section \<open>The ring buffer\<close>

definition PIPESIZE :: nat where "PIPESIZE = 512"

datatype pipechan = NreadChan | NwriteChan

text \<open>\<open>woken\<close> records the calls of \<open>wakeup\<close>.\<close>

record pipe =
  p_data :: "byte list"
  nread :: "32 word"
  nwrite :: "32 word"
  readopen :: bool
  writeopen :: bool
  woken :: "pipechan list"

text \<open>What \<open>pipealloc\<close> makes of a fresh page.\<close>

definition new_pipe :: "byte list \<Rightarrow> pipe" where
  "new_pipe page = \<lparr>p_data = page, nread = 0, nwrite = 0, readopen = True, writeopen = True, woken = []\<rparr>"

definition wake :: "pipechan \<Rightarrow> pipe \<Rightarrow> pipe" where
  "wake c pi = pi\<lparr>woken := woken pi @ [c]\<rparr>"

text \<open>\<open>pi->data[pi->nwrite++ % PIPESIZE] = ch\<close>, and the read of \<open>pi->data[pi->nread % PIPESIZE]\<close>.\<close>

definition put_byte :: "byte \<Rightarrow> pipe \<Rightarrow> pipe" where
  "put_byte ch pi = pi\<lparr>p_data := (p_data pi)[unat (nwrite pi) mod PIPESIZE := ch], nwrite := nwrite pi + 1\<rparr>"

definition front :: "pipe \<Rightarrow> byte" where
  "front pi = p_data pi ! (unat (nread pi) mod PIPESIZE)"

definition drop_front :: "pipe \<Rightarrow> pipe" where
  "drop_front pi = pi\<lparr>nread := nread pi + 1\<rparr>"

definition pipe_full :: "pipe \<Rightarrow> bool" where
  "pipe_full pi \<longleftrightarrow> nwrite pi = nread pi + of_nat PIPESIZE"

definition pipe_empty :: "pipe \<Rightarrow> bool" where
  "pipe_empty pi \<longleftrightarrow> nread pi = nwrite pi"

section \<open>The calls\<close>

text \<open>\<open>True\<close> in the result is the page given back to \<open>kfree\<close>.\<close>

definition pipeclose :: "bool \<Rightarrow> pipe \<Rightarrow> pipe \<times> bool" where
  "pipeclose writable pi =
     (let pi1 = (if writable then wake NreadChan (pi\<lparr>writeopen := False\<rparr>)
                 else wake NwriteChan (pi\<lparr>readopen := False\<rparr>))
      in (pi1, \<not> readopen pi1 \<and> \<not> writeopen pi1))"

datatype pipe_result = Returns int | Sleeps

text \<open>The loop of \<open>pipewrite\<close> from index \<open>i\<close>: the result, the index it got to, the pipe.\<close>

function pipewrite :: "bool \<Rightarrow> (nat \<Rightarrow> byte option) \<Rightarrow> int \<Rightarrow> nat \<Rightarrow> pipe \<Rightarrow> pipe_result \<times> nat \<times> pipe" where
  "pipewrite killed user n i pi =
     (if int i < n then
        if \<not> readopen pi \<or> killed then (Returns (-1), i, pi)
        else if pipe_full pi then (Sleeps, i, wake NreadChan pi)
        else
          (case user i of
             None \<Rightarrow> (Returns (if i = 0 then -1 else int i), i, wake NreadChan pi)
           | Some ch \<Rightarrow> pipewrite killed user n (i + 1) (put_byte ch pi))
      else (Returns (int i), i, wake NreadChan pi))"
  by pat_completeness auto
termination by (relation "measure (\<lambda>(killed, user, n, i, pi). nat n - i)") auto

declare pipewrite.simps [simp del]

text \<open>The copying loop of \<open>piperead\<close>: the value of \<open>i\<close> at the end, the bytes delivered, the pipe.\<close>

function read_loop :: "(nat \<Rightarrow> bool) \<Rightarrow> int \<Rightarrow> nat \<Rightarrow> pipe \<Rightarrow> int \<times> byte list \<times> pipe" where
  "read_loop room n i pi =
     (if int i < n \<and> \<not> pipe_empty pi then
        if \<not> room i then ((if i = 0 then -1 else int i), [], pi)
        else let (r, bs, pi') = read_loop room n (i + 1) (drop_front pi) in (r, front pi # bs, pi')
      else (int i, [], pi))"
  by pat_completeness auto
termination by (relation "measure (\<lambda>(room, n, i, pi). nat n - i)") auto

declare read_loop.simps [simp del]

definition piperead :: "bool \<Rightarrow> (nat \<Rightarrow> bool) \<Rightarrow> int \<Rightarrow> pipe \<Rightarrow> pipe_result \<times> byte list \<times> pipe" where
  "piperead killed room n pi =
     (if pipe_empty pi \<and> writeopen pi then
        if killed then (Returns (-1), [], pi) else (Sleeps, [], pi)
      else let (i, bs, pi') = read_loop room n 0 pi in (Returns i, bs, wake NwriteChan pi'))"

section \<open>A bounded queue\<close>

text \<open>The contract the two loops rely on: a queue with a capacity.\<close>

locale bounded_queue =
  fixes cap :: nat and wf :: "'q \<Rightarrow> bool" and cont :: "'q \<Rightarrow> 'a list"
    and enq :: "'a \<Rightarrow> 'q \<Rightarrow> 'q" and hd_q :: "'q \<Rightarrow> 'a" and deq :: "'q \<Rightarrow> 'q"
    and is_full :: "'q \<Rightarrow> bool" and is_empty :: "'q \<Rightarrow> bool"
  assumes bound: "wf q \<Longrightarrow> length (cont q) \<le> cap"
    and full_iff: "wf q \<Longrightarrow> is_full q \<longleftrightarrow> length (cont q) = cap"
    and empty_iff: "wf q \<Longrightarrow> is_empty q \<longleftrightarrow> cont q = []"
    and enq_ok: "wf q \<Longrightarrow> \<not> is_full q \<Longrightarrow> wf (enq x q) \<and> cont (enq x q) = cont q @ [x]"
    and deq_ok: "wf q \<Longrightarrow> \<not> is_empty q \<Longrightarrow> wf (deq q) \<and> cont q = hd_q q # cont (deq q)"
begin

text \<open>Enqueueing what fits, and dequeueing what there is.\<close>

lemma enq_all:
  "wf q \<Longrightarrow> length (cont q) + length xs \<le> cap \<Longrightarrow> wf (fold enq xs q) \<and> cont (fold enq xs q) = cont q @ xs"
  by (induction xs arbitrary: q) (auto simp: full_iff enq_ok)

lemma deq_some:
  "wf q \<Longrightarrow> k \<le> length (cont q) \<Longrightarrow> wf ((deq ^^ k) q) \<and> cont ((deq ^^ k) q) = drop k (cont q)"
proof (induction k)
  case (Suc k)
  then have q: "wf ((deq ^^ k) q)" "cont ((deq ^^ k) q) = drop k (cont q)" by simp_all
  moreover have "drop k (cont q) \<noteq> []" using Suc.prems(2) by simp
  ultimately have "wf (deq ((deq ^^ k) q)) \<and> drop k (cont q) = hd_q ((deq ^^ k) q) # cont (deq ((deq ^^ k) q))"
    using deq_ok [OF q(1)] empty_iff [OF q(1)] by simp
  then show ?case by (simp add: drop_Suc tl_drop) (metis list.sel(3) tl_drop drop_Suc)
qed simp

end

text \<open>The ring buffer as a queue: the counters differ by the number of bytes in it.\<close>

definition contents :: "pipe \<Rightarrow> byte list" where
  "contents pi = map (\<lambda>k. p_data pi ! ((unat (nread pi) + k) mod PIPESIZE)) [0..<unat (nwrite pi - nread pi)]"

definition pipe_ok :: "pipe \<Rightarrow> bool" where
  "pipe_ok pi \<longleftrightarrow> length (p_data pi) = PIPESIZE \<and> unat (nwrite pi - nread pi) \<le> PIPESIZE"

text \<open>\<open>PIPESIZE\<close> divides \<open>2 ^ 32\<close>, so that the counters may wrap.\<close>

lemma wrap_pos: "x mod 2 ^ 32 mod PIPESIZE = x mod PIPESIZE"
  by (rule mod_mod_cancel) (simp add: PIPESIZE_def)

lemma unat_inc_mod: "unat (w + 1 :: 32 word) mod PIPESIZE = (unat w + 1) mod PIPESIZE"
  using wrap_pos [of "unat w + 1"] by (simp add: unat_word_ariths)

lemma next_pos: "(unat (w + 1 :: 32 word) + k) mod PIPESIZE = (unat w + Suc k) mod PIPESIZE"
proof -
  have "(unat (w + 1) + k) mod PIPESIZE = ((unat w + 1) mod PIPESIZE + k) mod PIPESIZE"
    by (simp only: mod_add_left_eq [of "unat (w + 1)", symmetric] unat_inc_mod)
  also have "\<dots> = (unat w + Suc k) mod PIPESIZE" by (simp only: mod_add_left_eq) simp
  finally show ?thesis .
qed

lemma nwrite_pos: "unat b mod PIPESIZE = (unat a + unat (b - a)) mod PIPESIZE" for a b :: "32 word"
proof -
  have "b = a + (b - a)" by simp
  then have "unat b = (unat a + unat (b - a)) mod 2 ^ 32" using unat_word_ariths(1) [of a "b - a"] by simp
  then show ?thesis by (simp only: wrap_pos)
qed

lemma unat_Suc: "unat w < 2 ^ 32 - 1 \<Longrightarrow> unat (w + 1) = unat w + 1" for w :: "32 word"
  by (simp add: unat_word_ariths)

lemma unat_pred: "w \<noteq> 0 \<Longrightarrow> unat (w - 1) = unat w - 1" for w :: "32 word"
  by (simp add: unat_minus_one)

lemma pos_inj:
  assumes "(r + k) mod PIPESIZE = (r + j) mod PIPESIZE" and "k < PIPESIZE" and "j < PIPESIZE"
  shows "k = j"
proof -
  have "a = b" if "(r + a) mod PIPESIZE = (r + b) mod PIPESIZE" "b \<le> a" "a < PIPESIZE" for a b
  proof -
    have "PIPESIZE dvd r + a - (r + b)" using that(1,2) mod_eq_dvd_iff_nat [of "r + b" "r + a"] by simp
    then have "PIPESIZE dvd a - b" by simp
    then show ?thesis using that(2,3) by (auto dest: dvd_imp_le)
  qed
  from this [of k j] this [of j k] assms show ?thesis by (cases "j \<le> k") auto
qed

interpretation ring: bounded_queue PIPESIZE pipe_ok contents put_byte front drop_front pipe_full pipe_empty
proof
  fix q :: pipe and x
  assume ok: "pipe_ok q"
  let ?k = "unat (nwrite q - nread q)"
  have k: "?k \<le> PIPESIZE" "length (p_data q) = PIPESIZE" using ok by (simp_all add: pipe_ok_def)
  have len: "length (contents q) = ?k" by (simp add: contents_def)
  show "length (contents q) \<le> PIPESIZE" using len k by simp
  show full: "pipe_full q \<longleftrightarrow> length (contents q) = PIPESIZE"
  proof -
    have "pipe_full q \<longleftrightarrow> nwrite q - nread q = of_nat PIPESIZE" by (auto simp: pipe_full_def diff_eq_eq add.commute)
    also have "\<dots> \<longleftrightarrow> ?k = PIPESIZE" by (auto simp: PIPESIZE_def) (simp add: word_unat_eq_iff)
    finally show ?thesis using len by simp
  qed
  show empty: "pipe_empty q \<longleftrightarrow> contents q = []"
  proof -
    have "contents q = [] \<longleftrightarrow> nwrite q - nread q = 0" using len by (auto simp: unat_eq_0 simp flip: length_0_conv)
    then show ?thesis by (auto simp: pipe_empty_def)
  qed
  show "pipe_ok (put_byte x q) \<and> contents (put_byte x q) = contents q @ [x]" if "\<not> pipe_full q"
  proof -
    have lt: "?k < PIPESIZE" using that full len k by simp
    have d: "unat (nwrite q + 1 - nread q) = ?k + 1"
      using unat_Suc [of "nwrite q - nread q"] lt by (simp add: PIPESIZE_def algebra_simps)
    have pos: "unat (nwrite q) mod PIPESIZE = (unat (nread q) + ?k) mod PIPESIZE" by (rule nwrite_pos)
    have other: "(unat (nread q) + j) mod PIPESIZE \<noteq> (unat (nread q) + ?k) mod PIPESIZE" if "j < ?k" for j
      using pos_inj [of "unat (nread q)" j ?k] that lt by auto
    have "contents (put_byte x q) = contents q @ [x]"
      using d k(2) other lt by (auto simp: contents_def put_byte_def pos nth_list_update dest: sym)
    moreover have "pipe_ok (put_byte x q)" using d lt k by (simp add: pipe_ok_def put_byte_def)
    ultimately show ?thesis by simp
  qed
  show "pipe_ok (drop_front q) \<and> contents q = front q # contents (drop_front q)" if "\<not> pipe_empty q"
  proof -
    have ne: "nwrite q - nread q \<noteq> 0" using that by (auto simp: pipe_empty_def)
    have d: "unat (nwrite q - (nread q + 1)) = ?k - 1" "0 < ?k"
      using unat_pred [OF ne] ne by (simp_all add: algebra_simps unat_gt_0)
    have "[0..<?k] = 0 # map Suc [0..<?k - 1]" using d(2) by (simp add: map_Suc_upt upt_conv_Cons)
    then have "contents q = front q # contents (drop_front q)"
      using d by (simp add: contents_def drop_front_def front_def o_def next_pos)
    moreover have "pipe_ok (drop_front q)" using d k by (simp add: pipe_ok_def drop_front_def)
    ultimately show ?thesis by simp
  qed
qed

lemma ok_wake [simp]: "pipe_ok (wake c pi) = pipe_ok pi" "contents (wake c pi) = contents pi"
  "readopen (wake c pi) = readopen pi" "writeopen (wake c pi) = writeopen pi"
  "pipe_full (wake c pi) = pipe_full pi" "pipe_empty (wake c pi) = pipe_empty pi"
  by (simp_all add: wake_def pipe_ok_def contents_def pipe_full_def pipe_empty_def)

lemma put_byte_fields [simp]: "readopen (put_byte c pi) = readopen pi" "writeopen (put_byte c pi) = writeopen pi"
  "woken (put_byte c pi) = woken pi"
  by (simp_all add: put_byte_def)

section \<open>What the calls do to the queue\<close>

lemma pipewrite_moves:
  assumes "pipe_ok pi" and "pipewrite killed user n i pi = (r, j, pi')"
  shows "i \<le> j \<and> (int i \<le> n \<longrightarrow> int j \<le> n) \<and> pipe_ok pi' \<and> contents pi' = contents pi @ map (\<lambda>k. the (user k)) [i..<j] \<and>
    (\<forall>k. i \<le> k \<and> k < j \<longrightarrow> user k \<noteq> None) \<and> readopen pi' = readopen pi \<and> writeopen pi' = writeopen pi"
  using assms
proof (induction killed user n i pi rule: pipewrite.induct)
  case (1 killed user n i pi)
  show ?case
  proof (cases "int i < n \<and> readopen pi \<and> \<not> killed \<and> \<not> pipe_full pi \<and> user i \<noteq> None")
    case True
    then obtain ch where ch: "user i = Some ch" by auto
    have q: "pipe_ok (put_byte ch pi)" "contents (put_byte ch pi) = contents pi @ [ch]"
      using ring.enq_ok [OF 1(2)] True by auto
    have w: "pipewrite killed user n (i + 1) (put_byte ch pi) = (r, j, pi')"
      using 1(3) True ch by (subst (asm) pipewrite.simps) simp
    have ih: "i + 1 \<le> j" "int (i + 1) \<le> n \<longrightarrow> int j \<le> n" "pipe_ok pi'"
        "contents pi' = contents (put_byte ch pi) @ map (\<lambda>k. the (user k)) [i + 1..<j]"
        "\<forall>k. i + 1 \<le> k \<and> k < j \<longrightarrow> user k \<noteq> None" "readopen pi' = readopen pi" "writeopen pi' = writeopen pi"
      using 1(1) [OF _ _ _ ch q(1) w] True by auto
    have "map (\<lambda>k. the (user k)) [i..<j] = ch # map (\<lambda>k. the (user k)) [i + 1..<j]"
      using ih(1) ch by (simp add: upt_conv_Cons)
    moreover have "\<forall>k. i \<le> k \<and> k < j \<longrightarrow> user k \<noteq> None"
      using ih(5) ch by (metis Suc_eq_plus1 not_less_eq_eq option.distinct(1) order_antisym_conv)
    ultimately show ?thesis using ih q(2) True by simp
  next
    case False
    then have "j = i \<and> (pi' = pi \<or> pi' = wake NreadChan pi)"
      using 1(3) by (subst (asm) pipewrite.simps) (auto split: if_splits option.splits)
    with 1(2) show ?thesis by auto
  qed
qed

lemma read_loop_moves:
  assumes "pipe_ok pi" and "read_loop room n i pi = (v, bs, pi')"
  shows "pipe_ok pi' \<and> contents pi = bs @ contents pi' \<and> readopen pi' = readopen pi \<and> writeopen pi' = writeopen pi \<and>
    (v = int i + int (length bs) \<or> v = -1 \<and> i = 0 \<and> bs = [] \<and> \<not> room 0) \<and>
    (contents pi' = [] \<or> n \<le> int i + int (length bs) \<or> \<not> room (i + length bs))"
  using assms
proof (induction room n i pi arbitrary: v bs pi' rule: read_loop.induct)
  case (1 room n i pi)
  show ?case
  proof (cases "int i < n \<and> \<not> pipe_empty pi \<and> room i")
    case True
    obtain w cs where w: "read_loop room n (i + 1) (drop_front pi) = (w, cs, pi')" "v = w" "bs = front pi # cs"
      using 1(3) True by (subst (asm) read_loop.simps) (auto split: prod.splits)
    have q: "pipe_ok (drop_front pi)" "contents pi = front pi # contents (drop_front pi)"
      using ring.deq_ok [OF 1(2)] True by auto
    have f: "readopen (drop_front pi) = readopen pi" "writeopen (drop_front pi) = writeopen pi"
      by (simp_all add: drop_front_def)
    have c: "int i < n \<and> \<not> pipe_empty pi" "\<not> \<not> room i" using True by auto
    from 1(1) [OF c q(1) w(1)] show ?thesis using q f w(2,3) by (simp add: add.assoc add.left_commute [of 1])
  next
    case False
    have "v = (if int i < n \<and> \<not> pipe_empty pi \<and> i = 0 then -1 else int i) \<and> bs = [] \<and> pi' = pi"
      using 1(3) False by (subst (asm) read_loop.simps) (auto split: if_splits)
    then show ?thesis
      using 1(2) False ring.empty_iff [OF 1(2)] by auto
  qed
qed

lemma read_loop_le:
  "read_loop room n i pi = (v, bs, pi') \<Longrightarrow> int i \<le> n \<Longrightarrow> int i + int (length bs) \<le> n"
proof (induction room n i pi arbitrary: v bs pi' rule: read_loop.induct)
  case (1 room n i pi)
  show ?case
  proof (cases "int i < n \<and> \<not> pipe_empty pi \<and> room i")
    case True
    obtain w cs where w: "read_loop room n (i + 1) (drop_front pi) = (w, cs, pi')" "bs = front pi # cs"
      using 1(2) True by (subst (asm) read_loop.simps) (auto split: prod.splits)
    have c: "int i < n \<and> \<not> pipe_empty pi" "\<not> \<not> room i" using True by auto
    from 1(1) [OF c w(1)] True w(2) show ?thesis by simp
  next
    case False
    then have "bs = []" using 1(2) by (subst (asm) read_loop.simps) (auto split: if_splits)
    then show ?thesis using 1(3) by simp
  qed
qed

lemma pipewrite_sleeps:
  "pipewrite killed user n i pi = (Sleeps, j, pi') \<Longrightarrow> pipe_full pi' \<and> int j < n \<and> last (woken pi') = NreadChan"
proof (induction killed user n i pi rule: pipewrite.induct)
  case (1 killed user n i pi)
  show ?case
  proof (cases "int i < n \<and> readopen pi \<and> \<not> killed \<and> \<not> pipe_full pi \<and> user i \<noteq> None")
    case True
    then obtain ch where ch: "user i = Some ch" by auto
    then have "pipewrite killed user n (i + 1) (put_byte ch pi) = (Sleeps, j, pi')"
      using 1(2) True by (subst (asm) pipewrite.simps) simp
    from 1(1) [OF _ _ _ ch this] True show ?thesis by simp
  next
    case False
    then have "j = i \<and> int i < n \<and> pipe_full pi \<and> pi' = wake NreadChan pi"
      using 1(2) by (subst (asm) pipewrite.simps) (auto split: if_splits option.splits)
    then show ?thesis by (simp add: wake_def pipe_full_def)
  qed
qed

section \<open>The pipe is a queue\<close>

text \<open>A run of calls on one pipe, with all bytes written and all bytes read so far.\<close>

inductive pipe_step :: "pipe \<times> byte list \<times> byte list \<Rightarrow> pipe \<times> byte list \<times> byte list \<Rightarrow> bool" where
  writes: "pipewrite killed user n i pi = (r, j, pi') \<Longrightarrow>
    pipe_step (pi, wr, rd) (pi', wr @ map (\<lambda>k. the (user k)) [i..<j], rd)"
| reads: "piperead killed room n pi = (r, bs, pi') \<Longrightarrow> pipe_step (pi, wr, rd) (pi', wr, rd @ bs)"
| closes: "pipe_step (pi, wr, rd) (fst (pipeclose w pi), wr, rd)"

definition pipe_init :: "pipe \<times> byte list \<times> byte list \<Rightarrow> bool" where
  "pipe_init s \<longleftrightarrow> (\<exists>page. length page = PIPESIZE \<and> s = (new_pipe page, [], []))"

definition pipe_inv :: "pipe \<times> byte list \<times> byte list \<Rightarrow> bool" where
  "pipe_inv s \<longleftrightarrow> (case s of (pi, wr, rd) \<Rightarrow> pipe_ok pi \<and> wr = rd @ contents pi)"

lemma piperead_moves:
  assumes "pipe_ok pi" and "piperead killed room n pi = (r, bs, pi')"
  shows "pipe_ok pi' \<and> contents pi = bs @ contents pi'"
proof (cases "pipe_empty pi \<and> writeopen pi")
  case True
  then show ?thesis using assms by (auto simp: piperead_def split: if_splits)
next
  case False
  then obtain v pi2 where "read_loop room n 0 pi = (v, bs, pi2)" "pi' = wake NwriteChan pi2"
    using assms(2) by (auto simp: piperead_def split: prod.splits)
  then show ?thesis using read_loop_moves [OF assms(1)] by simp
qed

interpretation pipe_run: safety pipe_init pipe_step pipe_inv
proof
  fix s t
  show "pipe_init s \<Longrightarrow> pipe_inv s"
    by (auto simp: pipe_init_def pipe_inv_def new_pipe_def pipe_ok_def contents_def)
  assume "pipe_inv s" and "pipe_step s t"
  from this(2,1) show "pipe_inv t"
  proof (cases rule: pipe_step.cases)
    case (writes killed user n i pi r j pi' wr rd)
    with \<open>pipe_inv s\<close> pipewrite_moves [OF _ writes(3)] show ?thesis by (simp add: pipe_inv_def)
  next
    case (reads killed room n pi r bs pi' wr rd)
    with \<open>pipe_inv s\<close> piperead_moves [OF _ reads(3)] show ?thesis by (simp add: pipe_inv_def)
  next
    case (closes pi wr rd w)
    moreover have "pipe_ok (fst (pipeclose w pi)) = pipe_ok pi" "contents (fst (pipeclose w pi)) = contents pi"
      by (simp_all add: pipeclose_def Let_def wake_def pipe_ok_def contents_def)
    ultimately show ?thesis using \<open>pipe_inv s\<close> by (simp add: pipe_inv_def)
  qed
qed

text \<open>
  C7. A pipe is a first-in first-out queue of at most 512 bytes: in every run of reads, writes
  (also ones that slept and went on) and closes, what has been read followed by what the
  buffer holds is what has been written, across any wrap-around of the 32-bit counters.
\<close>

theorem pipe_fifo:
  assumes "reachable pipe_init pipe_step (pi, wr, rd)"
  shows "wr = rd @ contents pi \<and> length (contents pi) \<le> PIPESIZE"
  using pipe_run.reachable_inv [OF assms] ring.bound by (auto simp: pipe_inv_def)

definition two_bytes :: "nat \<Rightarrow> byte option" where
  "two_bytes k = (if k = 0 then Some 7 else Some 9)"

lemma write_two:
  "pipewrite False two_bytes 2 0 (new_pipe (replicate PIPESIZE 0)) =
     (Returns 2, 2, wake NreadChan (put_byte 9 (put_byte 7 (new_pipe (replicate PIPESIZE 0)))))"
  by (simp add: pipewrite.simps two_bytes_def new_pipe_def pipe_full_def put_byte_def PIPESIZE_def)

theorem pipe_fifo_witness: "\<exists>pi. reachable pipe_init pipe_step (pi, [7, 9], []) \<and> contents pi = [7, 9]"
proof -
  let ?s = "(new_pipe (replicate PIPESIZE 0), [], [])"
  let ?pi = "wake NreadChan (put_byte 9 (put_byte 7 (new_pipe (replicate PIPESIZE 0))))"
  have "reachable pipe_init pipe_step ?s" by (rule reachable.start) (auto simp: pipe_init_def intro!: exI [of _ "replicate PIPESIZE 0"])
  moreover have "pipe_step ?s (?pi, [] @ map (\<lambda>k. the (two_bytes k)) [0..<2], [])"
    by (rule pipe_step.writes [OF write_two])
  moreover have "map (\<lambda>k. the (two_bytes k)) [0..<2] = [7, 9]" by (simp add: two_bytes_def upt_rec)
  ultimately have r: "reachable pipe_init pipe_step (?pi, [7, 9], [])" using reachable.step by fastforce
  with pipe_fifo [OF r] show ?thesis by auto
qed

section \<open>What the calls return\<close>



end
