(* ===== verification/Kernel_File.thy ===== *)
theory Kernel_File
  imports Kernel_Dir Kernel_Pipe
begin

text \<open>
  The file table of \<^verbatim>\<open>xv6/kernel/file.c\<close> with \<open>pipealloc\<close> of \<^verbatim>\<open>pipe.c\<close>, over the file
  system and the pipes. A file is an index into the table, a pipe the address of its page. Copies
  to and from user memory, and the device functions, are arguments.
\<close>

section \<open>State\<close>

definition NFILE :: nat where "NFILE = 100"
definition NDEV :: int where "NDEV = 10"

datatype fdtype = FD_NONE | FD_PIPE | FD_INODE | FD_DEVICE

record file_t =
  f_type :: fdtype
  f_ref :: int
  f_readable :: bool
  f_writable :: bool
  f_pipe :: nat
  f_ip :: nat
  f_off :: nat
  f_major :: int

definition zero_file :: file_t where
  "zero_file = \<lparr>f_type = FD_NONE, f_ref = 0, f_readable = False, f_writable = False, f_pipe = 0, f_ip = 0,
     f_off = 0, f_major = 0\<rparr>"

text \<open>\<open>ofile\<close> and \<open>cwd\<close> are those of the running process; \<open>freed\<close> records the pages given to \<open>kfree\<close>.\<close>

record kfiles =
  kfs :: fsys
  ftable :: "file_t list"
  pipes :: "nat \<Rightarrow> pipe"
  freed :: "nat list"
  ofile :: "nat option list"
  cwd :: nat

abbreviation get_file :: "nat \<Rightarrow> kfiles \<Rightarrow> file_t" where
  "get_file f k \<equiv> ftable k ! f"

definition upd_file :: "nat \<Rightarrow> (file_t \<Rightarrow> file_t) \<Rightarrow> kfiles \<Rightarrow> kfiles" where
  "upd_file f g k = k\<lparr>ftable := (ftable k)[f := g (ftable k ! f)]\<rparr>"

definition fileinit :: "kfiles \<Rightarrow> kfiles" where
  "fileinit k = k\<lparr>ftable := replicate NFILE zero_file\<rparr>"

text \<open>A call into the file system.\<close>

definition on_fs :: "(fsys \<Rightarrow> kerr + fsys) \<Rightarrow> kfiles \<Rightarrow> kerr + kfiles" where
  "on_fs g k = andthen (g (kfs k)) (\<lambda>s. Inr (k\<lparr>kfs := s\<rparr>))"

definition on_fs_val :: "(fsys \<Rightarrow> kerr + 'a \<times> fsys) \<Rightarrow> kfiles \<Rightarrow> kerr + 'a \<times> kfiles" where
  "on_fs_val g k = andthen (g (kfs k)) (\<lambda>(x, s). Inr (x, k\<lparr>kfs := s\<rparr>))"

definition fs_event_of :: "fs_event \<Rightarrow> kfiles \<Rightarrow> kfiles" where
  "fs_event_of e k = k\<lparr>kfs := event e (kfs k)\<rparr>"

section \<open>The table\<close>

definition filealloc :: "kfiles \<Rightarrow> nat option \<times> kfiles" where
  "filealloc k =
     (case find (\<lambda>f. f_ref (get_file f k) = 0) [0..<NFILE] of
        Some f \<Rightarrow> (Some f, upd_file f (\<lambda>x. x\<lparr>f_ref := 1\<rparr>) k)
      | None \<Rightarrow> (None, k))"

definition filedup :: "nat \<Rightarrow> kfiles \<Rightarrow> kerr + kfiles" where
  "filedup f k =
     (if f_ref (get_file f k) < 1 then Inl (Panic ''filedup'')
      else Inr (upd_file f (\<lambda>x. x\<lparr>f_ref := f_ref x + 1\<rparr>) k))"

definition fileclose :: "nat \<Rightarrow> kfiles \<Rightarrow> kerr + kfiles" where
  "fileclose f k =
     (let ff = get_file f k in
      if f_ref ff < 1 then Inl (Panic ''fileclose'')
      else if f_ref ff - 1 > 0 then Inr (upd_file f (\<lambda>x. x\<lparr>f_ref := f_ref x - 1\<rparr>) k)
      else
        let k1 = upd_file f (\<lambda>x. x\<lparr>f_ref := 0, f_type := FD_NONE\<rparr>) k in
        case f_type ff of
          FD_PIPE \<Rightarrow>
            let (pi, gone) = pipeclose (f_writable ff) (pipes k1 (f_pipe ff));
                k2 = k1\<lparr>pipes := (pipes k1)(f_pipe ff := pi)\<rparr>
            in Inr (if gone then k2\<lparr>freed := freed k2 @ [f_pipe ff]\<rparr> else k2)
        | FD_NONE \<Rightarrow> Inr k1
        | _ \<Rightarrow>
            andthen (on_fs (iput (f_ip ff)) (fs_event_of BeginOp k1)) (\<lambda>k2. Inr (fs_event_of EndOp k2)))"

definition filestat :: "nat \<Rightarrow> bool \<Rightarrow> kfiles \<Rightarrow> kerr + (int \<times> stat option) \<times> kfiles" where
  "filestat f copied k =
     (let ff = get_file f k in
      if f_type ff = FD_INODE \<or> f_type ff = FD_DEVICE then
        andthen (on_fs (ilock (f_ip ff)) k) (\<lambda>k1.
          let st = stati (f_ip ff) (kfs k1) in
          andthen (on_fs (iunlock (f_ip ff)) k1) (\<lambda>k2.
            Inr (if \<not> copied then (-1, None) else (0, Some st), k2)))
      else Inr ((-1, None), k))"

text \<open>The answer of a read: the value returned and the bytes copied out.\<close>

type_synonym devices = "int \<Rightarrow> (int \<Rightarrow> int \<times> byte list) option"

definition fileread ::
  "devices \<Rightarrow> bool \<Rightarrow> (nat \<Rightarrow> nat \<Rightarrow> bool) \<Rightarrow> nat \<Rightarrow> int \<Rightarrow> kfiles \<Rightarrow> kerr + (int \<times> byte list) \<times> kfiles" where
  "fileread devsw killed ok f n k =
     (let ff = get_file f k in
      if \<not> f_readable ff \<or> n < 0 then Inr ((-1, []), k)
      else
        case f_type ff of
          FD_PIPE \<Rightarrow>
            (case piperead killed (\<lambda>i. ok i 1) n (pipes k (f_pipe ff)) of
               (Sleeps, _, _) \<Rightarrow> Inl Blocked
             | (Returns r, bs, pi) \<Rightarrow> Inr ((r, bs), k\<lparr>pipes := (pipes k)(f_pipe ff := pi)\<rparr>))
        | FD_DEVICE \<Rightarrow>
            if f_major ff < 0 \<or> f_major ff \<ge> NDEV then Inr ((-1, []), k)
            else (case devsw (f_major ff) of None \<Rightarrow> Inr ((-1, []), k) | Some read \<Rightarrow> Inr (read n, k))
        | FD_INODE \<Rightarrow>
            andthen (on_fs (ilock (f_ip ff)) k) (\<lambda>k1.
            andthen (readi ok (f_ip ff) (f_off ff) (nat n) (kfs k1)) (\<lambda>(r, bs, s2).
              let k2 = k1\<lparr>kfs := s2\<rparr>;
                  k3 = (if r > 0 then upd_file f (\<lambda>x. x\<lparr>f_off := f_off x + nat r\<rparr>) k2 else k2)
              in andthen (on_fs (iunlock (f_ip ff)) k3) (\<lambda>k4. Inr ((r, bs), k4))))
        | FD_NONE \<Rightarrow> Inl (Panic ''fileread''))"

text \<open>
  The loop of \<open>filewrite\<close> over an inode, at most \<open>wmax\<close> bytes in each transaction. \<open>src i m\<close> is what
  the copy of \<open>m\<close> bytes from \<open>addr + i\<close> brings in.
\<close>

definition wmax :: nat where "wmax = (nat MAXOPBLOCKS - 1 - 1 - 2) div 2 * BSIZE"

function filewrite_from ::
  "(nat \<Rightarrow> nat \<Rightarrow> byte list \<times> bool) \<Rightarrow> nat \<Rightarrow> nat \<Rightarrow> nat \<Rightarrow> kfiles \<Rightarrow> kerr + nat \<times> kfiles" where
  "filewrite_from src f n i k =
     (if i < n then
        let ip = f_ip (get_file f k); n1 = min (n - i) wmax in
        andthen (on_fs (ilock ip) (fs_event_of BeginOp k)) (\<lambda>k1.
        andthen (on_fs_val (writei (\<lambda>tot m. src (i + tot) m) ip (f_off (get_file f k1)) n1) k1) (\<lambda>(r, k2).
          let k3 = (if r > 0 then upd_file f (\<lambda>x. x\<lparr>f_off := f_off x + nat r\<rparr>) k2 else k2) in
          andthen (on_fs (iunlock ip) k3) (\<lambda>k4.
            let k5 = fs_event_of EndOp k4 in
            if r \<noteq> int n1 then Inr (i, k5) else filewrite_from src f n (i + n1) k5)))
      else Inr (i, k))"
  by pat_completeness auto
termination
  by (relation "measure (\<lambda>(src, f, n, i, k). n - i)") (auto simp: wmax_def MAXOPBLOCKS_def BSIZE_def)

declare filewrite_from.simps [simp del]

text \<open>A write to a pipe that has to sleep keeps the count \<open>i\<close> it got to.\<close>

datatype write_result = Wrote int | WriteSleeps nat

definition filewrite ::
  "devices \<Rightarrow> bool \<Rightarrow> (nat \<Rightarrow> nat \<Rightarrow> byte list \<times> bool) \<Rightarrow> nat \<Rightarrow> int \<Rightarrow> kfiles \<Rightarrow> kerr + write_result \<times> kfiles" where
  "filewrite devsw killed src f n k =
     (let ff = get_file f k in
      if \<not> f_writable ff \<or> n < 0 then Inr (Wrote (-1), k)
      else
        case f_type ff of
          FD_PIPE \<Rightarrow>
            (case pipewrite killed (\<lambda>i. if snd (src i 1) then Some (hd (fst (src i 1))) else None) n 0
                (pipes k (f_pipe ff)) of
               (r, i, pi) \<Rightarrow>
                 Inr (case r of Sleeps \<Rightarrow> WriteSleeps i | Returns v \<Rightarrow> Wrote v,
                   k\<lparr>pipes := (pipes k)(f_pipe ff := pi)\<rparr>))
        | FD_DEVICE \<Rightarrow>
            if f_major ff < 0 \<or> f_major ff \<ge> NDEV then Inr (Wrote (-1), k)
            else (case devsw (f_major ff) of None \<Rightarrow> Inr (Wrote (-1), k) | Some w \<Rightarrow> Inr (Wrote (fst (w n)), k))
        | FD_INODE \<Rightarrow>
            andthen (filewrite_from src f (nat n) 0 k) (\<lambda>(i, k1). Inr (Wrote (if int i = n then n else -1), k1))
        | FD_NONE \<Rightarrow> Inl (Panic ''filewrite''))"

section \<open>Pipes as files\<close>

text \<open>\<open>page\<close> is what \<open>kalloc\<close> returns, with the contents of its \<open>data\<close>.\<close>

definition pipealloc :: "(nat \<times> byte list) option \<Rightarrow> kfiles \<Rightarrow> kerr + (nat \<times> nat) option \<times> kfiles" where
  "pipealloc page k =
     (case filealloc k of
        (None, k1) \<Rightarrow> Inr (None, k1)
      | (Some f0, k1) \<Rightarrow>
          (case filealloc k1 of
             (None, k2) \<Rightarrow> andthen (fileclose f0 k2) (\<lambda>k3. Inr (None, k3))
           | (Some f1, k2) \<Rightarrow>
               (case page of
                  None \<Rightarrow> andthen (fileclose f0 k2) (\<lambda>k3. andthen (fileclose f1 k3) (\<lambda>k4. Inr (None, k4)))
                | Some (pa, bytes) \<Rightarrow>
                    let k3 = k2\<lparr>pipes := (pipes k2)(pa := new_pipe bytes)\<rparr>;
                        k4 = upd_file f0 (\<lambda>x. x\<lparr>f_type := FD_PIPE, f_readable := True, f_writable := False,
                          f_pipe := pa\<rparr>) k3;
                        k5 = upd_file f1 (\<lambda>x. x\<lparr>f_type := FD_PIPE, f_readable := False, f_writable := True,
                          f_pipe := pa\<rparr>) k4
                    in Inr (Some (f0, f1), k5))))"

end
