(* ===== verification/Kernel_Sysfile.thy ===== *)
theory Kernel_Sysfile
  imports Kernel_File
begin

text \<open>
  The file-system calls of \<^verbatim>\<open>xv6/kernel/sysfile.c\<close>. The arguments a call fetches from user
  space are its parameters: an \<open>argstr\<close> that fails is \<open>None\<close>. \<open>begin_op\<close> and \<open>end_op\<close> bracket each
  call in the trace of the file system.
\<close>

section \<open>File descriptors\<close>

definition NOFILES :: int where "NOFILES = 16"

definition argfd :: "int \<Rightarrow> kfiles \<Rightarrow> nat option" where
  "argfd fd k = (if fd < 0 \<or> fd \<ge> NOFILES then None else ofile k ! nat fd)"

definition fdalloc :: "nat \<Rightarrow> kfiles \<Rightarrow> int \<times> kfiles" where
  "fdalloc f k =
     (case find (\<lambda>fd. ofile k ! fd = None) [0..<nat NOFILES] of
        Some fd \<Rightarrow> (int fd, k\<lparr>ofile := (ofile k)[fd := Some f]\<rparr>)
      | None \<Rightarrow> (-1, k))"

definition sys_dup :: "int \<Rightarrow> kfiles \<Rightarrow> kerr + int \<times> kfiles" where
  "sys_dup fd0 k =
     (case argfd fd0 k of
        None \<Rightarrow> Inr (-1, k)
      | Some f \<Rightarrow>
          let (fd, k1) = fdalloc f k in
          if fd < 0 then Inr (-1, k1) else andthen (filedup f k1) (\<lambda>k2. Inr (fd, k2)))"

definition sys_read ::
  "devices \<Rightarrow> bool \<Rightarrow> (nat \<Rightarrow> nat \<Rightarrow> bool) \<Rightarrow> int \<Rightarrow> int \<Rightarrow> kfiles \<Rightarrow> kerr + (int \<times> byte list) \<times> kfiles" where
  "sys_read devsw killed ok fd n k =
     (case argfd fd k of None \<Rightarrow> Inr ((-1, []), k) | Some f \<Rightarrow> fileread devsw killed ok f n k)"

definition sys_write ::
  "devices \<Rightarrow> bool \<Rightarrow> (nat \<Rightarrow> nat \<Rightarrow> byte list \<times> bool) \<Rightarrow> int \<Rightarrow> int \<Rightarrow> kfiles \<Rightarrow> kerr + write_result \<times> kfiles" where
  "sys_write devsw killed src fd n k =
     (case argfd fd k of None \<Rightarrow> Inr (Wrote (-1), k) | Some f \<Rightarrow> filewrite devsw killed src f n k)"

definition sys_close :: "int \<Rightarrow> kfiles \<Rightarrow> kerr + int \<times> kfiles" where
  "sys_close fd k =
     (case argfd fd k of
        None \<Rightarrow> Inr (-1, k)
      | Some f \<Rightarrow>
          andthen (fileclose f (k\<lparr>ofile := (ofile k)[nat fd := None]\<rparr>)) (\<lambda>k1. Inr (0, k1)))"

definition sys_fstat :: "int \<Rightarrow> bool \<Rightarrow> kfiles \<Rightarrow> kerr + (int \<times> stat option) \<times> kfiles" where
  "sys_fstat fd copied k =
     (case argfd fd k of None \<Rightarrow> Inr ((-1, None), k) | Some f \<Rightarrow> filestat f copied k)"

section \<open>Links\<close>

definition NLINK_MAX :: int where "NLINK_MAX = 32767"

definition set_nlink :: "nat \<Rightarrow> int \<Rightarrow> fsys \<Rightarrow> fsys" where
  "set_nlink i n s = iupdate i (upd_inode i (\<lambda>p. p\<lparr>i_nlink := n\<rparr>) s)"

text \<open>The end of a call inside a transaction.\<close>

definition end_call :: "'a \<Rightarrow> fsys \<Rightarrow> kerr + 'a \<times> fsys" where
  "end_call r s = Inr (r, event EndOp s)"

definition link_bad :: "nat \<Rightarrow> fsys \<Rightarrow> kerr + int \<times> fsys" where
  "link_bad ip s =
     andthen (ilock ip s) (\<lambda>s1.
     andthen (iunlockput ip (set_nlink ip (i_nlink (get_inode ip s1) - 1) s1)) (end_call (-1)))"

definition sys_link :: "byte list option \<Rightarrow> byte list option \<Rightarrow> nat \<Rightarrow> fsys \<Rightarrow> kerr + int \<times> fsys" where
  "sys_link old new cw s =
     (case (old, new) of
        (Some op, Some np) \<Rightarrow>
          andthen (namei op cw (event BeginOp s)) (\<lambda>(r, s1).
            case r of
              None \<Rightarrow> end_call (-1) s1
            | Some ip \<Rightarrow>
                andthen (ilock ip s1) (\<lambda>s2.
                  if i_type (get_inode ip s2) = T_DIR then andthen (iunlockput ip s2) (end_call (-1))
                  else if i_nlink (get_inode ip s2) \<ge> NLINK_MAX then andthen (iunlockput ip s2) (end_call (-1))
                  else
                    andthen (iunlock ip (set_nlink ip (i_nlink (get_inode ip s2) + 1) s2)) (\<lambda>s3.
                    andthen (nameiparent np cw s3) (\<lambda>((rd, name), s4).
                      case rd of
                        None \<Rightarrow> link_bad ip s4
                      | Some dp \<Rightarrow>
                          andthen (ilock dp s4) (\<lambda>s5.
                            if i_nlink (get_inode dp s5) = 0 then andthen (iunlockput dp s5) (link_bad ip)
                            else if i_dev (get_inode dp s5) \<noteq> i_dev (get_inode ip s5)
                            then andthen (iunlockput dp s5) (link_bad ip)
                            else
                              andthen (dirlink dp name (i_inum (get_inode ip s5)) s5) (\<lambda>(l, s6).
                                if l < 0 then andthen (iunlockput dp s6) (link_bad ip)
                                else
                                  andthen (iunlockput dp s6) (\<lambda>s7.
                                  andthen (iput ip s7) (end_call 0))))))))
      | _ \<Rightarrow> Inr (-1, s))"

text \<open>The loop of \<open>isdirempty\<close>.\<close>

function empty_dir_from :: "nat \<Rightarrow> nat \<Rightarrow> nat \<Rightarrow> fsys \<Rightarrow> kerr + bool \<times> fsys" where
  "empty_dir_from dp sz off s =
     (if off < sz then
        andthen (readi to_kernel dp off DIRENT s) (\<lambda>(r, de, s1).
          if r \<noteq> int DIRENT then Inl (Panic ''isdirempty: readi'')
          else if de_inum de \<noteq> 0 then Inr (False, s1)
          else empty_dir_from dp sz (off + DIRENT) s1)
      else Inr (True, s))"
  by pat_completeness auto
termination by (relation "measure (\<lambda>(dp, sz, off, s). sz - off)") (auto simp: DIRENT_def)

declare empty_dir_from.simps [simp del]

definition isdirempty :: "nat \<Rightarrow> fsys \<Rightarrow> kerr + bool \<times> fsys" where
  "isdirempty dp s = empty_dir_from dp (i_size (get_inode dp s)) (2 * DIRENT) s"

definition unlink_bad :: "nat \<Rightarrow> fsys \<Rightarrow> kerr + int \<times> fsys" where
  "unlink_bad dp s = andthen (iunlockput dp s) (end_call (-1))"

definition unlink_entry :: "nat \<Rightarrow> nat \<Rightarrow> nat \<Rightarrow> fsys \<Rightarrow> kerr + int \<times> fsys" where
  "unlink_entry dp ip off s =
     andthen (writei (from_kernel (replicate DIRENT 0)) dp off DIRENT s) (\<lambda>(r, s1).
       if r \<noteq> int DIRENT then Inl (Panic ''unlink: writei'')
       else
         let s2 = (if i_type (get_inode ip s1) = T_DIR then set_nlink dp (i_nlink (get_inode dp s1) - 1) s1 else s1) in
         andthen (iunlockput dp s2) (\<lambda>s3.
         andthen (iunlockput ip (set_nlink ip (i_nlink (get_inode ip s3) - 1) s3)) (end_call 0)))"

definition sys_unlink :: "byte list option \<Rightarrow> nat \<Rightarrow> fsys \<Rightarrow> kerr + int \<times> fsys" where
  "sys_unlink path cw s =
     (case path of
        None \<Rightarrow> Inr (-1, s)
      | Some p \<Rightarrow>
          andthen (nameiparent p cw (event BeginOp s)) (\<lambda>((rd, name), s1).
            case rd of
              None \<Rightarrow> end_call (-1) s1
            | Some dp \<Rightarrow>
                andthen (ilock dp s1) (\<lambda>s2.
                  if namecmp name [dot] = 0 \<or> namecmp name [dot, dot] = 0 then unlink_bad dp s2
                  else
                    andthen (dirlookup dp name s2) (\<lambda>(found, s3).
                      case found of
                        None \<Rightarrow> unlink_bad dp s3
                      | Some (ip, off) \<Rightarrow>
                          andthen (ilock ip s3) (\<lambda>s4.
                            if i_nlink (get_inode ip s4) < 1 then Inl (Panic ''unlink: nlink < 1'')
                            else if i_type (get_inode ip s4) = T_DIR then
                              andthen (isdirempty ip s4) (\<lambda>(e, s5).
                                if \<not> e then andthen (iunlockput ip s5) (unlink_bad dp)
                                else unlink_entry dp ip off s5)
                            else unlink_entry dp ip off s4)))))"

section \<open>Creation\<close>

definition create_fail :: "nat \<Rightarrow> nat \<Rightarrow> fsys \<Rightarrow> kerr + nat option \<times> fsys" where
  "create_fail ip dp s =
     andthen (iunlockput ip (set_nlink ip 0 s)) (\<lambda>s1.
     andthen (iunlockput dp s1) (\<lambda>s2. Inr (None, s2)))"

definition create :: "byte list \<Rightarrow> int \<Rightarrow> int \<Rightarrow> int \<Rightarrow> nat \<Rightarrow> fsys \<Rightarrow> kerr + nat option \<times> fsys" where
  "create path ty major minor cw s =
     andthen (nameiparent path cw s) (\<lambda>((rd, name), s1).
       case rd of
         None \<Rightarrow> Inr (None, s1)
       | Some dp \<Rightarrow>
           andthen (ilock dp s1) (\<lambda>s2.
             if i_nlink (get_inode dp s2) = 0 then andthen (iunlockput dp s2) (\<lambda>s3. Inr (None, s3))
             else if ty = T_DIR \<and> i_nlink (get_inode dp s2) \<ge> NLINK_MAX
             then andthen (iunlockput dp s2) (\<lambda>s3. Inr (None, s3))
             else
               andthen (dirlookup dp name s2) (\<lambda>(found, s3).
                 case found of
                   Some (ip, _) \<Rightarrow>
                     andthen (iunlockput dp s3) (\<lambda>s4.
                     andthen (ilock ip s4) (\<lambda>s5.
                       if ty = T_FILE \<and> (i_type (get_inode ip s5) = T_FILE \<or> i_type (get_inode ip s5) = T_DEVICE)
                       then Inr (Some ip, s5)
                       else andthen (iunlockput ip s5) (\<lambda>s6. Inr (None, s6))))
                 | None \<Rightarrow>
                     andthen (ialloc (i_dev (get_inode dp s3)) ty s3) (\<lambda>(ri, s4).
                       case ri of
                         None \<Rightarrow> andthen (iunlockput dp s4) (\<lambda>s5. Inr (None, s5))
                       | Some ip \<Rightarrow>
                           andthen (ilock ip s4) (\<lambda>s5.
                             let s6 = iupdate ip (upd_inode ip (\<lambda>p. p\<lparr>i_major := major, i_minor := minor,
                               i_nlink := 1\<rparr>) s5) in
                             andthen
                               (if ty = T_DIR then
                                  andthen (dirlink ip [dot] (i_inum (get_inode ip s6)) s6) (\<lambda>(r1, s7).
                                    if r1 < 0 then Inr (r1, s7)
                                    else dirlink ip [dot, dot] (i_inum (get_inode dp s7)) s7)
                                else Inr (0, s6))
                               (\<lambda>(r2, s8).
                                 if r2 < 0 then create_fail ip dp s8
                                 else
                                   andthen (dirlink dp name (i_inum (get_inode ip s8)) s8) (\<lambda>(r3, s9).
                                     if r3 < 0 then create_fail ip dp s9
                                     else
                                       let s10 = (if ty = T_DIR then set_nlink dp (i_nlink (get_inode dp s9) + 1) s9
                                                  else s9) in
                                       andthen (iunlockput dp s10) (\<lambda>s11. Inr (Some ip, s11)))))))))"

definition O_WRONLY :: nat where "O_WRONLY = 0x001"
definition O_RDWR :: nat where "O_RDWR = 0x002"
definition O_CREATE :: nat where "O_CREATE = 0x200"
definition O_TRUNC :: nat where "O_TRUNC = 0x400"

definition has_flag :: "nat \<Rightarrow> nat \<Rightarrow> bool" where
  "has_flag omode fl \<longleftrightarrow> omode AND fl \<noteq> 0"

definition open_inode :: "byte list \<Rightarrow> nat \<Rightarrow> nat \<Rightarrow> fsys \<Rightarrow> kerr + nat option \<times> fsys" where
  "open_inode path omode cw s =
     (if has_flag omode O_CREATE then create path T_FILE 0 0 cw s
      else
        andthen (namei path cw s) (\<lambda>(r, s1).
          case r of
            None \<Rightarrow> Inr (None, s1)
          | Some ip \<Rightarrow>
              andthen (ilock ip s1) (\<lambda>s2.
                if i_type (get_inode ip s2) = T_DIR \<and> omode \<noteq> 0
                then andthen (iunlockput ip s2) (\<lambda>s3. Inr (None, s3))
                else Inr (Some ip, s2))))"

definition open_fail :: "nat \<Rightarrow> kfiles \<Rightarrow> kerr + int \<times> kfiles" where
  "open_fail ip k = andthen (on_fs (iunlockput ip) k) (\<lambda>k1. Inr (-1, fs_event_of EndOp k1))"

definition sys_open :: "byte list option \<Rightarrow> nat \<Rightarrow> kfiles \<Rightarrow> kerr + int \<times> kfiles" where
  "sys_open path omode k =
     (case path of
        None \<Rightarrow> Inr (-1, k)
      | Some p \<Rightarrow>
          andthen (on_fs_val (open_inode p omode (cwd k)) (fs_event_of BeginOp k)) (\<lambda>(r, k1).
            case r of
              None \<Rightarrow> Inr (-1, fs_event_of EndOp k1)
            | Some ip \<Rightarrow>
                let ino = get_inode ip (kfs k1) in
                if i_type ino = T_DEVICE \<and> (i_major ino < 0 \<or> i_major ino \<ge> NDEV) then open_fail ip k1
                else
                  (case filealloc k1 of
                     (None, k2) \<Rightarrow> open_fail ip k2
                   | (Some f, k2) \<Rightarrow>
                       let (fd, k3) = fdalloc f k2 in
                       if fd < 0 then andthen (fileclose f k3) (open_fail ip)
                       else
                         let k4 = upd_file f (\<lambda>x.
                               let y = (if i_type ino = T_DEVICE then x\<lparr>f_type := FD_DEVICE, f_major := i_major ino\<rparr>
                                        else x\<lparr>f_type := FD_INODE, f_off := 0\<rparr>)
                               in y\<lparr>f_ip := ip, f_readable := \<not> has_flag omode O_WRONLY,
                                  f_writable := has_flag omode O_WRONLY \<or> has_flag omode O_RDWR\<rparr>) k3 in
                         andthen (if has_flag omode O_TRUNC \<and> i_type ino = T_FILE then on_fs (itrunc ip) k4 else Inr k4)
                           (\<lambda>k5. andthen (on_fs (iunlock ip) k5) (\<lambda>k6. Inr (fd, fs_event_of EndOp k6))))))"

definition make_node :: "byte list option \<Rightarrow> int \<Rightarrow> int \<Rightarrow> int \<Rightarrow> nat \<Rightarrow> fsys \<Rightarrow> kerr + int \<times> fsys" where
  "make_node path ty major minor cw s =
     (case path of
        None \<Rightarrow> end_call (-1) (event BeginOp s)
      | Some p \<Rightarrow>
          andthen (create p ty major minor cw (event BeginOp s)) (\<lambda>(r, s1).
            case r of None \<Rightarrow> end_call (-1) s1 | Some ip \<Rightarrow> andthen (iunlockput ip s1) (end_call 0)))"

definition sys_mkdir :: "byte list option \<Rightarrow> nat \<Rightarrow> fsys \<Rightarrow> kerr + int \<times> fsys" where
  "sys_mkdir path cw s = make_node path T_DIR 0 0 cw s"

text \<open>\<open>create\<close> takes shorts.\<close>

definition sys_mknod :: "byte list option \<Rightarrow> int \<Rightarrow> int \<Rightarrow> nat \<Rightarrow> fsys \<Rightarrow> kerr + int \<times> fsys" where
  "sys_mknod path major minor cw s =
     make_node path T_DEVICE (sint16 (uint16 major)) (sint16 (uint16 minor)) cw s"

definition sys_chdir :: "byte list option \<Rightarrow> kfiles \<Rightarrow> kerr + int \<times> kfiles" where
  "sys_chdir path k =
     (let k0 = fs_event_of BeginOp k in
      case path of
        None \<Rightarrow> Inr (-1, fs_event_of EndOp k0)
      | Some p \<Rightarrow>
          andthen (on_fs_val (namei p (cwd k)) k0) (\<lambda>(r, k1).
            case r of
              None \<Rightarrow> Inr (-1, fs_event_of EndOp k1)
            | Some ip \<Rightarrow>
                andthen (on_fs (ilock ip) k1) (\<lambda>k2.
                  if i_type (get_inode ip (kfs k2)) \<noteq> T_DIR then open_fail ip k2
                  else
                    andthen (on_fs (iunlock ip) k2) (\<lambda>k3.
                    andthen (on_fs (iput (cwd k3)) k3) (\<lambda>k4.
                      Inr (0, (fs_event_of EndOp k4)\<lparr>cwd := ip\<rparr>))))))"

section \<open>Pipes\<close>

definition drop_fd :: "int \<Rightarrow> kfiles \<Rightarrow> kfiles" where
  "drop_fd fd k = k\<lparr>ofile := (ofile k)[nat fd := None]\<rparr>"

definition close_both :: "nat \<Rightarrow> nat \<Rightarrow> kfiles \<Rightarrow> kerr + (int \<times> (int \<times> int) option) \<times> kfiles" where
  "close_both rf wr k =
     andthen (fileclose rf k) (\<lambda>k1. andthen (fileclose wr k1) (\<lambda>k2. Inr ((-1, None), k2)))"

text \<open>\<open>copied\<close> is whether both \<open>copyout\<close> succeed; on success the two descriptors are returned.\<close>

definition sys_pipe ::
  "(nat \<times> byte list) option \<Rightarrow> bool \<Rightarrow> kfiles \<Rightarrow> kerr + (int \<times> (int \<times> int) option) \<times> kfiles" where
  "sys_pipe page copied k =
     andthen (pipealloc page k) (\<lambda>(r, k1).
       case r of
         None \<Rightarrow> Inr ((-1, None), k1)
       | Some (rf, wr) \<Rightarrow>
           let (fd0, k2) = fdalloc rf k1 in
           if fd0 < 0 then close_both rf wr k2
           else
             let (fd1, k3) = fdalloc wr k2 in
             if fd1 < 0 then close_both rf wr (drop_fd fd0 k3)
             else if \<not> copied then close_both rf wr (drop_fd fd1 (drop_fd fd0 k3))
             else Inr ((0, Some (fd0, fd1)), k3))"

end
