(* ===== verification/Kernel_Session.thy ===== *)
theory Kernel_Session
  imports Kernel_Fs
begin

text \<open>
  The step between the detailed cache and log and the file system's view of the disk:
  \<open>bread\<close>, a change of the buffer, \<open>log_write\<close> and \<open>brelse\<close> inside a transaction do to the current
  contents what \<open>log_block\<close> does, and nothing to the disk.
\<close>

definition bsession :: "nat \<Rightarrow> nat \<Rightarrow> (block \<Rightarrow> block) \<Rightarrow> fsstate \<Rightarrow> kerr + fsstate" where
  "bsession dev n f s =
     andthen (bread dev n s) (\<lambda>(b, s1).
     andthen (log_write b (set_data b (f (b_data (get_buf b s1))) s1)) (\<lambda>s2. brelse b s2))"

text \<open>A transaction is open, has room in the log, and keeps the blocks it logged.\<close>

definition txn_ok :: "nat \<Rightarrow> fsstate \<Rightarrow> bool" where
  "txn_ok dev s \<longleftrightarrow> bcache_ok dev s \<and> 0 \<le> lh_n (l_lh (logst s)) \<and> lh_n (l_lh (logst s)) < int LOGBLOCKS \<and>
     length (lh_block (l_lh (logst s))) = LOGBLOCKS \<and> l_outstanding (logst s) \<ge> 1 \<and>
     (\<forall>b\<in>set (logged s). refs dev s b > 0)"

lemma log_slot_found:
  assumes "0 \<le> lh_n h" and "nat (lh_n h) \<le> length (lh_block h)"
  shows "if n \<in> set (take (nat (lh_n h)) (lh_block h))
    then log_slot n h < nat (lh_n h) \<and> lh_block h ! log_slot n h = n else log_slot n h = nat (lh_n h)"
proof (cases "find (\<lambda>i. lh_block h ! i = n) [0..<nat (lh_n h)]")
  case None
  then have "n \<notin> set (take (nat (lh_n h)) (lh_block h))"
    using assms by (auto simp: find_None_iff in_set_conv_nth)
  with None show ?thesis by (simp add: log_slot_def)
next
  case (Some i)
  then have "i < nat (lh_n h) \<and> lh_block h ! i = n" by (auto simp: find_Some_iff)
  moreover from this have "n \<in> set (take (nat (lh_n h)) (lh_block h))"
    using assms by (auto simp: in_set_conv_nth intro!: exI [of _ i])
  ultimately show ?thesis using Some by (simp add: log_slot_def)
qed

text \<open>
  C9. A session of the file system with a block inside a transaction succeeds whenever the cache has
  room, refines the update of the file system's view of the disk, leaves the disk itself
  alone, and keeps the block pinned in the log.
\<close>

theorem session_refines:
  assumes ok: "txn_ok dev s" and r: "room n (view_of dev s)" and few: "refs dev s n + 3 < 2 ^ 32"
    and abs: "blk t = cur dev s"
  shows "\<exists>u. bsession dev n f s = Inr u \<and> blk (log_block n (f (blk t n)) t) = cur dev u \<and>
    disk u = disk s \<and> bcache_ok dev u \<and> set (logged u) = insert n (set (logged s)) \<and>
    (\<forall>b\<in>set (logged u). refs dev u b > 0)"
proof -
  have b: "bcache_ok dev s" using ok by (simp add: txn_ok_def)
  obtain h s1 where 1: "bread dev n s = Inr (h, s1)" "bcache_ok dev s1" "handle dev n h s1"
      "view_of dev s1 = acquired (me s) n (view_of dev s)" "keeps (handle dev) bstate.more n s s1"
    using bio.get_room [OF b r] by blast
  have d: "b_data (get_buf h s1) = cur dev s n"
    using bio.hnd_data [OF 1(2,3)] 1(4) by (simp add: acquired_def)
  define s2 where "s2 = set_data h (f (cur dev s n)) s1"
  have 2: "bcache_ok dev s2" "handle dev n h s2" "view_of dev s2 = stored n (f (cur dev s n)) (view_of dev s1)"
      "bstate.more s2 = bstate.more s1"
    using bio.put_data [OF 1(2,3)] by (simp_all add: s2_def keeps_def)
  have ls: "logst s2 = logst s" using more_logst [of s2 s] 2(4) 1(5) by (simp add: keeps_def)
  have bn: "b_blockno (get_buf h s2) = n" using 2(2) by (simp add: handle_def holds_def)
  define hd1 where "hd1 = l_lh (logst s)"
  have h: "0 \<le> lh_n hd1" "lh_n hd1 < int LOGBLOCKS" "length (lh_block hd1) = LOGBLOCKS"
      "l_outstanding (logst s) \<ge> 1" "logged s = take (nat (lh_n hd1)) (lh_block hd1)"
    using ok by (simp_all add: txn_ok_def hd1_def logged_def)
  define i where "i = log_slot n hd1"
  have "nat (lh_n hd1) \<le> length (lh_block hd1)" using h by simp
  note slot = log_slot_found [OF h(1) this, of n, folded i_def h(5)]
  define new where "new \<longleftrightarrow> n \<notin> set (logged s)"
  define hd2 where "hd2 = (if new then hd1\<lparr>lh_block := (lh_block hd1)[i := n], lh_n := lh_n hd1 + 1\<rparr> else hd1)"
  define s3 where "s3 = (if new then bpin h s2 else s2)"
  have inew: "new \<longleftrightarrow> int i = lh_n hd1" using slot h new_def by (auto split: if_splits)
  have "\<not> new \<Longrightarrow> (lh_block hd1)[i := n] = lh_block hd1"
    using slot h new_def by (auto simp: list_update_same_conv split: if_splits)
  then have lw: "log_write h s2 = Inr (set_lh hd2 s3)"
    using h inew by (auto simp: log_write_def Let_def ls bn hd2_def s3_def simp flip: hd1_def i_def)
  have v2: "v_refs (view_of dev s2) n = refs dev s n + 1" using 2(3) 1(4) by (simp add: view_defs)
  have 3: "bcache_ok dev s3" "handle dev n h s3"
      "view_of dev s3 = (if new then pinned n (view_of dev s2) else view_of dev s2)"
    using bio.pin_data [OF 2(1,2)] 2(1,2) v2 few by (simp_all add: s3_def)
  have pos: "new \<or> refs dev s n > 0" using ok new_def by (auto simp: txn_ok_def)
  then have "v_refs (view_of dev s3) n \<noteq> 1" using 3(3) v2 by (auto simp: view_defs)
  then obtain u where 4: "brelse h s3 = Inr u" "bcache_ok dev u" "view_of dev u = released n (view_of dev s3)"
    using bio.rel_data [OF 3(1,2)] by blast
  have fin: "bsession dev n f s = Inr (set_lh hd2 u)"
    using 1(1) d lw brelse_set_lh [OF 4(1)] by (simp add: bsession_def s2_def)
  have cur: "cur dev u = (cur dev s)(n := f (cur dev s n))" "disk u = disk s"
      "refs dev u = (refs dev s)(n := refs dev s n + (if new then 1 else 0))"
    using arg_cong [OF 4(3), of v_cont] arg_cong [OF 4(3), of v_disk] arg_cong [OF 4(3), of v_refs] 3(3) 2(3) 1(4)
    by (auto simp: view_defs fun_eq_iff)
  have lg: "set (logged (set_lh hd2 u)) = insert n (set (logged s))"
  proof (cases new)
    case True
    then have "i = nat (lh_n hd1)" using inew by linarith
    moreover have "nat (lh_n hd1 + 1) = Suc (nat (lh_n hd1))" "nat (lh_n hd1) < length (lh_block hd1)" using h by simp_all
    ultimately show ?thesis
      using True h(5) by (simp add: logged_def hd2_def take_Suc_conv_app_nth)
  next
    case False
    then show ?thesis using h(5) new_def by (auto simp: logged_def hd2_def)
  qed
  have "\<forall>b\<in>set (logged (set_lh hd2 u)). refs dev (set_lh hd2 u) b > 0"
    using lg cur(3) pos ok by (auto simp: txn_ok_def)
  then show ?thesis
    using fin cur 4(2) lg abs by (intro exI [of _ "set_lh hd2 u"]) (simp add: log_block_def event_def)
qed

text \<open>A state in a transaction: the booted disk after \<open>begin_op\<close>.\<close>

definition in_txn :: fsstate where
  "in_txn = (boot (\<lambda>_. replicate BSIZE 0) 7)\<lparr>logst := \<lparr>l_start = 2, l_outstanding = 1, l_committing = False,
     l_dev = 1, l_ncommit = 0, l_lh = \<lparr>lh_n = 0, lh_block = replicate LOGBLOCKS 0\<rparr>\<rparr>\<rparr>"

theorem session_refines_witness:
  "\<exists>u. bsession 1 40 (\<lambda>_. replicate BSIZE 9) in_txn = Inr u \<and> set (logged u) = {40}"
proof -
  note B = boot_ok [of 1 "\<lambda>_. replicate BSIZE 0" 7]
  have lg: "logged in_txn = []" by (simp add: in_txn_def logged_def)
  have v: "view_of 1 in_txn = view_of 1 (boot (\<lambda>_. replicate BSIZE 0) 7)" "bcache_ok 1 in_txn"
      "refs 1 in_txn = (\<lambda>_. 0)"
    using B by (simp_all add: in_txn_def)
  have "txn_ok 1 in_txn" using v(2) lg by (simp add: txn_ok_def) (simp add: in_txn_def LOGBLOCKS_def)
  moreover have "room 40 (view_of 1 in_txn)" using v(1) B by (simp add: room_def NBUF_def)
  ultimately show ?thesis
    using session_refines [of 1 in_txn 40 "\<lparr>blk = cur 1 in_txn, sblock = undefined, itable = [], trace = [],
      messages = [], cur_pid = 7\<rparr>"] v(3) lg by fastforce
qed

end
