(* ===== verification/Kernel_Inode.thy ===== *)
theory Kernel_Inode
  imports Kernel_Fs
begin

text \<open>
  Properties of the file system's blocks, inodes and contents: the bit map and the allocator, the
  format of inodes on disk, and reading what was written.
\<close>

section \<open>The bit map\<close>

lemma bit_used_bit: "bit_used d bi \<longleftrightarrow> bit (d ! (bi div 8)) (bi mod 8)"
proof -
  have "(w AND push_bit k 1) \<noteq> 0 \<longleftrightarrow> bit w k" if "k < 8" for w :: byte and k
    using that by (auto simp: bit_eq_iff [where ?'a = "8 word"] bit_simps)
  then show ?thesis by (simp add: bit_used_def bit_mask_def)
qed

lemma bit_used_set:
  assumes "bi div 8 < length d"
  shows "bit_used (set_bit_used bi d) bj \<longleftrightarrow> bj = bi \<or> bit_used d bj"
proof (cases "bj div 8 = bi div 8")
  case True
  have "bit ((w :: byte) OR push_bit k 1) l \<longleftrightarrow> l = k \<or> bit w l" if "k < 8" "l < 8" for w k l
    using that by (auto simp: bit_simps)
  moreover have "bj = bi \<longleftrightarrow> bj mod 8 = bi mod 8" using True by (metis div_mult_mod_eq)
  ultimately show ?thesis using assms True by (simp add: bit_used_bit set_bit_used_def bit_mask_def)
next
  case False
  then show ?thesis by (auto simp: bit_used_bit set_bit_used_def)
qed

lemma bit_used_clear:
  assumes "bi div 8 < length d"
  shows "bit_used (clear_bit_used bi d) bj \<longleftrightarrow> bj \<noteq> bi \<and> bit_used d bj"
proof (cases "bj div 8 = bi div 8")
  case True
  have "bit ((w :: byte) AND NOT (push_bit k 1)) l \<longleftrightarrow> l \<noteq> k \<and> bit w l" if "k < 8" "l < 8" for w k l
    using that by (auto simp: bit_simps)
  moreover have "bj = bi \<longleftrightarrow> bj mod 8 = bi mod 8" using True by (metis div_mult_mod_eq)
  ultimately show ?thesis using assms True by (simp add: bit_used_bit clear_bit_used_def bit_mask_def)
next
  case False
  then show ?thesis by (auto simp: bit_used_bit clear_bit_used_def)
qed

text \<open>Whether block \<open>b\<close> is marked in use, and which blocks hold the bit map and the inodes.\<close>

definition used_block :: "nat \<Rightarrow> fsys \<Rightarrow> bool" where
  "used_block b s \<longleftrightarrow> bit_used (blk s (BBLOCK b s)) (b mod BPB)"

definition meta :: "nat \<Rightarrow> fsys \<Rightarrow> bool" where
  "meta n s \<longleftrightarrow> (\<exists>b < sb_size (sblock s). n = BBLOCK b s) \<or> (\<exists>k < sb_ninodes (sblock s). n = IBLOCK k s)"

definition disk_ok :: "fsys \<Rightarrow> bool" where
  "disk_ok s \<longleftrightarrow> (\<forall>n. length (blk s n) = BSIZE) \<and> used_block 0 s \<and>
     0 < sb_size (sblock s) \<and> sb_size (sblock s) < 2 ^ 32 \<and>
     (\<forall>n. meta n s \<longrightarrow> n < sb_size (sblock s) \<and> used_block n s) \<and>
     (\<forall>b < sb_size (sblock s). \<forall>k < sb_ninodes (sblock s). BBLOCK b s \<noteq> IBLOCK k s)"

lemma BBLOCK_cong [simp]:
  "BBLOCK b (log_block n d s) = BBLOCK b s" "BBLOCK b (printk m s) = BBLOCK b s"
  "BBLOCK b (upd_inode i f s) = BBLOCK b s" "BBLOCK b (bzero n s) = BBLOCK b s"
  "IBLOCK b (log_block n d s) = IBLOCK b s" "IBLOCK b (printk m s) = IBLOCK b s"
  "IBLOCK b (upd_inode i f s) = IBLOCK b s" "IBLOCK b (bzero n s) = IBLOCK b s"
  by (simp_all add: BBLOCK_def IBLOCK_def log_block_def event_def printk_def upd_inode_def bzero_def)

lemma fs_fields [simp]:
  "sblock (log_block n d s) = sblock s" "sblock (printk m s) = sblock s" "sblock (upd_inode i f s) = sblock s"
  "sblock (bzero n s) = sblock s"
  "itable (log_block n d s) = itable s" "itable (printk m s) = itable s" "itable (bzero n s) = itable s"
  "blk (log_block n d s) = (blk s)(n := d)" "blk (printk m s) = blk s" "blk (upd_inode i f s) = blk s"
  "blk (bzero n s) = (blk s)(n := replicate BSIZE 0)"
  by (simp_all add: log_block_def event_def printk_def upd_inode_def bzero_def)

lemma block_index: "b div BPB = c div BPB \<Longrightarrow> b mod BPB = c mod BPB \<Longrightarrow> b = c"
  by (metis div_mult_mod_eq)

lemma used_set:
  assumes "length (blk s (BBLOCK a s)) = BSIZE"
  shows "used_block b (log_block (BBLOCK a s) (set_bit_used (a mod BPB) (blk s (BBLOCK a s))) s) \<longleftrightarrow>
    b = a \<or> used_block b s"
proof -
  have "a mod BPB div 8 < BSIZE" by (simp add: BPB_def BSIZE_def div_less_iff_less_mult)
  then show ?thesis
    using assms block_index [of b a] by (auto simp: used_block_def bit_used_set BBLOCK_def)
qed

lemma used_clear:
  assumes "length (blk s (BBLOCK a s)) = BSIZE"
  shows "used_block b (log_block (BBLOCK a s) (clear_bit_used (a mod BPB) (blk s (BBLOCK a s))) s) \<longleftrightarrow>
    b \<noteq> a \<and> used_block b s"
proof -
  have "a mod BPB div 8 < BSIZE" by (simp add: BPB_def BSIZE_def div_less_iff_less_mult)
  then show ?thesis
    using assms block_index [of b a] by (auto simp: used_block_def bit_used_clear BBLOCK_def)
qed

lemma used_other_block:
  assumes "\<not> meta n s" and "b < sb_size (sblock s)"
  shows "used_block b (log_block n d s) = used_block b s"
  using assms by (auto simp: used_block_def meta_def)

section \<open>The allocator\<close>

text \<open>Blocks from \<open>b\<close> on are searched; \<open>b\<close> is the first of a block of the bit map.\<close>

lemma balloc_from_cases:
  assumes "b mod BPB = 0"
  shows "(\<exists>a. b \<le> a \<and> a < sb_size (sblock s) \<and> \<not> used_block a s \<and>
      balloc_from b s = (a, bzero a (log_block (BBLOCK a s) (set_bit_used (a mod BPB) (blk s (BBLOCK a s))) s))) \<or>
    (\<forall>a. b \<le> a \<and> a < sb_size (sblock s) \<longrightarrow> used_block a s) \<and> balloc_from b s = (0, printk ''balloc: out of blocks'' s)"
  using assms
proof (induction b s rule: balloc_from.induct)
  case (1 b s)
  show ?case
  proof (cases "b < sb_size (sblock s)")
    case True
    let ?d = "blk s (BBLOCK b s)" and ?n = "min BPB (sb_size (sblock s) - b)"
    have pos: "(b + bi) mod BPB = bi" "BBLOCK (b + bi) s = BBLOCK b s" if "bi < BPB" for bi
      using that 1(2) by (auto simp: BBLOCK_def div_add1_eq mod_add_eq [symmetric] div_eq_0_iff)
    show ?thesis
    proof (cases "find (\<lambda>bi. \<not> bit_used ?d bi) [0..<?n]")
      case (Some bi)
      then have bi: "bi < ?n" "\<not> bit_used ?d bi" by (auto simp: find_Some_iff)
      then have "balloc_from b s = (b + bi, bzero (b + bi) (log_block (BBLOCK b s) (set_bit_used bi ?d) s))"
        using True Some by (subst balloc_from.simps) (simp add: Let_def)
      moreover have "\<not> used_block (b + bi) s" using bi pos [of bi] by (simp add: used_block_def)
      ultimately show ?thesis using bi pos [of bi] True by (intro disjI1 exI [of _ "b + bi"]) auto
    next
      case None
      have all: "used_block a s" if "b \<le> a" "a < b + BPB" "a < sb_size (sblock s)" for a
      proof -
        have "a - b < ?n" using that by auto
        then have "bit_used ?d (a - b)" using None by (auto simp: find_None_iff)
        moreover have "b + (a - b) = a" using that by simp
        ultimately show ?thesis using pos [of "a - b"] that by (simp add: used_block_def)
      qed
      have e: "balloc_from b s = balloc_from (b + BPB) s"
        using True None by (subst balloc_from.simps) (simp add: Let_def)
      have "(b + BPB) mod BPB = 0" using 1(2) by simp
      from 1(1) [OF True refl None this] show ?thesis
      proof (elim disjE exE conjE)
        fix a assume a: "b + BPB \<le> a" "a < sb_size (sblock s)" "\<not> used_block a s"
          "balloc_from (b + BPB) s = (a, bzero a (log_block (BBLOCK a s) (set_bit_used (a mod BPB) (blk s (BBLOCK a s))) s))"
        then show ?thesis using e by (intro disjI1 exI [of _ a]) simp
      next
        assume a: "\<forall>a. b + BPB \<le> a \<and> a < sb_size (sblock s) \<longrightarrow> used_block a s"
          "balloc_from (b + BPB) s = (0, printk ''balloc: out of blocks'' s)"
        have "used_block c s" if "b \<le> c" "c < sb_size (sblock s)" for c
          using all [of c] a(1) that by (cases "c < b + BPB") auto
        then show ?thesis using e a(2) by auto
      qed
    qed
  next
    case False
    then show ?thesis by (subst balloc_from.simps) auto
  qed
qed

text \<open>The state after block \<open>a\<close> has been allocated.\<close>

definition taken :: "nat \<Rightarrow> fsys \<Rightarrow> fsys" where
  "taken a s = bzero a (log_block (BBLOCK a s) (set_bit_used (a mod BPB) (blk s (BBLOCK a s))) s)"

lemma taken_fields [simp]:
  "sblock (taken a s) = sblock s" "itable (taken a s) = itable s" "BBLOCK b (taken a s) = BBLOCK b s"
  "IBLOCK k (taken a s) = IBLOCK k s" "meta n (taken a s) = meta n s"
  by (simp_all add: taken_def meta_def)

lemma meta_log_block [simp]: "meta n (log_block m d s) = meta n s"
  and meta_upd_inode [simp]: "meta n (upd_inode i f s) = meta n s"
  by (simp_all add: meta_def)

lemma length_set_bit_used [simp]: "length (set_bit_used bi d) = length d"
  by (simp add: set_bit_used_def)

lemma free_not_meta: "disk_ok s \<Longrightarrow> \<not> used_block a s \<Longrightarrow> \<not> meta a s \<and> a \<noteq> 0"
  unfolding disk_ok_def by metis

lemma blk_taken: "blk (taken a s) = (blk s)(BBLOCK a s := set_bit_used (a mod BPB) (blk s (BBLOCK a s)), a := replicate BSIZE 0)"
  by (simp add: taken_def)

lemma used_taken:
  assumes "disk_ok s" and "\<not> used_block a s" and "b < sb_size (sblock s)"
  shows "used_block b (taken a s) \<longleftrightarrow> b = a \<or> used_block b s"
proof -
  let ?u = "log_block (BBLOCK a s) (set_bit_used (a mod BPB) (blk s (BBLOCK a s))) s"
  have "\<not> meta a ?u" using free_not_meta [OF assms(1,2)] by simp
  then have "used_block b (taken a s) = used_block b ?u"
    unfolding taken_def bzero_def using assms(3) by (intro used_other_block) simp_all
  then show ?thesis using assms(1) by (simp add: used_set disk_ok_def)
qed

lemma disk_ok_taken:
  assumes "disk_ok s" and "\<not> used_block a s"
  shows "disk_ok (taken a s)"
proof -
  have "used_block n (taken a s)" if "meta n s" for n
    using that assms used_taken [OF assms, of n] by (auto simp: disk_ok_def)
  moreover have "used_block 0 (taken a s)"
    using assms used_taken [OF assms, of 0] by (auto simp: disk_ok_def)
  ultimately show ?thesis using assms(1) by (auto simp: disk_ok_def blk_taken)
qed


lemma balloc_cases:
  obtains "\<forall>b < sb_size (sblock s). used_block b s" "balloc s = (0, printk ''balloc: out of blocks'' s)"
  | a where "a < sb_size (sblock s)" "\<not> used_block a s" "balloc s = (a, taken a s)"
  using balloc_from_cases [of 0 s] that by (auto simp: balloc_def taken_def)

text \<open>
  C38. \<open>balloc\<close> returns 0 only when every block is in use. Otherwise it returns a block that was
  free, marks exactly that block in the bit map, zeroes it, and changes no other block of the
  disk but the one of the bit map that describes it.
\<close>

theorem balloc_takes_free_block:
  assumes ok: "disk_ok s" and b: "balloc s = (a, t)"
  shows "if a = 0 then (\<forall>b < sb_size (sblock s). used_block b s) \<and> blk t = blk s
    else a < sb_size (sblock s) \<and> \<not> used_block a s \<and> \<not> meta a s \<and> blk t a = replicate BSIZE 0 \<and>
      (\<forall>b < sb_size (sblock s). used_block b t \<longleftrightarrow> b = a \<or> used_block b s) \<and>
      (\<forall>n. n \<noteq> a \<and> n \<noteq> BBLOCK a s \<longrightarrow> blk t n = blk s n) \<and> disk_ok t"
proof (cases rule: balloc_cases [of s])
  case (2 a')
  then have "a = a'" "t = taken a s" using b by auto
  then show ?thesis
    using 2 free_not_meta [OF ok 2(2)] used_taken [OF ok 2(2)] disk_ok_taken [OF ok 2(2)] by (auto simp: blk_taken)
qed (use b in auto)

text \<open>A disk with the bit map in block 1, sixteen inodes in block 2 and two blocks of data.\<close>

definition tiny_disk :: fsys where
  "tiny_disk = \<lparr>blk = (\<lambda>_. replicate BSIZE 0)(1 := 7 # replicate (BSIZE - 1) 0),
     sblock = \<lparr>sb_magic = FSMAGIC, sb_size = 5, sb_nblocks = 2, sb_ninodes = 16, sb_nlog = 0, sb_logstart = 0,
       sb_inodestart = 2, sb_bmapstart = 1\<rparr>,
     itable = replicate NINODE zero_inode, trace = [], messages = [], cur_pid = 1\<rparr>"

lemma tiny_disk_used: "used_block b tiny_disk \<longleftrightarrow> b < 3" if "b < 8"
proof -
  have "b \<in> {0, 1, 2, 3, 4, 5, 6, 7}" using that by auto
  then show ?thesis
    by (auto simp: used_block_def tiny_disk_def BBLOCK_def BPB_def BSIZE_def bit_used_def bit_mask_def)
qed

lemma tiny_disk_ok: "disk_ok tiny_disk"
proof -
  have m: "meta n tiny_disk \<Longrightarrow> n = 1 \<or> n = 2" for n
    by (auto simp: meta_def tiny_disk_def BBLOCK_def IBLOCK_def IPB_def BPB_def BSIZE_def)
  then have "n < 5 \<and> used_block n tiny_disk" if "meta n tiny_disk" for n
    using m [OF that] tiny_disk_used [of n] by auto
  moreover have "sb_size (sblock tiny_disk) = 5" by (simp add: tiny_disk_def)
  moreover have "length (blk tiny_disk n) = BSIZE" for n by (simp add: tiny_disk_def BSIZE_def)
  moreover have "BBLOCK b tiny_disk \<noteq> IBLOCK k tiny_disk" if "b < 5" for b k
    using that by (simp add: tiny_disk_def BBLOCK_def IBLOCK_def BPB_def BSIZE_def)
  ultimately show ?thesis
    using tiny_disk_used [of 0] by (auto simp: disk_ok_def)
qed

lemma tiny_balloc_table: "balloc (tiny_disk\<lparr>itable := tab\<rparr>) = (3, taken 3 (tiny_disk\<lparr>itable := tab\<rparr>))"
proof -
  have "bit_used (blk tiny_disk 1) b \<longleftrightarrow> b < 3" if "b < 8" for b
    using tiny_disk_used [OF that] that
    by (simp add: used_block_def BBLOCK_def BPB_def BSIZE_def tiny_disk_def)
  moreover have "sb_size (sblock tiny_disk) = 5" "sb_bmapstart (sblock tiny_disk) = 1" by (simp_all add: tiny_disk_def)
  moreover have "[0..<5] = [0, 1, 2, 3, 4 :: nat]" by (simp add: upt_rec)
  ultimately show ?thesis
    by (simp add: balloc_def balloc_from.simps [of 0] Let_def BPB_def BSIZE_def taken_def BBLOCK_def)
qed

lemma tiny_balloc: "balloc tiny_disk = (3, taken 3 tiny_disk)"
  using tiny_balloc_table [of "itable tiny_disk"] by simp

theorem balloc_takes_free_block_witness:
  "fst (balloc tiny_disk) = 3 \<and> \<not> used_block 3 tiny_disk \<and> used_block 3 (snd (balloc tiny_disk)) \<and>
   blk (snd (balloc tiny_disk)) 3 = replicate BSIZE 0 \<and> disk_ok (snd (balloc tiny_disk))"
  using balloc_takes_free_block [OF tiny_disk_ok tiny_balloc] tiny_balloc by (simp add: tiny_disk_def)

section \<open>The format of inodes\<close>

lemma length_put16 [simp]: "length (put16 i v d) = length d"
  by (simp add: put16_def)

lemma nth_put16_other: "k div 2 \<noteq> i \<Longrightarrow> put16 i v d ! k = d ! k"
  by (auto simp: put16_def nth_list_update)

lemma get_put16:
  "2 * i + 1 < length d \<Longrightarrow> v < 2 ^ 16 \<Longrightarrow> get16 i (put16 i v d) = v"
  "i \<noteq> j \<Longrightarrow> get16 i (put16 j v d) = get16 i d"
  by (simp_all add: get16_def nth_put16_other) (simp add: put16_def unat_of_nat take_bit_eq_mod)

lemma get_put_mixed:
  "i div 2 \<noteq> j \<Longrightarrow> get16 i (put32 j v d) = get16 i d"
  "j div 2 \<noteq> i \<Longrightarrow> get32 i (put16 j v d) = get32 i d"
  by (simp add: get16_def nth_put32_other) (simp add: get32_def nth_put16_other)

lemma sint16_uint16: "- (2 ^ 15) \<le> i \<Longrightarrow> i < 2 ^ 15 \<Longrightarrow> sint16 (uint16 i) = i"
proof (cases "i < 0")
  case True
  assume "- (2 ^ 15) \<le> i" "i < 2 ^ 15"
  then have "(i + 65536) mod 65536 = i + 65536" using True by (intro mod_pos_pos_trivial) auto
  then have "i mod 65536 = i + 65536" by simp
  then show ?thesis using True \<open>- (2 ^ 15) \<le> i\<close> by (simp add: sint16_def uint16_def)
qed (simp add: sint16_def uint16_def mod_pos_pos_trivial)

lemma uint16_less [simp]: "uint16 i < 65536"
  by (simp add: uint16_def nat_less_iff)

lemma length_put_addrs [simp]: "length (put_addrs k as d) = length d"
proof -
  have "length (foldl (\<lambda>e j. put32 (16 * k + 3 + j) (as ! j) e) d js) = length d" for js
    by (induction js arbitrary: d) auto
  then show ?thesis by (simp add: put_addrs_def)
qed

lemma length_put_dinode [simp]: "length (put_dinode k di d) = length d"
  by (simp add: put_dinode_def)

lemma get_put_addrs:
  assumes "length d = BSIZE" and "k < IPB"
  shows "\<And>j. j < 13 \<Longrightarrow> as ! j < 2 ^ 32 \<Longrightarrow> get32 (16 * k + 3 + j) (put_addrs k as d) = as ! j"
    and "\<And>i. i < 16 * k + 3 \<or> 16 * k + 16 \<le> i \<Longrightarrow> get32 i (put_addrs k as d) = get32 i d"
    and "\<And>i. i < 32 * k + 6 \<or> 32 * k + 32 \<le> i \<Longrightarrow> get16 i (put_addrs k as d) = get16 i d"
proof -
  let ?p = "\<lambda>n. foldl (\<lambda>e j. put32 (16 * k + 3 + j) (as ! j) e) d [0..<n]"
  have len: "length (?p n) = BSIZE" for n using assms(1) by (induction n) simp_all
  have k: "k < 16" using assms(2) by (simp add: IPB_def BSIZE_def)
  have "get32 (16 * k + 3 + j) (?p n) = as ! j" if "j < n" "n \<le> 13" "as ! j < 2 ^ 32" for j n
    using that
  proof (induction n)
    case (Suc n)
    show ?case
    proof (cases "j = n")
      case True
      have "4 * (16 * k + 3 + n) + 3 < length (?p n)" using len k Suc(3) by (simp add: BSIZE_def)
      then show ?thesis using True Suc(4) by (simp add: get_put32_same del: upt_Suc)
         (simp add: get_put32_same)
    next
      case False
      then show ?thesis using Suc by (simp add: get_put32_other)
    qed
  qed simp
  then show "\<And>j. j < 13 \<Longrightarrow> as ! j < 2 ^ 32 \<Longrightarrow> get32 (16 * k + 3 + j) (put_addrs k as d) = as ! j"
    by (simp add: put_addrs_def NDIRECT_def del: upt_Suc)
  have "get32 i (?p n) = get32 i d" if "i < 16 * k + 3 \<or> 16 * k + 16 \<le> i" "n \<le> 13" for i n
    using that by (induction n) (auto simp: get_put32_other)
  then show "\<And>i. i < 16 * k + 3 \<or> 16 * k + 16 \<le> i \<Longrightarrow> get32 i (put_addrs k as d) = get32 i d"
    by (simp add: put_addrs_def NDIRECT_def del: upt_Suc)
  have "get16 i (?p n) = get16 i d" if "i < 32 * k + 6 \<or> 32 * k + 32 \<le> i" "n \<le> 13" for i n
    using that by (induction n) (auto simp: get_put_mixed)
  then show "\<And>i. i < 32 * k + 6 \<or> 32 * k + 32 \<le> i \<Longrightarrow> get16 i (put_addrs k as d) = get16 i d"
    by (simp add: put_addrs_def NDIRECT_def del: upt_Suc)
qed

definition short :: "int \<Rightarrow> bool" where
  "short i \<longleftrightarrow> - (2 ^ 15) \<le> i \<and> i < 2 ^ 15"

definition dinode_ok :: "dinode \<Rightarrow> bool" where
  "dinode_ok di \<longleftrightarrow> short (d_type di) \<and> short (d_major di) \<and> short (d_minor di) \<and> short (d_nlink di) \<and>
     d_size di < 2 ^ 32 \<and> length (d_addrs di) = NDIRECT + 1 \<and> (\<forall>a\<in>set (d_addrs di). a < 2 ^ 32)"

lemma get_put_dinode_same:
  assumes d: "length d = BSIZE" and k: "k < IPB" and ok: "dinode_ok di"
  shows "get_dinode k (put_dinode k di d) = di"
proof -
  have k16: "k < 16" using k by (simp add: IPB_def BSIZE_def)
  let ?e = "put32 (16 * k + 2) (d_size di) (put16 (32 * k + 3) (uint16 (d_nlink di))
    (put16 (32 * k + 2) (uint16 (d_minor di)) (put16 (32 * k + 1) (uint16 (d_major di))
    (put16 (32 * k) (uint16 (d_type di)) d))))"
  have e: "put_dinode k di d = put_addrs k (d_addrs di) ?e" by (simp add: put_dinode_def)
  have len: "length ?e = BSIZE" using d by simp
  note A = get_put_addrs [OF len k, of _ "d_addrs di"]
  have "map (\<lambda>j. get32 (16 * k + 3 + j) (put_dinode k di d)) [0..<NDIRECT + 1] = d_addrs di"
    using ok A(1) unfolding e by (intro nth_equalityI) (simp_all add: dinode_ok_def NDIRECT_def del: upt_Suc)
  moreover have "get32 (16 * k + 2) (put_dinode k di d) = d_size di"
    using ok d k16 A(2) [of "16 * k + 2"] unfolding e by (simp add: dinode_ok_def get_put32_same BSIZE_def)
  moreover have "get16 (32 * k) (put_dinode k di d) = uint16 (d_type di)"
    "get16 (32 * k + 1) (put_dinode k di d) = uint16 (d_major di)"
    "get16 (32 * k + 2) (put_dinode k di d) = uint16 (d_minor di)"
    "get16 (32 * k + 3) (put_dinode k di d) = uint16 (d_nlink di)"
    using d k16 A(3) unfolding e by (simp_all add: get_put16 get_put_mixed BSIZE_def)
  ultimately show ?thesis
    using ok by (simp add: get_dinode_def dinode_ok_def short_def sint16_uint16)
qed

lemma get_put_dinode_other:
  assumes d: "length d = BSIZE" and k: "k < IPB" and j: "j < IPB" "j \<noteq> k"
  shows "get_dinode j (put_dinode k di d) = get_dinode j d"
proof -
  let ?e = "put32 (16 * k + 2) (d_size di) (put16 (32 * k + 3) (uint16 (d_nlink di))
    (put16 (32 * k + 2) (uint16 (d_minor di)) (put16 (32 * k + 1) (uint16 (d_major di))
    (put16 (32 * k) (uint16 (d_type di)) d))))"
  have e: "put_dinode k di d = put_addrs k (d_addrs di) ?e" by (simp add: put_dinode_def)
  have len: "length ?e = BSIZE" using d by simp
  note A = get_put_addrs [OF len k, of _ "d_addrs di"]
  have "get32 (16 * j + i) (put_dinode k di d) = get32 (16 * j + i) d" if "i < 16" for i
  proof -
    have ne: "16 * j + i < 16 * k \<or> 16 * k + 16 \<le> 16 * j + i" using that j by auto
    then have "16 * j + i \<noteq> 16 * k + 2" "(32 * k + 3) div 2 \<noteq> 16 * j + i" "(32 * k + 2) div 2 \<noteq> 16 * j + i"
      "(32 * k + 1) div 2 \<noteq> 16 * j + i" "(32 * k) div 2 \<noteq> 16 * j + i" by auto
    then have "get32 (16 * j + i) ?e = get32 (16 * j + i) d"
      by (simp only: get_put32_other get_put_mixed not_False_eq_True)
    then show ?thesis using A(2) [of "16 * j + i"] ne unfolding e by auto
  qed
  moreover have "get16 (32 * j + i) (put_dinode k di d) = get16 (32 * j + i) d" if "i < 4" for i
  proof -
    have ne: "32 * j + i < 32 * k \<or> 32 * k + 32 \<le> 32 * j + i" using that j by auto
    then have "(32 * j + i) div 2 \<noteq> 16 * k + 2" "32 * j + i \<noteq> 32 * k + 3" "32 * j + i \<noteq> 32 * k + 2"
      "32 * j + i \<noteq> 32 * k + 1" "32 * j + i \<noteq> 32 * k" by auto
    then have "get16 (32 * j + i) ?e = get16 (32 * j + i) d"
      by (simp only: get_put16 get_put_mixed not_False_eq_True)
    then show ?thesis using A(3) [of "32 * j + i"] ne unfolding e by auto
  qed
  note S = this this [of 0] calculation calculation [of 2]
  show ?thesis
    using S(2) S(1) [of 1] S(1) [of 2] S(1) [of 3] S(4) S(3) [of "3 + _"]
    by (auto simp: get_dinode_def NDIRECT_def add.assoc simp del: upt_Suc)
qed

definition disk_inode :: "nat \<Rightarrow> fsys \<Rightarrow> dinode" where
  "disk_inode inum s = get_dinode (inum mod IPB) (blk s (IBLOCK inum s))"

lemma itable_upd_inode [simp]:
  "itable (upd_inode i f s) = (itable s)[i := f (itable s ! i)]" "cur_pid (upd_inode i f s) = cur_pid s"
  by (simp_all add: upd_inode_def)

lemma disk_inode_iupdate:
  assumes "\<forall>n. length (blk s n) = BSIZE" and "dinode_ok (dinode_of (get_inode i s))"
  shows "disk_inode inum (iupdate i s) =
    (if inum = i_inum (get_inode i s) then dinode_of (get_inode i s) else disk_inode inum s)"
proof -
  let ?k = "i_inum (get_inode i s)" and ?di = "dinode_of (get_inode i s)"
  have p: "n mod IPB < IPB" for n by (simp add: IPB_def BSIZE_def)
  have b: "blk (iupdate i s) n = (if n = IBLOCK ?k s then put_dinode (?k mod IPB) ?di (blk s n) else blk s n)"
    "IBLOCK n (iupdate i s) = IBLOCK n s" for n
    by (simp_all add: iupdate_def Let_def)
  consider "inum = ?k" | "inum \<noteq> ?k" "inum div IPB \<noteq> ?k div IPB" | "inum \<noteq> ?k" "inum mod IPB \<noteq> ?k mod IPB"
    by (metis div_mult_mod_eq)
  then show ?thesis
  proof cases
    case 1
    then show ?thesis using assms p by (simp add: disk_inode_def b get_put_dinode_same)
  next
    case 2
    then show ?thesis by (simp add: disk_inode_def b) (simp add: IBLOCK_def)
  next
    case 3
    then show ?thesis using assms p by (simp add: disk_inode_def b get_put_dinode_other)
  qed
qed

text \<open>
  C15. What \<open>iupdate\<close> writes is what \<open>ilock\<close> reads back: after an inode has been written to disk,
  locking a table entry for the same inode that is not yet valid gives it the same type, device
  numbers, link count, size and block addresses. The other inodes on disk, also those in the same
  block, are untouched.
\<close>

theorem iupdate_ilock_roundtrip:
  assumes "disk_ok s" and "dinode_ok (dinode_of (get_inode i s))" and "i_type (get_inode i s) \<noteq> 0"
    and "j < length (itable s)" and "i_inum (get_inode j s) = i_inum (get_inode i s)"
    and "1 \<le> i_ref (get_inode j s)" and "i_owner (get_inode j s) = None" and "\<not> i_valid (get_inode j s)"
  shows "(\<exists>u. ilock j (iupdate i s) = Inr u \<and> dinode_of (get_inode j u) = dinode_of (get_inode i s) \<and>
      i_valid (get_inode j u) \<and> holding_inode j u) \<and>
    (\<forall>inum. inum \<noteq> i_inum (get_inode i s) \<longrightarrow> disk_inode inum (iupdate i s) = disk_inode inum s)"
proof -
  have B: "\<forall>n. length (blk s n) = BSIZE" using assms(1) by (simp add: disk_ok_def)
  note D = disk_inode_iupdate [OF B assms(2)]
  have t: "itable (iupdate i s) = itable s" "cur_pid (iupdate i s) = cur_pid s"
    by (simp_all add: iupdate_def Let_def log_block_def event_def)
  have "get_dinode (i_inum (get_inode j s) mod IPB) (blk (iupdate i s) (IBLOCK (i_inum (get_inode j s)) (iupdate i s))) =
      dinode_of (get_inode i s)"
    using D [of "i_inum (get_inode j s)"] assms(5) by (simp add: disk_inode_def)
  then have "\<exists>u. ilock j (iupdate i s) = Inr u \<and> dinode_of (get_inode j u) = dinode_of (get_inode i s) \<and>
      i_valid (get_inode j u) \<and> holding_inode j u"
    using assms t by (simp add: ilock_def Let_def dinode_of_def fill_inode_def holding_inode_def)
  then show ?thesis using D by auto
qed

text \<open>Inode 3, a file of ten bytes in block 3, and an entry for it that has not been read.\<close>

definition two_entries :: fsys where
  "two_entries = tiny_disk\<lparr>itable :=
     [zero_inode\<lparr>i_inum := 3, i_ref := 1, i_valid := True, i_type := T_FILE, i_nlink := 1, i_size := 10,
        i_addrs := 3 # replicate NDIRECT 0\<rparr>,
      zero_inode\<lparr>i_inum := 3, i_ref := 1\<rparr>]\<rparr>"

theorem iupdate_ilock_roundtrip_witness:
  "\<exists>u. ilock 1 (iupdate 0 two_entries) = Inr u \<and> i_size (get_inode 1 u) = 10 \<and> i_addrs (get_inode 1 u) ! 0 = 3"
proof -
  have "disk_ok two_entries"
    using tiny_disk_ok by (simp add: disk_ok_def two_entries_def meta_def used_block_def BBLOCK_def IBLOCK_def)
  moreover have "dinode_ok (dinode_of (get_inode 0 two_entries))"
    by (simp add: two_entries_def dinode_of_def dinode_ok_def short_def zero_inode_def T_FILE_def NDIRECT_def)
  ultimately obtain u where "ilock 1 (iupdate 0 two_entries) = Inr u"
    "dinode_of (get_inode 1 u) = dinode_of (get_inode 0 two_entries)"
    using iupdate_ilock_roundtrip [of two_entries 0 1] by (auto simp: two_entries_def zero_inode_def T_FILE_def)
  then show ?thesis by (auto simp: dinode_of_def two_entries_def zero_inode_def)
qed

section \<open>The blocks of a file\<close>

text \<open>
  The block addresses of a file: entry \<open>k\<close> below \<open>MAXFILE\<close> is the address of block \<open>k\<close> of the file, the last
  one that of the indirect block.
\<close>

definition slot :: "nat \<Rightarrow> nat \<Rightarrow> fsys \<Rightarrow> nat" where
  "slot i k s =
     (let as = i_addrs (get_inode i s) in
      if k < NDIRECT then as ! k else if k = MAXFILE then as ! NDIRECT
      else if as ! NDIRECT = 0 then 0 else get32 (k - NDIRECT) (blk s (as ! NDIRECT)))"

definition data_block :: "nat \<Rightarrow> fsys \<Rightarrow> bool" where
  "data_block b s \<longleftrightarrow> 0 < b \<and> b < sb_size (sblock s) \<and> used_block b s \<and> \<not> meta b s"

definition file_ok :: "nat \<Rightarrow> fsys \<Rightarrow> bool" where
  "file_ok i s \<longleftrightarrow> i < length (itable s) \<and> length (i_addrs (get_inode i s)) = NDIRECT + 1 \<and>
     (\<forall>k \<le> MAXFILE. slot i k s \<noteq> 0 \<longrightarrow> data_block (slot i k s) s \<and>
        (\<forall>k' \<le> MAXFILE. slot i k' s = slot i k s \<longrightarrow> k' = k))"

text \<open>A block in use that is not one of the file's.\<close>

definition foreign :: "nat \<Rightarrow> nat \<Rightarrow> fsys \<Rightarrow> bool" where
  "foreign i b s \<longleftrightarrow> data_block b s \<and> (\<forall>k \<le> MAXFILE. slot i k s \<noteq> b)"

text \<open>A block of the file as it reads; a block that has not been allocated reads as zeroes.\<close>

definition fblock :: "nat \<Rightarrow> nat \<Rightarrow> fsys \<Rightarrow> block" where
  "fblock i bn s = (if slot i bn s = 0 then replicate BSIZE 0 else blk s (slot i bn s))"

text \<open>
  From \<open>s\<close> to \<open>t\<close> the file may get more blocks; the blocks it has stay, the other blocks in use stay as they
  are, and so does the rest of the inode.
\<close>

definition grows :: "nat \<Rightarrow> fsys \<Rightarrow> fsys \<Rightarrow> bool" where
  "grows i s t \<longleftrightarrow> disk_ok t \<and> file_ok i t \<and> sblock t = sblock s \<and> length (itable t) = length (itable s) \<and>
     (\<forall>b. foreign i b s \<longrightarrow> foreign i b t \<and> blk t b = blk s b) \<and>
     (get_inode i t)\<lparr>i_addrs := []\<rparr> = (get_inode i s)\<lparr>i_addrs := []\<rparr> \<and>
     (\<forall>j. j \<noteq> i \<longrightarrow> get_inode j t = get_inode j s) \<and>
     (\<forall>k \<le> MAXFILE. slot i k s \<noteq> 0 \<longrightarrow> slot i k t = slot i k s)"

lemma grows_refl: "disk_ok s \<Longrightarrow> file_ok i s \<Longrightarrow> grows i s s"
  by (simp add: grows_def)

lemma grows_trans: "grows i s t \<Longrightarrow> grows i t u \<Longrightarrow> grows i s u"
  unfolding grows_def by (metis (no_types, lifting))

lemma disk_ok_log_data:
  assumes "disk_ok s" and "data_block n s" and "length d = BSIZE"
  shows "disk_ok (log_block n d s)" and "data_block b (log_block n d s) = data_block b s"
proof -
  have u: "used_block b (log_block n d s) = used_block b s" if "b < sb_size (sblock s)" for b
    using assms(2) that by (intro used_other_block) (simp_all add: data_block_def)
  then show "disk_ok (log_block n d s)" using assms(1,3) by (auto simp: disk_ok_def)
  show "data_block b (log_block n d s) = data_block b s" using u by (auto simp: data_block_def)
qed

lemma data_block_taken:
  assumes "disk_ok s" and "\<not> used_block a s" and "a < sb_size (sblock s)"
  shows "data_block b (taken a s) \<longleftrightarrow> b = a \<or> data_block b s"
  using assms used_taken [OF assms(1,2), of b] free_not_meta [OF assms(1,2)] by (auto simp: data_block_def)

lemma blk_taken_data: "\<not> used_block a s \<Longrightarrow> a < sb_size (sblock s) \<Longrightarrow> data_block b s \<Longrightarrow> blk (taken a s) b = blk s b"
  by (auto simp: blk_taken data_block_def meta_def)

lemma disk_ok_upd_inode [simp]: "disk_ok (upd_inode i f s) = disk_ok s"
  "data_block b (upd_inode i f s) = data_block b s"
  by (simp_all add: disk_ok_def used_block_def data_block_def)

lemma slot_MAXFILE: "slot i MAXFILE s = i_addrs (get_inode i s) ! NDIRECT"
  by (simp add: slot_def MAXFILE_def)

text \<open>Entry \<open>k\<close>, which was empty, gets the fresh block \<open>a\<close>.\<close>

lemma grow_one:
  assumes "disk_ok t" and F: "file_ok i s" and k: "k \<le> MAXFILE" "slot i k s = 0"
    and a: "\<not> data_block a s" "a \<noteq> 0" and D: "\<And>b. data_block b t \<longleftrightarrow> b = a \<or> data_block b s"
    and S: "\<And>k'. k' \<le> MAXFILE \<Longrightarrow> slot i k' t = (if k' = k then a else slot i k' s)"
    and sb: "sblock t = sblock s" "length (itable t) = length (itable s)"
    and B: "\<And>b. data_block b s \<Longrightarrow> b \<noteq> slot i MAXFILE s \<Longrightarrow> blk t b = blk s b"
    and I: "(get_inode i t)\<lparr>i_addrs := []\<rparr> = (get_inode i s)\<lparr>i_addrs := []\<rparr>"
      "length (i_addrs (get_inode i t)) = NDIRECT + 1" "\<And>j. j \<noteq> i \<Longrightarrow> get_inode j t = get_inode j s"
  shows "grows i s t"
    and "blk t a = replicate BSIZE 0 \<Longrightarrow> bn < MAXFILE \<Longrightarrow> fblock i bn t = fblock i bn s"
proof -
  have s: "data_block (slot i k' s) s" "k' = k''" if "k' \<le> MAXFILE" "k'' \<le> MAXFILE" "slot i k' s \<noteq> 0"
      "slot i k'' s = slot i k' s" for k' k''
    using F that unfolding file_ok_def by metis+
  have "file_ok i t"
    unfolding file_ok_def
  proof (intro conjI allI impI)
    show "i < length (itable t)" using F sb by (simp add: file_ok_def)
    show "length (i_addrs (get_inode i t)) = NDIRECT + 1" by (rule I)
    fix k' assume "k' \<le> MAXFILE" "slot i k' t \<noteq> 0"
    then show "data_block (slot i k' t) t" using S [of k'] s(1) [of k' k'] D by (auto split: if_splits)
    fix k'' assume k'': "k'' \<le> MAXFILE" "slot i k'' t = slot i k' t"
    have other: "slot i j t \<noteq> a" if "j \<le> MAXFILE" "j \<noteq> k" "slot i j t \<noteq> 0" for j
      using that S [of j] s(1) [of j j] a(1) by auto
    show "k'' = k'"
    proof (cases "k' = k")
      case True
      then show ?thesis using other [of k''] k'' S [of k'] \<open>k' \<le> MAXFILE\<close> \<open>slot i k' t \<noteq> 0\<close> by fastforce
    next
      case False
      then have "k'' \<noteq> k" using other [of k'] k'' S [of k''] \<open>k' \<le> MAXFILE\<close> \<open>slot i k' t \<noteq> 0\<close> by fastforce
      then have "slot i k' s \<noteq> 0" "slot i k'' s = slot i k' s"
        using S [of k'] S [of k''] k'' False \<open>k' \<le> MAXFILE\<close> \<open>slot i k' t \<noteq> 0\<close> by auto
      from s(2) [OF \<open>k' \<le> MAXFILE\<close> k''(1) this] show ?thesis by simp
    qed
  qed
  moreover have "foreign i b t \<and> blk t b = blk s b" if "foreign i b s" for b
    using that S D B [of b] a(1) by (auto simp: foreign_def)
  moreover have "\<forall>k' \<le> MAXFILE. slot i k' s \<noteq> 0 \<longrightarrow> slot i k' t = slot i k' s" using S k by auto
  ultimately show "grows i s t" using assms(1) sb I by (simp add: grows_def)
  assume z: "blk t a = replicate BSIZE 0" and bn: "bn < MAXFILE"
  have "blk t (slot i bn s) = blk s (slot i bn s)" if "slot i bn s \<noteq> 0"
    using that bn s(1) [of bn bn] s(2) [of bn MAXFILE] by (intro B) auto
  then show "fblock i bn t = fblock i bn s" using S [of bn] bn k z a(2) by (auto simp: fblock_def)
qed

abbreviation set_addr :: "nat \<Rightarrow> nat \<Rightarrow> nat \<Rightarrow> fsys \<Rightarrow> fsys" where
  "set_addr i k a \<equiv> upd_inode i (\<lambda>p. p\<lparr>i_addrs := (i_addrs p)[k := a]\<rparr>)"

text \<open>The three ways \<open>bmap\<close> uses a fresh block.\<close>

lemma slots_below: "NDIRECT < MAXFILE" "MAXFILE - NDIRECT = NINDIRECT" "4 * NINDIRECT = BSIZE"
  by (simp_all add: MAXFILE_def NINDIRECT_def BSIZE_def)

lemma fresh_block:
  assumes "disk_ok s" and a: "a < sb_size (sblock s)" "\<not> used_block a s"
  shows "\<not> data_block a s" and "a \<noteq> 0" and "a < 2 ^ 32"
  using a(1) free_not_meta [OF assms(1) a(2)] assms(1) a(2) by (auto simp: data_block_def disk_ok_def)

lemma file_ok_lengths:
  assumes "file_ok i s"
  shows "i < length (itable s)" and "length (i_addrs (get_inode i s)) = NDIRECT + 1"
    and "slot i MAXFILE s \<noteq> 0 \<Longrightarrow> data_block (slot i MAXFILE s) s"
  using assms by (simp_all add: file_ok_def)

lemma grow_direct:
  assumes ok: "disk_ok s" "file_ok i s" and "k < NDIRECT" "slot i k s = 0"
    and a: "a < sb_size (sblock s)" "\<not> used_block a s" and t: "t = set_addr i k a (taken a s)"
  shows "grows i s t \<and> slot i k t = a \<and> (\<forall>bn < MAXFILE. fblock i bn t = fblock i bn s)"
proof -
  note l = file_ok_lengths [OF ok(2)] and T = disk_ok_taken [OF ok(1) a(2)] data_block_taken [OF ok(1) a(2,1)]
  have S: "slot i k' t = (if k' = k then a else slot i k' s)" for k'
    using l(1,2) assms(3) blk_taken_data [OF a(2,1) l(3)]
    by (auto simp: t slot_def Let_def slots_below(1) MAXFILE_def)
  have k: "k \<le> MAXFILE" using assms(3) slots_below(1) by simp
  note G = grow_one [OF _ ok(2) k assms(4) fresh_block(1,2) [OF ok(1) a], of t]
  have "grows i s t" using S l T blk_taken_data [OF a(2,1)] by (intro G(1)) (auto simp: t)
  moreover have "fblock i bn t = fblock i bn s" if "bn < MAXFILE" for bn
    using S l T blk_taken_data [OF a(2,1)] that by (intro G(2)) (auto simp: t blk_taken)
  ultimately show ?thesis by (simp add: S)
qed

lemma get32_zero: "k < NINDIRECT \<Longrightarrow> get32 k (replicate BSIZE 0) = 0"
  by (simp add: get32_def NINDIRECT_def BSIZE_def)

lemma grow_indirect:
  assumes ok: "disk_ok s" "file_ok i s" and ind: "slot i MAXFILE s = 0"
    and a: "a < sb_size (sblock s)" "\<not> used_block a s" and t: "t = set_addr i NDIRECT a (taken a s)"
  shows "grows i s t \<and> slot i MAXFILE t = a \<and> (\<forall>k < MAXFILE. slot i k t = slot i k s) \<and>
    (\<forall>bn < MAXFILE. fblock i bn t = fblock i bn s)"
proof -
  note l = file_ok_lengths [OF ok(2)] and T = disk_ok_taken [OF ok(1) a(2)] data_block_taken [OF ok(1) a(2,1)]
  note F = fresh_block [OF ok(1) a]
  have z: "get32 (k - NDIRECT) (blk t a) = 0" if "NDIRECT \<le> k" "k < MAXFILE" for k
    using that by (simp add: t blk_taken get32_zero MAXFILE_def)
  have S: "slot i k t = (if k = MAXFILE then a else slot i k s)" if "k \<le> MAXFILE" for k
    using l(1,2) ind z [of k] F(2) that slots_below(1)
    by (auto simp: t slot_def Let_def MAXFILE_def)
  note G = grow_one [OF _ ok(2) le_refl ind F(1,2), of t]
  have "grows i s t" using S l T blk_taken_data [OF a(2,1)] by (intro G(1)) (auto simp: t)
  moreover have "fblock i bn t = fblock i bn s" if "bn < MAXFILE" for bn
    using S l T blk_taken_data [OF a(2,1)] that by (intro G(2)) (auto simp: t blk_taken)
  ultimately show ?thesis by (simp add: S)
qed

lemma grow_entry:
  assumes ok: "disk_ok s" "file_ok i s" and ind: "slot i MAXFILE s = ind" "ind \<noteq> 0"
    and k: "NDIRECT \<le> k" "k < MAXFILE" "slot i k s = 0"
    and a: "a < sb_size (sblock s)" "\<not> used_block a s"
    and t: "t = log_block ind (put32 (k - NDIRECT) a (blk (taken a s) ind)) (taken a s)"
  shows "grows i s t \<and> slot i k t = a \<and> (\<forall>bn < MAXFILE. fblock i bn t = fblock i bn s)"
proof -
  note l = file_ok_lengths [OF ok(2)] and T = disk_ok_taken [OF ok(1) a(2)] data_block_taken [OF ok(1) a(2,1)]
  note F = fresh_block [OF ok(1) a]
  have di: "data_block ind s" "ind \<noteq> a" using l(3) ind F(1) by auto
  then have bi: "blk (taken a s) ind = blk s ind" by (intro blk_taken_data a)
  have len: "length (blk s ind) = BSIZE" using ok(1) by (simp add: disk_ok_def)
  have D: "disk_ok t" "data_block b t \<longleftrightarrow> b = a \<or> data_block b s" for b
    unfolding t using T di len by (simp_all add: disk_ok_log_data bi)
  have e: "get32 (k' - NDIRECT) (put32 (k - NDIRECT) a (blk s ind)) =
      (if k' = k then a else get32 (k' - NDIRECT) (blk s ind))" if "NDIRECT \<le> k'" for k'
  proof (cases "k' = k")
    case True
    have "4 * (k - NDIRECT) + 3 < length (blk s ind)" using k len by (simp add: MAXFILE_def NINDIRECT_def BSIZE_def)
    then show ?thesis using True F(3) by (simp add: get_put32_same)
  qed (use that k in \<open>simp add: get_put32_other\<close>)
  have "i_addrs (get_inode i s) ! NDIRECT = ind" using ind by (simp add: slot_MAXFILE)
  then have S: "slot i k' t = (if k' = k then a else slot i k' s)" for k'
    using ind(2) k e [of k'] by (auto simp: t slot_def Let_def bi)
  note G = grow_one [OF D(1) ok(2) less_imp_le [OF k(2)] k(3) F(1,2) D(2) S]
  have B: "blk t b = blk s b" if "data_block b s" "b \<noteq> slot i MAXFILE s" for b
    using that ind blk_taken_data [OF a(2,1) that(1)] by (simp add: t)
  have "grows i s t" using l B by (intro G(1)) (auto simp: t)
  moreover have "fblock i bn t = fblock i bn s" if "bn < MAXFILE" for bn
    using that l B di(2) by (intro G(2)) (auto simp: t blk_taken)
  ultimately show ?thesis by (simp add: S)
qed

lemma printk_same [simp]:
  "slot i k (printk m s) = slot i k s" "meta n (printk m s) = meta n s"
  "used_block b (printk m s) = used_block b s" "data_block b (printk m s) = data_block b s"
  "disk_ok (printk m s) = disk_ok s" "file_ok i (printk m s) = file_ok i s" "fblock i k (printk m s) = fblock i k s"
  by (simp_all add: slot_def Let_def meta_def used_block_def data_block_def disk_ok_def file_ok_def fblock_def)

lemma grows_printk: "disk_ok s \<Longrightarrow> file_ok i s \<Longrightarrow> grows i s (printk m s)"
  by (simp add: grows_def foreign_def)

text \<open>\<open>bmap\<close> never changes what a file reads as, and finds the address of the block unless the disk is full.\<close>

definition bmap_result :: "nat \<Rightarrow> nat \<Rightarrow> fsys \<Rightarrow> nat \<Rightarrow> fsys \<Rightarrow> bool" where
  "bmap_result i bn s a t \<longleftrightarrow> bmap i bn s = Inr (a, t) \<and> grows i s t \<and>
     (\<forall>k < MAXFILE. fblock i k t = fblock i k s) \<and> (a \<noteq> 0 \<longrightarrow> slot i bn t = a) \<and>
     (slot i bn s \<noteq> 0 \<longrightarrow> a = slot i bn s \<and> t = s) \<and>
     (a = 0 \<longrightarrow> (\<forall>b < sb_size (sblock t). used_block b t))"

lemma bmap_direct:
  assumes ok: "disk_ok s" "file_ok i s" and bn: "bn < NDIRECT"
  shows "\<exists>a t. bmap_result i bn s a t"
proof (cases "slot i bn s = 0")
  case True
  then have z: "i_addrs (get_inode i s) ! bn = 0" using bn by (simp add: slot_def Let_def)
  show ?thesis
  proof (cases rule: balloc_cases [of s])
    case 1
    then have "bmap i bn s = Inr (0, printk ''balloc: out of blocks'' s)" using bn z by (simp add: bmap_def)
    then show ?thesis using 1(1) grows_printk [OF ok] True unfolding bmap_result_def by auto
  next
    case (2 a)
    have "bmap i bn s = Inr (a, set_addr i bn a (taken a s))"
      using bn z 2(3) fresh_block(2) [OF ok(1) 2(1,2)] by (simp add: bmap_def)
    then show ?thesis
      using grow_direct [OF ok bn True 2(1,2) refl] True fresh_block(2) [OF ok(1) 2(1,2)] unfolding bmap_result_def by auto
  qed
next
  case False
  then have "bmap i bn s = Inr (slot i bn s, s)" using bn by (simp add: bmap_def slot_def Let_def)
  then show ?thesis using grows_refl [OF ok] False unfolding bmap_result_def by auto
qed

text \<open>The second half of \<open>bmap\<close>, when there is an indirect block.\<close>

lemma bmap_entry:
  assumes ok: "disk_ok s" "file_ok i s" and bn: "NDIRECT \<le> bn" "bn < MAXFILE" and i: "slot i MAXFILE s = ind" and ind: "ind \<noteq> 0"
  shows "\<exists>a t. bmap_result i bn s a t"
proof -
  have i': "i_addrs (get_inode i s) ! NDIRECT = ind" using i by (simp add: slot_MAXFILE)
  have s: "get32 (bn - NDIRECT) (blk s ind) = slot i bn s" using bn ind i' by (simp add: slot_def Let_def)
  have n: "\<not> bn < NDIRECT" "bn - NDIRECT < NINDIRECT" using bn by (auto simp: MAXFILE_def)
  show ?thesis
  proof (cases "slot i bn s = 0")
    case True
    show ?thesis
    proof (cases rule: balloc_cases [of s])
      case 1
      then have "bmap i bn s = Inr (0, printk ''balloc: out of blocks'' s)"
        using n i' s ind True by (simp add: bmap_def)
      then show ?thesis using 1(1) grows_printk [OF ok] True unfolding bmap_result_def by auto
    next
      case (2 a)
      have "bmap i bn s = Inr (a, log_block ind (put32 (bn - NDIRECT) a (blk (taken a s) ind)) (taken a s))"
        using n i' s ind True 2(3) fresh_block(2) [OF ok(1) 2(1,2)] by (simp add: bmap_def)
      then show ?thesis
        using grow_entry [OF ok i ind bn True 2(1,2) refl] True fresh_block(2) [OF ok(1) 2(1,2)] unfolding bmap_result_def by auto
    qed
  next
    case False
    then have "bmap i bn s = Inr (slot i bn s, s)" using n i' s ind by (simp add: bmap_def)
    then show ?thesis using grows_refl [OF ok] False unfolding bmap_result_def by auto
  qed
qed

lemma bmap_indirect:
  assumes ok: "disk_ok s" "file_ok i s" and bn: "NDIRECT \<le> bn" "bn < MAXFILE" and ind: "slot i MAXFILE s = 0"
  shows "\<exists>a t. bmap_result i bn s a t"
proof -
  have i: "i_addrs (get_inode i s) ! NDIRECT = 0" using ind by (simp add: slot_MAXFILE)
  have z: "slot i bn s = 0" using bn i by (simp add: slot_def Let_def)
  have n: "\<not> bn < NDIRECT" "bn - NDIRECT < NINDIRECT" using bn by (auto simp: MAXFILE_def)
  show ?thesis
  proof (cases rule: balloc_cases [of s])
    case 1
    then have "bmap i bn s = Inr (0, printk ''balloc: out of blocks'' s)" using n i by (simp add: bmap_def)
    then show ?thesis using 1(1) grows_printk [OF ok] z unfolding bmap_result_def by auto
  next
    case (2 a)
    define u where "u = set_addr i NDIRECT a (taken a s)"
    note G = grow_indirect [OF ok ind 2(1,2) u_def]
    have a0: "a \<noteq> 0" by (rule fresh_block(2) [OF ok(1) 2(1,2)])
    have u: "disk_ok u" "file_ok i u" using G by (simp_all add: grows_def)
    have "i_addrs (get_inode i u) ! NDIRECT = a" using G by (simp add: slot_MAXFILE)
    then have "bmap i bn s = bmap i bn u"
      using n i 2(3) a0 by (simp add: bmap_def u_def [symmetric])
    moreover obtain b t where "bmap_result i bn u b t" using bmap_entry [OF u bn _ a0] G by auto
    ultimately show ?thesis
      using G z grows_trans [of i s u t] unfolding bmap_result_def by (intro exI [of _ b] exI [of _ t]) auto
  qed
qed

lemma bmap_ok:
  assumes "disk_ok s" and "file_ok i s" and "bn < MAXFILE"
  obtains a t where "bmap_result i bn s a t"
  using assms bmap_direct bmap_entry [OF _ _ _ _ refl] bmap_indirect by (metis not_le)

end
