(* ===== verification/Kernel_Contents.thy ===== *)
theory Kernel_Contents
  imports Kernel_Inode
begin

text \<open>
  The contents of files: \<open>writei\<close> and \<open>readi\<close> of \<^verbatim>\<open>xv6/kernel/fs.c\<close> against a file seen as a function from
  offsets to bytes.
\<close>

definition file_byte :: "nat \<Rightarrow> nat \<Rightarrow> fsys \<Rightarrow> byte" where
  "file_byte i x s = fblock i (x div BSIZE) s ! (x mod BSIZE)"

definition maxbytes :: nat where
  "maxbytes = MAXFILE * BSIZE"

lemma block_number: "x < maxbytes \<Longrightarrow> x div BSIZE < MAXFILE"
  by (simp add: maxbytes_def BSIZE_def less_mult_imp_div_less)

lemma file_byte_cong: "\<forall>k < MAXFILE. fblock i k t = fblock i k s \<Longrightarrow> x < maxbytes \<Longrightarrow> file_byte i x t = file_byte i x s"
  by (simp add: file_byte_def block_number)

lemma length_fblock: "disk_ok s \<Longrightarrow> length (fblock i k s) = BSIZE"
  by (simp add: fblock_def disk_ok_def)

lemma fresh_data: "file_ok i s \<Longrightarrow> k \<le> MAXFILE \<Longrightarrow> slot i k s \<noteq> 0 \<Longrightarrow> data_block (slot i k s) s"
  by (simp add: file_ok_def)

text \<open>New contents for a block the file has.\<close>

lemma overwrite:
  assumes ok: "disk_ok s" "file_ok i s" and bn: "bn < MAXFILE" "slot i bn s = a" "a \<noteq> 0" and d: "length d = BSIZE"
    and t: "t = log_block a d s"
  shows "grows i s t" and "slot i k t = slot i k s"
    and "k < MAXFILE \<Longrightarrow> fblock i k t = (if k = bn then d else fblock i k s)"
proof -
  have da: "data_block a s" using fresh_data [OF ok(2), of bn] bn by simp
  note D = disk_ok_log_data [OF ok(1) da d]
  have uniq: "k' \<le> MAXFILE \<Longrightarrow> slot i k' s = a \<Longrightarrow> k' = bn" for k'
    using ok(2) bn unfolding file_ok_def by (metis less_imp_le)
  have "i_addrs (get_inode i s) ! NDIRECT \<noteq> a" using uniq [of MAXFILE] bn by (auto simp: slot_MAXFILE)
  then have S: "slot i k t = slot i k s" for k by (simp add: t slot_def Let_def)
  show "slot i k t = slot i k s" by (rule S)
  have "file_ok i t" using ok(2) unfolding file_ok_def by (simp add: S) (simp add: t D)
  moreover have "foreign i b t \<and> blk t b = blk s b" if "foreign i b s" for b
  proof -
    have "b \<noteq> a" using that bn(1,2) by (auto simp: foreign_def dest: less_imp_le)
    then show ?thesis using that by (simp add: foreign_def S) (simp add: t D)
  qed
  ultimately show "grows i s t" using D(1) S by (simp add: grows_def) (simp add: t)
  show "fblock i k t = (if k = bn then d else fblock i k s)"
    if "k < MAXFILE"
  proof (cases "k = bn")
    case True
    then show ?thesis using bn(2,3) by (simp add: fblock_def S) (simp add: t)
  next
    case False
    then have "slot i k s \<noteq> a" using uniq [of k] that by auto
    then show ?thesis using False by (simp add: fblock_def S) (simp add: t)
  qed
qed

lemma nth_overlay:
  assumes "at + length bs \<le> length d" and "x < length d"
  shows "overlay at bs d ! x = (if at \<le> x \<and> x < at + length bs then bs ! (x - at) else d ! x)"
  using assms by (auto simp: overlay_def nth_append)

lemma length_overlay [simp]: "at + length bs \<le> length d \<Longrightarrow> length (overlay at bs d) = length d"
  by (simp add: overlay_def)

lemma same_block:
  assumes "m \<le> BSIZE - off mod BSIZE"
  shows "off \<le> x \<and> x < off + m \<longleftrightarrow> x div BSIZE = off div BSIZE \<and> off mod BSIZE \<le> x mod BSIZE \<and> x mod BSIZE < off mod BSIZE + m"
    and "x div BSIZE = off div BSIZE \<Longrightarrow> x mod BSIZE - off mod BSIZE = x - off"
proof -
  have B: "0 < BSIZE" by (simp add: BSIZE_def)
  have e: "x = x div BSIZE * BSIZE + x mod BSIZE" "off = off div BSIZE * BSIZE + off mod BSIZE" by simp_all
  have "x div BSIZE = off div BSIZE" if "off \<le> x" "x < off + m"
  proof -
    have "off + m \<le> (off div BSIZE + 1) * BSIZE" 
      using assms e(2) mod_less_divisor [OF B, of off] unfolding add_mult_distrib by linarith
    then have "x div BSIZE < off div BSIZE + 1" using that(2) by (intro less_mult_imp_div_less) simp
    moreover have "off div BSIZE \<le> x div BSIZE" using that(1) by (rule div_le_mono)
    ultimately show ?thesis by simp
  qed
  moreover have "off \<le> x \<and> x < off + m \<longleftrightarrow> off mod BSIZE \<le> x mod BSIZE \<and> x mod BSIZE < off mod BSIZE + m"
    if "x div BSIZE = off div BSIZE" using e that by (metis add.assoc add_le_cancel_left add_less_cancel_left)
  ultimately show "off \<le> x \<and> x < off + m \<longleftrightarrow> x div BSIZE = off div BSIZE \<and> off mod BSIZE \<le> x mod BSIZE \<and> x mod BSIZE < off mod BSIZE + m"
    by blast
  show "x mod BSIZE - off mod BSIZE = x - off" if "x div BSIZE = off div BSIZE"
    using e unfolding that by linarith
qed

lemma overwrite_bytes:
  assumes ok: "disk_ok s" "file_ok i s" and off: "off < maxbytes" "slot i (off div BSIZE) s = a" "a \<noteq> 0"
    and m: "length bs \<le> BSIZE - off mod BSIZE"
    and t: "t = log_block a (overlay (off mod BSIZE) bs (blk s a)) s"
  shows "grows i s t"
    and "x < maxbytes \<Longrightarrow> file_byte i x t = (if off \<le> x \<and> x < off + length bs then bs ! (x - off) else file_byte i x s)"
proof -
  have r: "off mod BSIZE < BSIZE" by (simp add: BSIZE_def)
  have l: "length (blk s a) = BSIZE" using ok(1) by (simp add: disk_ok_def)
  have fit: "off mod BSIZE + length bs \<le> BSIZE" using m r by simp
  then have len: "length (overlay (off mod BSIZE) bs (blk s a)) = BSIZE" using l by simp
  note O = overwrite [OF ok block_number [OF off(1)] off(2,3) len t]
  show "grows i s t" by (rule O)
  assume x: "x < maxbytes"
  have xr: "x mod BSIZE < BSIZE" by (simp add: BSIZE_def)
  have f: "fblock i (off div BSIZE) s = blk s a" using off by (simp add: fblock_def)
  show "file_byte i x t = (if off \<le> x \<and> x < off + length bs then bs ! (x - off) else file_byte i x s)"
    unfolding same_block(1) [OF m, of x] file_byte_def O(3) [OF block_number [OF x]]
    using nth_overlay [of "off mod BSIZE" bs "blk s a" "x mod BSIZE"] same_block(2) [OF m, of x] l fit xr f by auto
qed

section \<open>Writing\<close>

text \<open>Copying in: what arrives are the bytes \<open>f\<close>, all of them unless the copy fails.\<close>

definition reads_from :: "nat \<Rightarrow> (nat \<Rightarrow> nat \<Rightarrow> byte list \<times> bool) \<Rightarrow> (nat \<Rightarrow> byte) \<Rightarrow> bool" where
  "reads_from n src f \<longleftrightarrow> (\<forall>tot m. tot + m \<le> n \<longrightarrow> length (fst (src tot m)) \<le> m \<and>
     (snd (src tot m) \<longrightarrow> fst (src tot m) = map f [tot..<tot + m]))"

definition wrote :: "nat \<Rightarrow> (nat \<Rightarrow> byte) \<Rightarrow> nat \<Rightarrow> nat \<Rightarrow> nat \<Rightarrow> fsys \<Rightarrow> fsys \<Rightarrow> bool" where
  "wrote i f off n w s t \<longleftrightarrow> w \<le> n \<and> grows i s t \<and>
     (\<forall>x. off \<le> x \<and> x < off + w \<longrightarrow> slot i (x div BSIZE) t \<noteq> 0 \<and> file_byte i x t = f (x - off)) \<and>
     (\<forall>x < maxbytes. x < off \<or> off + n \<le> x \<longrightarrow> file_byte i x t = file_byte i x s)"

lemma wrote_step:
  assumes g: "grows i s u"
    and u: "\<And>x. x < maxbytes \<Longrightarrow> file_byte i x u = (if off \<le> x \<and> x < off + m then f (x - off) else file_byte i x s)"
    and sl: "slot i (off div BSIZE) u \<noteq> 0" and m: "m \<le> n" "m \<le> BSIZE - off mod BSIZE" and off: "off + n \<le> maxbytes" "off < maxbytes"
    and w: "wrote i (\<lambda>x. f (m + x)) (off + m) (n - m) w u t"
  shows "wrote i f off n (m + w) s t"
proof -
  have ut: "grows i u t" and wn: "w \<le> n - m" using w by (simp_all add: wrote_def)
  have sl': "slot i (off div BSIZE) t \<noteq> 0" using ut sl block_number [OF off(2)] by (simp add: grows_def)
  have "slot i (x div BSIZE) t \<noteq> 0 \<and> file_byte i x t = f (x - off)" if x: "off \<le> x" "x < off + (m + w)" for x
  proof (cases "x < off + m")
    case True
    then have "x div BSIZE = off div BSIZE" using same_block(1) [OF m(2), of x] x by simp
    moreover have "x < maxbytes" using True m(1) off by simp
    ultimately show ?thesis using w u [of x] True x sl' by (simp add: wrote_def)
  next
    case False
    then have "off + m \<le> x" "x < off + m + w" "m + (x - (off + m)) = x - off" using x by auto
    then show ?thesis using w by (simp add: wrote_def)
  qed
  moreover have "file_byte i x t = file_byte i x s" if "x < maxbytes" "x < off \<or> off + n \<le> x" for x
  proof -
    have "x < off + m \<or> off + m + (n - m) \<le> x" "\<not> (off \<le> x \<and> x < off + m)" using that m(1) by auto
    then show ?thesis using w u [OF that(1)] that(1) unfolding wrote_def by auto
  qed
  ultimately show ?thesis using grows_trans [OF g ut] wn m(1) by (auto simp: wrote_def)
qed

lemma write_from_written:
  assumes "reads_from n src f" and "disk_ok s" and "file_ok i s" and "tot \<le> n" and "off + (n - tot) \<le> maxbytes"
  shows "\<exists>w t. write_from src i off n tot s = Inr (tot + w, off + w, t) \<and>
    wrote i (\<lambda>x. f (tot + x)) off (n - tot) w s t \<and>
    (w < n - tot \<and> (\<forall>k m. snd (src k m)) \<longrightarrow> (\<forall>b < sb_size (sblock t). used_block b t))"
  using assms
proof (induction src i off n tot s rule: write_from.induct)
  case (1 src i off n tot s)
  show ?case
  proof (cases "tot < n")
    case False
    then have "wrote i (\<lambda>x. f (tot + x)) off (n - tot) 0 s s"
      using grows_refl [OF 1(3,4)] by (simp add: wrote_def)
    then show ?thesis using False by (intro exI [of _ 0] exI [of _ s]) (simp add: write_from.simps)
  next
    case True
    let ?m = "min (n - tot) (BSIZE - off mod BSIZE)"
    have off: "off < maxbytes" using True 1(6) by simp
    obtain a t1 where b: "bmap i (off div BSIZE) s = Inr (a, t1)" "grows i s t1"
      "\<forall>k < MAXFILE. fblock i k t1 = fblock i k s" "a \<noteq> 0 \<longrightarrow> slot i (off div BSIZE) t1 = a"
      "a = 0 \<longrightarrow> (\<forall>b < sb_size (sblock t1). used_block b t1)"
      using bmap_ok [OF 1(3,4) block_number [OF off]] unfolding bmap_result_def by metis
    have t1: "disk_ok t1" "file_ok i t1" using b(2) by (simp_all add: grows_def)
    note same = file_byte_cong [OF b(3)]
    show ?thesis
    proof (cases "a = 0")
      case a: True
      have "wrote i (\<lambda>x. f (tot + x)) off (n - tot) 0 s t1" using b(2) same by (simp add: wrote_def)
      then show ?thesis
        using True a b by (intro exI [of _ 0] exI [of _ t1]) (simp add: write_from.simps [of src i off])
    next
      case a: False
      have r: "tot + ?m \<le> n" "off + ?m + (n - (tot + ?m)) \<le> maxbytes" "n - (tot + ?m) = n - tot - ?m"
        using True 1(6) by auto
      obtain bs good where src: "src tot ?m = (bs, good)" by fastforce
      have bs: "length bs \<le> ?m" "good \<Longrightarrow> bs = map f [tot..<tot + ?m]"
        using 1(2) src r(1) unfolding reads_from_def by (metis fst_conv snd_conv)+
      define t2 where "t2 = log_block a (overlay (off mod BSIZE) bs (blk t1 a)) t1"
      have "length bs \<le> BSIZE - off mod BSIZE" using bs(1) by simp
      note O = overwrite_bytes [OF t1 off b(4) [rule_format, OF a] a this t2_def]
      have g: "grows i s t2" using grows_trans [OF b(2) O(1)] .
      have t2: "disk_ok t2" "file_ok i t2" using O(1) by (simp_all add: grows_def)
      show ?thesis
      proof (cases good)
        case False
        have "wrote i (\<lambda>x. f (tot + x)) off (n - tot) 0 s t2"
          using g O(2) bs(1) same by (auto simp: wrote_def)
        moreover have "\<not> snd (src tot ?m)" using src False by simp
        moreover have "write_from src i off n tot s = Inr (tot, off, t2)"
          using True a b(1) src False by (simp add: write_from.simps [of src i off] t2_def Let_def)
        ultimately show ?thesis by (intro exI [of _ 0] exI [of _ t2]) auto
      next
        case good: True
        have m0: "0 < ?m" using True by (simp add: BSIZE_def)
        from 1(1) [OF True a refl refl src [symmetric] t2_def _ 1(2) t2 r(1,2)] good
        obtain w t where w: "write_from src i (off + ?m) n (tot + ?m) t2 = Inr (tot + ?m + w, off + ?m + w, t)"
          "wrote i (\<lambda>x. f (tot + ?m + x)) (off + ?m) (n - tot - ?m) w t2 t"
          "w < n - tot - ?m \<and> (\<forall>k m. snd (src k m)) \<longrightarrow> (\<forall>b < sb_size (sblock t). used_block b t)"
          unfolding r(3) by auto
        have "write_from src i off n tot s = Inr (tot + (?m + w), off + (?m + w), t)"
          using True a b(1) src good w(1) by (simp add: write_from.simps [of src i off n tot s] t2_def Let_def add.assoc)
        moreover have "wrote i (\<lambda>x. f (tot + x)) off (n - tot) (?m + w) s t"
        proof (rule wrote_step [OF g])
          show "file_byte i x t2 = (if off \<le> x \<and> x < off + ?m then f (tot + (x - off)) else file_byte i x s)"
            if "x < maxbytes" for x
          proof -
            have "file_byte i x t2 = (if off \<le> x \<and> x < off + ?m then bs ! (x - off) else file_byte i x s)"
              using O(2) [OF that] bs(2) [OF good] same [OF that] by simp
            moreover have "bs ! (x - off) = f (tot + (x - off))" if "off \<le> x" "x < off + ?m"
            proof -
              have "x - off < ?m" using that by linarith
              then show ?thesis unfolding bs(2) [OF good] by (subst nth_map) simp_all
            qed
            ultimately show ?thesis by simp
          qed
          show "slot i (off div BSIZE) t2 \<noteq> 0" using O(1) b(4) a block_number [OF off] by (simp add: grows_def)
          show "wrote i (\<lambda>x. f (tot + (?m + x))) (off + ?m) (n - tot - ?m) w t2 t" using w(2) by (simp add: add.assoc)
        qed (use 1(6) True in auto)
        ultimately show ?thesis using w(3) by (intro exI [of _ "?m + w"] exI [of _ t]) auto
      qed
    qed
  qed
qed

section \<open>Reading\<close>

text \<open>
  Reading never changes what the file reads as. Where all blocks are allocated it delivers the bytes and
  changes nothing.
\<close>

lemma read_from_mapped:
  assumes "disk_ok s" and "file_ok i s" and "tot \<le> n" and "off + (n - tot) \<le> maxbytes"
    and "\<forall>x. off \<le> x \<and> x < off + (n - tot) \<longrightarrow> slot i (x div BSIZE) s \<noteq> 0"
  shows "read_from to_kernel i off n tot s = Inr (int n, map (\<lambda>x. file_byte i x s) [off..<off + (n - tot)], s)"
  using assms
proof (induction to_kernel i off n tot s rule: read_from.induct)
  case (1 i off n tot s)
  show ?case
  proof (cases "tot < n")
    case False
    then show ?thesis using 1(4) by (simp add: read_from.simps)
  next
    case True
    let ?m = "min (n - tot) (BSIZE - off mod BSIZE)" and ?a = "slot i (off div BSIZE) s"
    have off: "off < maxbytes" using True 1(5) by simp
    have a: "?a \<noteq> 0" using 1(6) True by simp
    have b: "bmap i (off div BSIZE) s = Inr (?a, s)"
      using bmap_ok [OF 1(2,3) block_number [OF off]] a unfolding bmap_result_def by metis
    have m: "0 < ?m" "?m \<le> BSIZE - off mod BSIZE" using True by (simp_all add: BSIZE_def)
    have len: "length (blk s ?a) = BSIZE" using 1(2) by (simp add: disk_ok_def)
    have r: "tot + ?m \<le> n" "off + ?m + (n - (tot + ?m)) = off + (n - tot)" using True by auto
    have IH: "read_from to_kernel i (off + ?m) n (tot + ?m) s =
        Inr (int n, map (\<lambda>x. file_byte i x s) [off + ?m..<off + (n - tot)], s)"
      using 1(1) [OF True a refl _ 1(2,3) r(1)] 1(5,6) r(2) by (simp add: to_kernel_def)
    have "take ?m (drop (off mod BSIZE) (blk s ?a)) = map (\<lambda>x. file_byte i x s) [off..<off + ?m]"
    proof (rule nth_equalityI)
      show "length (take ?m (drop (off mod BSIZE) (blk s ?a))) = length (map (\<lambda>x. file_byte i x s) [off..<off + ?m])"
        using len by simp
      fix j assume "j < length (take ?m (drop (off mod BSIZE) (blk s ?a)))"
      then have j: "j < ?m" by simp
      then have x: "(off + j) div BSIZE = off div BSIZE" "(off + j) mod BSIZE = off mod BSIZE + j"
        using same_block [OF m(2), of "off + j"] by auto
      then show "take ?m (drop (off mod BSIZE) (blk s ?a)) ! j = map (\<lambda>x. file_byte i x s) [off..<off + ?m] ! j"
        using j a len mod_less_divisor [of BSIZE off] by (simp add: file_byte_def fblock_def BSIZE_def)
    qed
    moreover have "[off..<off + (n - tot)] = [off..<off + ?m] @ [off + ?m..<off + (n - tot)]"
      using upt_add_eq_append [of off "off + ?m" "n - tot - ?m"] True by simp
    ultimately show ?thesis
      using True a b IH by (simp add: read_from.simps [of to_kernel i off n tot s] Let_def to_kernel_def)
  qed
qed

section \<open>The inode is written back\<close>

lemma log_inode_block:
  assumes ok: "disk_ok s" "file_ok i s" and k: "k < sb_ninodes (sblock s)" and d: "length d = BSIZE"
    and t: "t = log_block (IBLOCK k s) d s"
  shows "grows i s t" and "slot i j t = slot i j s" and "j < MAXFILE \<Longrightarrow> fblock i j t = fblock i j s"
    and "b < sb_size (sblock s) \<Longrightarrow> used_block b t = used_block b s"
proof -
  have m: "meta (IBLOCK k s) s" using k by (auto simp: meta_def)
  have u: "used_block b t = used_block b s" if "b < sb_size (sblock s)" for b
    using ok(1) k that by (simp add: t used_block_def disk_ok_def)
  have D: "data_block b t = data_block b s" "data_block b s \<Longrightarrow> blk t b = blk s b" for b
    using u m by (auto simp: data_block_def t)
  have "slot i MAXFILE s \<noteq> 0 \<Longrightarrow> blk t (slot i MAXFILE s) = blk s (slot i MAXFILE s)"
    using D(2) fresh_data [OF ok(2), of MAXFILE] by simp
  then have S: "slot i j t = slot i j s" for j unfolding slot_MAXFILE by (simp add: slot_def Let_def t)
  have "disk_ok t" using ok(1) u d by (auto simp: disk_ok_def t)
  moreover have "file_ok i t" using ok(2) D S by (simp add: file_ok_def) (simp add: t)
  ultimately show "grows i s t" using D S by (simp add: grows_def foreign_def) (simp add: t)
  show "slot i j t = slot i j s" by (rule S)
  show "j < MAXFILE \<Longrightarrow> fblock i j t = fblock i j s"
    using D(2) fresh_data [OF ok(2), of j] by (simp add: fblock_def S)
  show "b < sb_size (sblock s) \<Longrightarrow> used_block b t = used_block b s" by (rule u)
qed

lemma set_size_same:
  assumes "i < length (itable s)" and t_def: "t = upd_inode i (\<lambda>p. p\<lparr>i_size := z\<rparr>) s"
  shows "slot i j t = slot i j s" "fblock i j t = fblock i j s" "disk_ok t = disk_ok s" "file_ok i t = file_ok i s"
    "foreign i b t = foreign i b s" "used_block b t = used_block b s" "itable t = (itable s)[i := (get_inode i s)\<lparr>i_size := z\<rparr>]"
    "sblock t = sblock s" "blk t = blk s"
proof -
  have S: "slot i j t = slot i j s" for j using assms by (simp add: slot_def Let_def)
  show "slot i j t = slot i j s" by (rule S)
  show "fblock i j t = fblock i j s" by (simp add: fblock_def S) (simp add: t_def)
  show "disk_ok t = disk_ok s" "used_block b t = used_block b s" by (simp_all add: t_def used_block_def)
  have D: "data_block b t = data_block b s" for b by (simp add: t_def)
  show "file_ok i t = file_ok i s" "foreign i b t = foreign i b s"
    using assms(1) by (simp_all add: file_ok_def foreign_def S D) (simp add: t_def)
qed (simp_all add: t_def)

text \<open>Writing the inode back, with a size that may have grown.\<close>

lemma iupdate_keeps:
  assumes ok: "disk_ok s" "file_ok i s" and k: "i_inum (get_inode i s) < sb_ninodes (sblock s)"
    and t: "t = iupdate i (if off > i_size (get_inode i s) then upd_inode i (\<lambda>p. p\<lparr>i_size := off\<rparr>) s else s)"
  shows "disk_ok t" "file_ok i t" "slot i j t = slot i j s" "x < maxbytes \<Longrightarrow> file_byte i x t = file_byte i x s"
    "foreign i b s \<Longrightarrow> blk t b = blk s b" "i_size (get_inode i t) = max off (i_size (get_inode i s))"
    "b < sb_size (sblock s) \<Longrightarrow> used_block b t = used_block b s" "sblock t = sblock s"
    "(get_inode i t)\<lparr>i_size := 0\<rparr> = (get_inode i s)\<lparr>i_size := 0\<rparr>"
proof -
  define u where "u = upd_inode i (\<lambda>p. p\<lparr>i_size := max off (i_size (get_inode i s))\<rparr>) s"
  have il: "i < length (itable s)" using ok(2) by (simp add: file_ok_def)
  have "(if off > i_size (get_inode i s) then upd_inode i (\<lambda>p. p\<lparr>i_size := off\<rparr>) s else s) = u"
    by (auto simp: u_def upd_inode_def max_def)
  then have tu: "t = log_block (IBLOCK (i_inum (get_inode i s)) u)
      (put_dinode (i_inum (get_inode i s) mod IPB) (dinode_of (get_inode i u)) (blk u (IBLOCK (i_inum (get_inode i s)) u))) u"
    using il by (simp add: t iupdate_def Let_def u_def)
  note S = set_size_same [OF il u_def]
  have "length (blk u n) = BSIZE" for n using ok(1) by (simp add: S disk_ok_def)
  then have d: "length (put_dinode (i_inum (get_inode i s) mod IPB) (dinode_of (get_inode i u)) (blk u (IBLOCK (i_inum (get_inode i s)) u))) = BSIZE"
    by simp
  have k': "i_inum (get_inode i s) < sb_ninodes (sblock u)" using k S by simp
  note L = log_inode_block [OF S(3) [THEN iffD2, OF ok(1)] S(4) [THEN iffD2, OF ok(2)] k' d tu]
  show "disk_ok t" "file_ok i t" using L(1) by (simp_all add: grows_def)
  show "slot i j t = slot i j s" using L(2) S by simp
  show "x < maxbytes \<Longrightarrow> file_byte i x t = file_byte i x s" using L(3) S by (simp add: file_byte_def block_number)
  show "foreign i b s \<Longrightarrow> blk t b = blk s b" using L(1) S by (simp add: grows_def)
  show "b < sb_size (sblock s) \<Longrightarrow> used_block b t = used_block b s" using L(4) S by simp
  show "i_size (get_inode i t) = max off (i_size (get_inode i s))" using il by (simp add: tu S)
  show "(get_inode i t)\<lparr>i_size := 0\<rparr> = (get_inode i s)\<lparr>i_size := 0\<rparr>" using il by (simp add: tu S)
  show "sblock t = sblock s" by (simp add: tu S)
qed

section \<open>The system's view\<close>

lemma maxbytes_small: "x \<le> maxbytes \<Longrightarrow> x mod 2 ^ 32 = x"
  by (simp add: maxbytes_def MAXFILE_def NDIRECT_def NINDIRECT_def BSIZE_def)

text \<open>What \<open>writei\<close> does from any source of bytes.\<close>

lemma writei_written:
  assumes src: "reads_from n src f" and ok: "disk_ok s" "file_ok i s"
    and k: "i_inum (get_inode i s) < sb_ninodes (sblock s)"
    and off: "off \<le> i_size (get_inode i s)" "off + n \<le> maxbytes"
  obtains w u t where "writei src i off n s = Inr (int w, t)" and "wrote i f off n w s u"
    and "t = iupdate i (if off + w > i_size (get_inode i u) then upd_inode i (\<lambda>p. p\<lparr>i_size := off + w\<rparr>) u else u)"
    and "w < n \<and> (\<forall>k m. snd (src k m)) \<longrightarrow> (\<forall>b < sb_size (sblock u). used_block b u)"
proof -
  obtain w u where w: "write_from src i off n 0 s = Inr (w, off + w, u)" "wrote i f off n w s u"
      "w < n \<and> (\<forall>k m. snd (src k m)) \<longrightarrow> (\<forall>b < sb_size (sblock u). used_block b u)"
    using write_from_written [OF src ok, of 0 off] off(2) by auto
  have "writei src i off n s =
      Inr (int w, iupdate i (if off + w > i_size (get_inode i u) then upd_inode i (\<lambda>p. p\<lparr>i_size := off + w\<rparr>) u else u))"
    using w(1) off maxbytes_small [OF off(2)] by (simp add: writei_def maxbytes_def [symmetric])
  then show ?thesis using that w(2,3) by blast
qed

lemma grows_inode:
  assumes "grows i s t"
  shows "i_size (get_inode i t) = i_size (get_inode i s)" and "i_inum (get_inode i t) = i_inum (get_inode i s)"
proof -
  have e: "(get_inode i t)\<lparr>i_addrs := []\<rparr> = (get_inode i s)\<lparr>i_addrs := []\<rparr>" using assms by (simp add: grows_def)
  show "i_size (get_inode i t) = i_size (get_inode i s)" using arg_cong [OF e, of i_size] by simp
  show "i_inum (get_inode i t) = i_inum (get_inode i s)" using arg_cong [OF e, of i_inum] by simp
qed

lemma readi_mapped:
  assumes "disk_ok s" and "file_ok i s" and "off + n \<le> i_size (get_inode i s)" and "off + n \<le> maxbytes"
    and "\<forall>x. off \<le> x \<and> x < off + n \<longrightarrow> slot i (x div BSIZE) s \<noteq> 0"
  shows "readi to_kernel i off n s = Inr (int n, map (\<lambda>x. file_byte i x s) [off..<off + n], s)"
  using read_from_mapped [OF assms(1,2), of 0 n off] assms(3-5) maxbytes_small [OF assms(4)] by (simp add: readi_def)

lemma reads_from_kernel: "reads_from (length data) (from_kernel data) (\<lambda>x. data ! x)"
proof -
  have "take m (drop tot data) = map (\<lambda>x. data ! x) [tot..<tot + m]" if "tot + m \<le> length data" for tot m
    using that by (intro nth_equalityI) auto
  then show ?thesis by (simp add: reads_from_def from_kernel_def)
qed

text \<open>
  C2. Writing \<open>data\<close> to a file at an offset not beyond its end returns the number \<open>w\<close> of bytes written,
  which is less than asked for only if the disk is full. Reading \<open>w\<close> bytes at the same offset then
  returns exactly the first \<open>w\<close> bytes of \<open>data\<close>, whether they lie in direct or indirect blocks. The
  size is extended as needed, the rest of the file and all blocks of other files are unchanged, and
  the bit map and the file's block addresses stay well-formed.
\<close>

theorem write_then_read:
  assumes "disk_ok s" and "file_ok i s" and "i_inum (get_inode i s) < sb_ninodes (sblock s)"
    and "off \<le> i_size (get_inode i s)" and "off + length data \<le> maxbytes"
  shows "\<exists>w t. writei (from_kernel data) i off (length data) s = Inr (int w, t) \<and> w \<le> length data \<and>
    (w < length data \<longrightarrow> (\<forall>b < sb_size (sblock s). used_block b t)) \<and>
    readi to_kernel i off w t = Inr (int w, take w data, t) \<and>
    i_size (get_inode i t) = max (off + w) (i_size (get_inode i s)) \<and>
    (\<forall>x < maxbytes. x < off \<or> off + length data \<le> x \<longrightarrow> file_byte i x t = file_byte i x s) \<and>
    (\<forall>b. foreign i b s \<longrightarrow> blk t b = blk s b) \<and> disk_ok t \<and> file_ok i t"
proof -
  obtain w u t where w: "writei (from_kernel data) i off (length data) s = Inr (int w, t)"
      "wrote i (\<lambda>x. data ! x) off (length data) w s u"
      "t = iupdate i (if off + w > i_size (get_inode i u) then upd_inode i (\<lambda>p. p\<lparr>i_size := off + w\<rparr>) u else u)"
      "w < length data \<longrightarrow> (\<forall>b < sb_size (sblock u). used_block b u)"
    using writei_written [OF reads_from_kernel assms] by (metis from_kernel_def snd_conv)
  have g: "grows i s u" "w \<le> length data" using w(2) by (simp_all add: wrote_def)
  have u: "disk_ok u" "file_ok i u" "sblock u = sblock s" "\<forall>b. foreign i b s \<longrightarrow> foreign i b u \<and> blk u b = blk s b"
    using g(1) by (simp_all add: grows_def)
  have "i_inum (get_inode i u) < sb_ninodes (sblock u)" using assms(3) grows_inode [OF g(1)] u by simp
  note T = iupdate_keeps [OF u(1,2) this w(3)]
  have size: "i_size (get_inode i t) = max (off + w) (i_size (get_inode i s))" using T(6) grows_inode [OF g(1)] by simp
  have "readi to_kernel i off w t = Inr (int w, map (\<lambda>x. file_byte i x t) [off..<off + w], t)"
    using T(1-3) size g(2) assms(5) w(2) by (intro readi_mapped) (auto simp: wrote_def)
  moreover have "map (\<lambda>x. file_byte i x t) [off..<off + w] = take w data"
    using g(2) T(4) w(2) assms(5) by (intro nth_equalityI) (auto simp: wrote_def)
  moreover have "\<forall>x < maxbytes. x < off \<or> off + length data \<le> x \<longrightarrow> file_byte i x t = file_byte i x s"
    using T(4) w(2) unfolding wrote_def by auto
  moreover have "\<forall>b. foreign i b s \<longrightarrow> blk t b = blk s b" using T(5) u(4) by simp
  moreover have "w < length data \<longrightarrow> (\<forall>b < sb_size (sblock s). used_block b t)" using w(4) T(7) u(3) by simp
  ultimately show ?thesis using w(1) g(2) size T(1,2) by (intro exI [of _ w] exI [of _ t]) simp
qed

text \<open>An empty file or directory on the disk with two free blocks.\<close>

definition one_file :: "int \<Rightarrow> fsys" where
  "one_file ty = tiny_disk\<lparr>itable := [zero_inode\<lparr>i_inum := 3, i_ref := 1, i_valid := True, i_type := ty\<rparr>]\<rparr>"

lemma one_file_ok:
  "disk_ok (one_file ty)" "file_ok 0 (one_file ty)" "i_inum (get_inode 0 (one_file ty)) < sb_ninodes (sblock (one_file ty))"
proof -
  show "disk_ok (one_file ty)"
    using tiny_disk_ok by (simp add: disk_ok_def one_file_def meta_def used_block_def BBLOCK_def IBLOCK_def)
  have "i_addrs (get_inode 0 (one_file ty)) ! j = 0" if "j \<le> NDIRECT" for j
    using that by (simp add: one_file_def zero_inode_def nth_Cons')
  then have "slot 0 k (one_file ty) = 0" if "k \<le> MAXFILE" for k
    using that by (simp add: slot_def Let_def)
  then show "file_ok 0 (one_file ty)" by (simp add: file_ok_def) (simp add: one_file_def zero_inode_def)
  show "i_inum (get_inode 0 (one_file ty)) < sb_ninodes (sblock (one_file ty))" by (simp add: one_file_def tiny_disk_def)
qed

lemma one_file_write:
  assumes "0 < n" and "n \<le> BSIZE"
  shows "\<exists>t. writei (from_kernel data) 0 0 n (one_file ty) = Inr (int n, t)"
proof -
  have "balloc (one_file ty) = (3, taken 3 (one_file ty))" unfolding one_file_def by (rule tiny_balloc_table)
  then have "bmap 0 0 (one_file ty) = Inr (3, set_addr 0 0 3 (taken 3 (one_file ty)))"
    by (simp add: bmap_def one_file_def zero_inode_def NDIRECT_def)
  then have "\<exists>t. write_from (from_kernel data) 0 0 n 0 (one_file ty) = Inr (n, n, t)"
    using assms by (simp add: write_from.simps [of _ 0 0 n 0] write_from.simps [of _ 0 n n n] Let_def from_kernel_def)
  then show ?thesis
    using assms by (auto simp: writei_def one_file_def zero_inode_def MAXFILE_def NDIRECT_def BSIZE_def)
qed

theorem write_then_read_witness:
  "\<exists>t. writei (from_kernel [65, 66]) 0 0 2 (one_file T_FILE) = Inr (2, t) \<and> readi to_kernel 0 0 2 t = Inr (2, [65, 66], t) \<and>
     i_size (get_inode 0 t) = 2 \<and> file_ok 0 t"
proof -
  have "0 + length [65, 66 :: byte] \<le> maxbytes" by (simp add: maxbytes_def MAXFILE_def NDIRECT_def BSIZE_def)
  moreover have z: "0 \<le> i_size (get_inode 0 (one_file T_FILE))" "i_size (get_inode 0 (one_file T_FILE)) = 0"
    by (simp_all add: one_file_def zero_inode_def)
  ultimately obtain w t where w: "writei (from_kernel [65, 66]) 0 0 2 (one_file T_FILE) = Inr (int w, t)"
    "readi to_kernel 0 0 w t = Inr (int w, take w [65, 66], t)" "i_size (get_inode 0 t) = w" "file_ok 0 t"
    using write_then_read [OF one_file_ok [of T_FILE], of 0 "[65, 66]"] by (auto simp: numeral_2_eq_2)
  then have "w = 2" using one_file_write [of 2 "[65, 66]" T_FILE] by (auto simp: BSIZE_def)
  then show ?thesis using w by (intro exI [of _ t]) simp
qed

end
