(* ===== verification/Kernel_Names.thy ===== *)
theory Kernel_Names
  imports Kernel_Contents Kernel_Dir
begin

text \<open>
  Directories as maps from names to inode numbers, and path names as lists of their elements.
\<close>

section \<open>Names\<close>

text \<open>What counts of a name: the bytes before the first NUL, at most \<open>DIRSIZ\<close>.\<close>

definition key :: "byte list \<Rightarrow> byte list" where
  "key nm = take DIRSIZ (takeWhile (\<lambda>c. c \<noteq> 0) nm)"

lemma strncmp_str_zero:
  "strncmp_str n p q = 0 \<longleftrightarrow> take n (takeWhile (\<lambda>c. c \<noteq> 0) p) = take n (takeWhile (\<lambda>c. c \<noteq> 0) q)"
proof (induction n arbitrary: p q)
  case (Suc n)
  have u: "uint a = uint b \<longleftrightarrow> a = b" for a b :: byte by (simp add: word_uint_eq_iff)
  from u [of _ 0] have z: "uint a = 0 \<longleftrightarrow> a = 0" for a :: byte by simp
  show ?case using Suc [of "tl p" "tl q"] by (cases p; cases q) (auto simp: deref_def u z)
qed simp

lemma namecmp_key: "namecmp p q = 0 \<longleftrightarrow> key p = key q"
  by (simp add: namecmp_def key_def strncmp_str_zero)

lemma length_mk_dirent [simp]: "length (mk_dirent nm inum) = DIRENT"
  by (simp add: mk_dirent_def DIRENT_def DIRSIZ_def min_def)

lemma mk_dirent_fields:
  assumes "0 \<notin> set nm" and "inum < 2 ^ 16"
  shows "de_inum (mk_dirent nm inum) = inum" and "key (de_name (mk_dirent nm inum)) = key nm"
proof -
  show "de_inum (mk_dirent nm inum) = inum"
    using assms(2) by (simp add: de_inum_def get16_def mk_dirent_def unat_of_nat take_bit_eq_mod)
  have "c \<noteq> 0" if "c \<in> set (take DIRSIZ nm)" for c using that assms(1) by (auto dest: in_set_takeD)
  then have "takeWhile (\<lambda>c. c \<noteq> 0) (take DIRSIZ nm @ replicate (DIRSIZ - length nm) 0) = take DIRSIZ nm"
    by (simp add: takeWhile_append2 takeWhile_replicate)
  moreover have "takeWhile (\<lambda>c. c \<noteq> 0) nm = nm" using assms(1) by (auto simp: takeWhile_eq_all_conv)
  ultimately show "key (de_name (mk_dirent nm inum)) = key nm"
    by (simp add: key_def de_name_def mk_dirent_def del: takeWhile_eq_all_conv)
qed

section \<open>Directories\<close>

definition dir_ok :: "nat \<Rightarrow> fsys \<Rightarrow> bool" where
  "dir_ok dp s \<longleftrightarrow> disk_ok s \<and> file_ok dp s \<and> i_type (get_inode dp s) = T_DIR \<and>
     i_inum (get_inode dp s) < sb_ninodes (sblock s) \<and>
     DIRENT dvd i_size (get_inode dp s) \<and> i_size (get_inode dp s) \<le> maxbytes \<and>
     (\<forall>x < i_size (get_inode dp s). slot dp (x div BSIZE) s \<noteq> 0)"

definition entries :: "nat \<Rightarrow> fsys \<Rightarrow> nat" where
  "entries dp s = i_size (get_inode dp s) div DIRENT"

definition entry :: "nat \<Rightarrow> nat \<Rightarrow> fsys \<Rightarrow> byte list" where
  "entry dp k s = map (\<lambda>x. file_byte dp x s) [DIRENT * k..<DIRENT * k + DIRENT]"

definition matches :: "nat \<Rightarrow> byte list \<Rightarrow> nat \<Rightarrow> fsys \<Rightarrow> bool" where
  "matches dp nm k s \<longleftrightarrow> de_inum (entry dp k s) \<noteq> 0 \<and> key (de_name (entry dp k s)) = key nm"

text \<open>The directory as a map: the inode number of the first entry in use with the name.\<close>

definition dir_find :: "nat \<Rightarrow> byte list \<Rightarrow> fsys \<Rightarrow> nat option" where
  "dir_find dp nm s = find (\<lambda>k. matches dp nm k s) [0..<entries dp s]"

definition dir_map :: "nat \<Rightarrow> fsys \<Rightarrow> byte list \<Rightarrow> nat option" where
  "dir_map dp s nm = map_option (\<lambda>k. de_inum (entry dp k s)) (dir_find dp nm s)"

lemma dir_size: "dir_ok dp s \<Longrightarrow> i_size (get_inode dp s) = DIRENT * entries dp s"
  by (simp add: dir_ok_def entries_def)

lemma readi_entry:
  assumes "dir_ok dp s" and "k < entries dp s"
  shows "readi to_kernel dp (DIRENT * k) DIRENT s = Inr (int DIRENT, entry dp k s, s)"
proof -
  have "DIRENT * Suc k \<le> DIRENT * entries dp s" using assms(2) by (intro mult_le_mono2) simp
  then have le: "DIRENT * k + DIRENT \<le> i_size (get_inode dp s)" using dir_size [OF assms(1)] by simp
  then show ?thesis
    using assms(1) unfolding entry_def by (intro readi_mapped) (auto simp: dir_ok_def)
qed

lemma upt_from: "k < n \<Longrightarrow> [k..<n] = k # [Suc k..<n]"
  by (rule upt_conv_Cons)

lemma lookup_from_find:
  assumes "dir_ok dp s" and "k \<le> entries dp s"
  shows "lookup_from dp nm (i_size (get_inode dp s)) (DIRENT * k) s =
    (case find (\<lambda>k. matches dp nm k s) [k..<entries dp s] of
       None \<Rightarrow> Inr (None, s)
     | Some j \<Rightarrow> andthen (iget (i_dev (get_inode dp s)) (de_inum (entry dp j s)) s)
         (\<lambda>(ip, s2). Inr (Some (ip, DIRENT * j), s2)))"
  using assms(2)
proof (induction "entries dp s - k" arbitrary: k)
  case 0
  then show ?case using dir_size [OF assms(1)] by (simp add: lookup_from.simps)
next
  case (Suc m)
  then have k: "k < entries dp s" by simp
  have lt: "DIRENT * k < i_size (get_inode dp s)" using k dir_size [OF assms(1)] by (simp add: DIRENT_def)
  have e: "DIRENT * k + DIRENT = DIRENT * Suc k" by simp
  have "m = entries dp s - Suc k" "Suc k \<le> entries dp s" using Suc(2) k by simp_all
  note IH = Suc(1) [OF this, folded e]
  show ?case
    using lt IH readi_entry [OF assms(1) k]
    by (subst lookup_from.simps) (auto simp: upt_from [OF k] matches_def namecmp_key eq_commute [of "key nm"])
qed

lemma empty_from_find:
  assumes "dir_ok dp s" and "k \<le> entries dp s"
  shows "empty_from dp (i_size (get_inode dp s)) (DIRENT * k) s =
    Inr (DIRENT * (case find (\<lambda>k. de_inum (entry dp k s) = 0) [k..<entries dp s] of None \<Rightarrow> entries dp s | Some j \<Rightarrow> j), s)"
  using assms(2)
proof (induction "entries dp s - k" arbitrary: k)
  case 0
  then show ?case using dir_size [OF assms(1)] by (simp add: empty_from.simps)
next
  case (Suc m)
  then have k: "k < entries dp s" by simp
  have lt: "DIRENT * k < i_size (get_inode dp s)" using k dir_size [OF assms(1)] by (simp add: DIRENT_def)
  have e: "DIRENT * k + DIRENT = DIRENT * Suc k" by simp
  have "m = entries dp s - Suc k" "Suc k \<le> entries dp s" using Suc(2) k by simp_all
  note IH = Suc(1) [OF this, folded e]
  show ?case
    using lt IH readi_entry [OF assms(1) k] by (subst empty_from.simps) (auto simp: upt_from [OF k])
qed

lemma dirlookup_find:
  assumes "dir_ok dp s"
  shows "dirlookup dp nm s =
    (case dir_find dp nm s of
       None \<Rightarrow> Inr (None, s)
     | Some j \<Rightarrow> andthen (iget (i_dev (get_inode dp s)) (de_inum (entry dp j s)) s)
         (\<lambda>(ip, s2). Inr (Some (ip, DIRENT * j), s2)))"
  using lookup_from_find [OF assms, of 0 nm] assms by (simp add: dirlookup_def dir_ok_def dir_find_def)

text \<open>The same as a map.\<close>

lemma dirlookup_map:
  assumes "dir_ok dp s"
  shows "dir_map dp s nm = None \<Longrightarrow> dirlookup dp nm s = Inr (None, s)"
    and "dir_map dp s nm = Some k \<Longrightarrow>
      \<exists>off. dirlookup dp nm s = andthen (iget (i_dev (get_inode dp s)) k s) (\<lambda>(ip, t). Inr (Some (ip, off), t))"
  unfolding dirlookup_find [OF assms] dir_map_def by auto

lemma find_upt_Some: "find P [0..<n] = Some k \<longleftrightarrow> k < n \<and> P k \<and> (\<forall>i < k. \<not> P i)"
  by (auto simp: find_Some_iff)

lemma find_upt_None: "find P [0..<n] = None \<longleftrightarrow> (\<forall>k < n. \<not> P k)"
  by (auto simp: find_None_iff)

text \<open>One entry, unused before, changes.\<close>

lemma find_upt_change:
  assumes n: "j < n'" "n \<le> n'" "\<And>k. n \<le> k \<Longrightarrow> k < n' \<Longrightarrow> k = j" and j: "j < n \<Longrightarrow> \<not> P j"
    and P: "\<And>k. k < n' \<Longrightarrow> k \<noteq> j \<Longrightarrow> P' k = P k"
  shows "\<not> P' j \<Longrightarrow> find P' [0..<n'] = find P [0..<n]"
    and "P' j \<Longrightarrow> find P [0..<n] = None \<Longrightarrow> find P' [0..<n'] = Some j"
proof -
  have eq: "P' k = P k" if "k < n" "\<not> P' j" for k using P [of k] j n(2) that by (cases "k = j") auto
  have out: "\<not> P' k" if "n \<le> k" "k < n'" "\<not> P' j" for k using n(3) [OF that(1,2)] that(3) by simp
  show "find P' [0..<n'] = find P [0..<n]" if "\<not> P' j"
  proof (cases "find P [0..<n]")
    case None
    then have "\<forall>k < n'. \<not> P' k" using eq out that by (metis find_upt_None not_le)
    then show ?thesis using None find_upt_None [of P' n'] by simp
  next
    case (Some k)
    then have "k < n'" "P' k" "\<forall>i < k. \<not> P' i" using eq n(2) that by (auto simp: find_upt_Some)
    then show ?thesis using Some find_upt_Some [of P' n' k] by simp
  qed
  assume a: "P' j" "find P [0..<n] = None"
  have "\<not> P' i" if "i < j" for i
  proof -
    have "i < n"
    proof (rule ccontr)
      assume "\<not> i < n"
      then show False using n(3) [of i] n(1) that by simp
    qed
    then show ?thesis using P [of i] a(2) that n(1) by (auto simp: find_upt_None)
  qed
  then show "find P' [0..<n'] = Some j" using a(1) n(1) find_upt_Some [of P' n' j] by simp
qed

text \<open>The entry \<open>dirlink\<close> uses.\<close>

definition free_entry :: "nat \<Rightarrow> fsys \<Rightarrow> nat" where
  "free_entry dp s = (case find (\<lambda>k. de_inum (entry dp k s) = 0) [0..<entries dp s] of None \<Rightarrow> entries dp s | Some j \<Rightarrow> j)"

lemma free_entry_free:
  "free_entry dp s \<le> entries dp s" "free_entry dp s < entries dp s \<Longrightarrow> \<not> matches dp nm (free_entry dp s) s"
proof -
  have "free_entry dp s \<le> entries dp s \<and> (free_entry dp s < entries dp s \<longrightarrow> de_inum (entry dp (free_entry dp s) s) = 0)"
  proof (cases "find (\<lambda>k. de_inum (entry dp k s) = 0) [0..<entries dp s]")
    case (Some j)
    then have "j < entries dp s" "de_inum (entry dp j s) = 0" by (simp_all only: find_upt_Some)
    then show ?thesis using Some by (simp add: free_entry_def)
  qed (simp add: free_entry_def)
  then show "free_entry dp s \<le> entries dp s" "free_entry dp s < entries dp s \<Longrightarrow> \<not> matches dp nm (free_entry dp s) s"
    by (simp_all add: matches_def)
qed

text \<open>After entry \<open>j\<close> has been written.\<close>

lemma dir_map_update:
  assumes ok: "dir_ok dp s" and j: "j = free_entry dp s" and new: "entry dp j t = mk_dirent nm inum"
    and same: "\<And>k. k \<noteq> j \<Longrightarrow> k < entries dp t \<Longrightarrow> entry dp k t = entry dp k s" and n: "entries dp t = max (Suc j) (entries dp s)"
    and nm: "0 \<notin> set nm" "0 < inum" "inum < 2 ^ 16" "dir_map dp s nm = None"
  shows "dir_map dp t n = (if key n = key nm then Some inum else dir_map dp s n)"
proof -
  note F = free_entry_free [of dp s, folded j]
  have m: "matches dp n k t = (if k = j then key n = key nm else matches dp n k s)" if "k < entries dp t" for k
    using that same [of k] new mk_dirent_fields [OF nm(1,3)] nm(2) by (auto simp: matches_def)
  note C = find_upt_change [of j "entries dp t" "entries dp s" "\<lambda>k. matches dp n k s" "\<lambda>k. matches dp n k t"]
  have hyps: "j < entries dp t" "entries dp s \<le> entries dp t" "\<And>k. entries dp s \<le> k \<Longrightarrow> k < entries dp t \<Longrightarrow> k = j"
    using n F(1) by auto
  show ?thesis
  proof (cases "key n = key nm")
    case True
    then have "dir_find dp n s = None" using nm(4) by (simp add: dir_map_def dir_find_def matches_def)
    then have "dir_find dp n t = Some j"
      unfolding dir_find_def using True m hyps F(2) by (intro C(2)) auto
    then show ?thesis using True new mk_dirent_fields(1) [OF nm(1,3)] by (simp add: dir_map_def)
  next
    case False
    then have f: "dir_find dp n t = dir_find dp n s"
      unfolding dir_find_def using m hyps F(2) by (intro C(1)) auto
    moreover have "entry dp k t = entry dp k s" if "dir_find dp n t = Some k" for k
    proof -
      have "k < entries dp t" "matches dp n k t" using that by (auto simp: dir_find_def find_upt_Some)
      then have "k \<noteq> j" using m False by auto
      then show ?thesis using same \<open>k < entries dp t\<close> by blast
    qed
    ultimately show ?thesis using False by (cases "dir_find dp n s") (auto simp: dir_map_def)
  qed
qed

lemma entry_nth:
  assumes "\<And>x. DIRENT * k \<le> x \<Longrightarrow> x < DIRENT * k + DIRENT \<Longrightarrow> file_byte dp x t = f x"
  shows "entry dp k t = map f [DIRENT * k..<DIRENT * k + DIRENT]"
  using assms by (auto simp: entry_def)

text \<open>A directory entry has been written at entry \<open>j\<close>.\<close>

lemma entry_written:
  assumes ok: "dir_ok dp s" and w: "wrote dp (\<lambda>x. mk_dirent nm inum ! x) (DIRENT * j) DIRENT DIRENT s u"
    and j: "j \<le> entries dp s" "DIRENT * j + DIRENT \<le> maxbytes"
    and t: "t = iupdate dp (if DIRENT * j + DIRENT > i_size (get_inode dp u)
      then upd_inode dp (\<lambda>p. p\<lparr>i_size := DIRENT * j + DIRENT\<rparr>) u else u)"
  shows "dir_ok dp t" and "entry dp j t = mk_dirent nm inum"
    and "k \<noteq> j \<Longrightarrow> k < entries dp t \<Longrightarrow> entry dp k t = entry dp k s" and "entries dp t = max (Suc j) (entries dp s)"
    and "foreign dp b s \<Longrightarrow> blk t b = blk s b"
proof -
  have g: "grows dp s u" using w by (simp add: wrote_def)
  note I = grows_inode [OF g]
  have u: "disk_ok u" "file_ok dp u" "sblock u = sblock s" "\<forall>b. foreign dp b s \<longrightarrow> foreign dp b u \<and> blk u b = blk s b"
    "\<forall>k \<le> MAXFILE. slot dp k s \<noteq> 0 \<longrightarrow> slot dp k u = slot dp k s"
    "(get_inode dp u)\<lparr>i_addrs := []\<rparr> = (get_inode dp s)\<lparr>i_addrs := []\<rparr>"
    using g by (simp_all add: grows_def)
  have "i_inum (get_inode dp u) < sb_ninodes (sblock u)" using ok I u(3) by (simp add: dir_ok_def)
  note T = iupdate_keeps [OF u(1,2) this t]
  have size: "i_size (get_inode dp t) = DIRENT * max (Suc j) (entries dp s)"
    using T(6) I(1) dir_size [OF ok] by (simp add: nat_mult_max_right)
  then show n: "entries dp t = max (Suc j) (entries dp s)" by (simp add: entries_def DIRENT_def)
  have le: "i_size (get_inode dp t) \<le> maxbytes"
    using size j(2) dir_size [OF ok] ok by (auto simp: nat_mult_max_right dir_ok_def)
  have "slot dp (x div BSIZE) t \<noteq> 0" if x: "x < i_size (get_inode dp t)" for x
  proof (cases "x < i_size (get_inode dp s)")
    case True
    then have "slot dp (x div BSIZE) s \<noteq> 0" using ok by (simp add: dir_ok_def)
    moreover have "x div BSIZE < MAXFILE" using x le by (intro block_number) simp
    ultimately show ?thesis using T(3) u(5) by simp
  next
    case False
    then have "DIRENT * j \<le> x" "x < DIRENT * j + DIRENT"
      using x size dir_size [OF ok] j(1) by (auto simp: max_def DIRENT_def split: if_splits)
    then show ?thesis using w T(3) by (simp add: wrote_def)
  qed
  moreover have "i_type (get_inode dp t) = T_DIR" "i_inum (get_inode dp t) = i_inum (get_inode dp s)"
    using arg_cong [OF T(9), of i_type] arg_cong [OF T(9), of i_inum] arg_cong [OF u(6), of i_type] I ok
    by (simp_all add: dir_ok_def)
  ultimately show "dir_ok dp t" using T(1,2,8) u(3) ok le size by (simp add: dir_ok_def)
  have B: "file_byte dp x t = (if DIRENT * j \<le> x \<and> x < DIRENT * j + DIRENT then mk_dirent nm inum ! (x - DIRENT * j)
      else file_byte dp x s)" if "x < maxbytes" for x
    using w T(4) [OF that] that unfolding wrote_def by auto
  have "entry dp j t = map (\<lambda>x. mk_dirent nm inum ! (x - DIRENT * j)) [DIRENT * j..<DIRENT * j + DIRENT]"
    using B j(2) by (intro entry_nth) simp
  then show "entry dp j t = mk_dirent nm inum" by (simp add: list_eq_iff_nth_eq)
  show "entry dp k t = entry dp k s" if "k \<noteq> j" "k < entries dp t"
  proof -
    have "DIRENT * Suc k \<le> DIRENT * entries dp t" using that(2) by (intro mult_le_mono2) simp
    then have "DIRENT * k + DIRENT \<le> maxbytes" using le size n by simp
    moreover have "\<not> (DIRENT * j \<le> x \<and> x < DIRENT * j + DIRENT)" if "DIRENT * k \<le> x" "x < DIRENT * k + DIRENT" for x
      using that \<open>k \<noteq> j\<close> by (auto simp: DIRENT_def)
    ultimately have "entry dp k t = map (\<lambda>x. file_byte dp x s) [DIRENT * k..<DIRENT * k + DIRENT]"
      using B by (intro entry_nth) auto
    then show ?thesis by (simp add: entry_def)
  qed
  show "foreign dp b s \<Longrightarrow> blk t b = blk s b" using T(5) u(4) by simp
qed



section \<open>Path names\<close>

primrec split_slash :: "byte list \<Rightarrow> byte list list" where
  "split_slash [] = [[]]"
| "split_slash (c # cs) =
     (if c = slash then [] # split_slash cs else (c # hd (split_slash cs)) # tl (split_slash cs))"

definition elements :: "byte list \<Rightarrow> byte list list" where
  "elements path = map (take DIRSIZ) (filter (\<lambda>e. e \<noteq> []) (split_slash path))"

text \<open>\<open>namex\<close> by recursion on the list of elements.\<close>

primrec walk_names :: "bool \<Rightarrow> byte list list \<Rightarrow> byte list \<Rightarrow> nat \<Rightarrow> fsys \<Rightarrow> kerr + (nat option \<times> byte list) \<times> fsys" where
  "walk_names parent [] nm ip s =
     (if parent then andthen (iput ip s) (\<lambda>s1. Inr ((None, nm), s1)) else Inr ((Some ip, nm), s))"
| "walk_names parent (name # names) nm ip s =
     andthen (ilock ip s) (\<lambda>s1.
       if i_type (get_inode ip s1) \<noteq> T_DIR \<or> i_nlink (get_inode ip s1) = 0
       then andthen (iunlockput ip s1) (\<lambda>s2. Inr ((None, name), s2))
       else if parent \<and> names = [] then andthen (iunlock ip s1) (\<lambda>s2. Inr ((Some ip, name), s2))
       else andthen (dirlookup ip name s1) (\<lambda>(found, s2).
         andthen (iunlockput ip s2) (\<lambda>s3.
           case found of None \<Rightarrow> Inr ((None, name), s3) | Some (nxt, _) \<Rightarrow> walk_names parent names name nxt s3)))"

lemma split_slash_decomp:
  "split_slash p = takeWhile (\<lambda>c. c \<noteq> slash) p # (case dropWhile (\<lambda>c. c \<noteq> slash) p of [] \<Rightarrow> [] | _ # r \<Rightarrow> split_slash r)"
  by (induction p) auto

lemma elements_slashes: "elements (dropWhile (\<lambda>c. c = slash) p) = elements p"
  by (induction p) (auto simp: elements_def)

lemma elements_none: "elements p = [] \<longleftrightarrow> dropWhile (\<lambda>c. c = slash) p = []"
proof (induction p)
  case (Cons c p)
  then show ?case by (cases "c = slash") (simp_all add: elements_def)
qed (simp add: elements_def)

lemma skipelem_elements:
  shows "skipelem path = None \<longleftrightarrow> elements path = []"
    and "skipelem path = Some (nm, rest) \<Longrightarrow> elements path = nm # elements rest \<and> (rest = [] \<longleftrightarrow> elements rest = [])"
proof -
  show "skipelem path = None \<longleftrightarrow> elements path = []" by (simp add: skipelem_def Let_def elements_none)
  assume a: "skipelem path = Some (nm, rest)"
  define p where "p = dropWhile (\<lambda>c. c = slash) path"
  define q where "q = dropWhile (\<lambda>c. c \<noteq> slash) p"
  have p: "p \<noteq> []" "nm = take DIRSIZ (takeWhile (\<lambda>c. c \<noteq> slash) p)" "rest = dropWhile (\<lambda>c. c = slash) q"
    using a by (auto simp: skipelem_def Let_def p_def q_def split: if_splits)
  have "hd p \<noteq> slash" using p(1) hd_dropWhile [of "\<lambda>c. c = slash" path] by (auto simp: p_def)
  then have ne: "takeWhile (\<lambda>c. c \<noteq> slash) p \<noteq> []" using p(1) by (cases p) auto
  have q: "elements q = map (take DIRSIZ) (filter (\<lambda>e. e \<noteq> []) (case q of [] \<Rightarrow> [] | _ # r \<Rightarrow> split_slash r))"
  proof (cases q)
    case (Cons c r)
    then have "c = slash" using hd_dropWhile [of "\<lambda>c. c \<noteq> slash" p] by (auto simp: q_def)
    then show ?thesis using Cons by (simp add: elements_def)
  qed (simp add: elements_def)
  have "elements path = elements p" by (simp add: p_def elements_slashes)
  also have "\<dots> = nm # elements q"
    using ne q split_slash_decomp [of p, folded q_def] by (simp add: elements_def p(2))
  also have "elements q = elements rest" by (simp add: p(3) elements_slashes)
  finally show "elements path = nm # elements rest \<and> (rest = [] \<longleftrightarrow> elements rest = [])"
    by (auto simp: elements_none p(3))
qed

text \<open>
  C37. Resolving a path name visits exactly its elements: the non-empty parts between slashes, each
  cut to fourteen bytes. The loop of \<open>namex\<close> over the bytes of the path, with \<open>skipelem\<close>, is the
  walk over that list, for every path, with repeated, leading and trailing slashes, and stops one
  element early exactly when the parent is asked for.
\<close>

theorem namex_walks_elements:
  "namex_from parent path nm ip s = walk_names parent (elements path) nm ip s \<and>
   namex parent path cwd s =
     (if deref path = slash then andthen (iget ROOTDEV ROOTINO s) (\<lambda>(ip, t). walk_names parent (elements path) [] ip t)
      else walk_names parent (elements path) [] cwd (snd (idup cwd s)))"
proof -
  have w: "namex_from parent path nm ip s = walk_names parent (elements path) nm ip s" for nm ip s
  proof (induction "length path" arbitrary: path nm ip s rule: less_induct)
    case less
    show ?case
    proof (cases "skipelem path")
      case None
      then show ?thesis using skipelem_elements(1) [of path] by (simp add: namex_from.simps)
    next
      case (Some x)
      obtain name rest where x: "x = (name, rest)" by fastforce
      have e: "elements path = name # elements rest" "rest = [] \<longleftrightarrow> elements rest = []"
        using skipelem_elements(2) [of path name rest] Some x by auto
      have IH: "namex_from parent rest name nxt t = walk_names parent (elements rest) name nxt t" for nxt t
        using skipelem_shorter [of path name rest] Some x by (intro less) simp
      show ?thesis
        using Some x e(2) IH unfolding e(1) namex_from.simps [of parent path nm ip s]
        by (auto simp: andthen_def fun_eq_iff split: sum.split prod.split option.split)
    qed
  qed
  then show ?thesis by (simp add: namex_def idup_def andthen_def split: sum.split)
qed

end
