(* ===== verification/Spec2Isabelle.thy ===== *)
theory Spec2Isabelle
  imports Shell_Lexer Shell_Grammar Shell_Execution Shell_Peek Kernel_Process Kernel_Pagetable Kernel_Sysfile Kernel_Session Kernel_Names
begin

text \<open>
  A verification library for the two programs of this repository: the job-control shell under
  \<^verbatim>\<open>c-shell/\<close> and the xv6 kernel with its user programs under \<^verbatim>\<open>xv6/\<close> (paths are relative to
  \<^verbatim>\<open>src/\<close>). C functions are HOL functions over explicit states; a loop is a recursive function; a
  panic, a failed call and a write outside an array are values of a sum or option type; integers
  that may wrap keep their width.

  \<^bold>\<open>The shell.\<close> A line typed by the user passes through four stages. \<open>Shell_Lexer\<close> models \<open>convert\<close>
  of \<^verbatim>\<open>lexer.c\<close>: it rejects exactly the lines whose quotes do not close (for words that fit its
  buffer), returns well-formed tokens, and lexing what a printer of tokens writes gives the tokens
  back. \<open>Shell_Grammar\<close> models \<open>check\<close> of \<^verbatim>\<open>grammar.c\<close>, which accepts exactly the token lists of a
  context-free grammar. \<open>Shell_Jobs\<close> models the job table of \<^verbatim>\<open>activities.c\<close> with its signal handlers
  (\<open>sigchld\<close>, \<open>update_state\<close>, \<open>print_prs\<close>, \<open>add_job\<close>, \<open>resume\<close>, \<open>ping\<close>, \<open>send_sighup\<close>) as a transition system;
  what \<open>waitpid\<close> reports and when signals arrive are arguments. The lemmas show its invariant, that
  an exit is announced at most once, who can be sent a signal, and the effect of a stale timeout.
  \<open>Shell_Execution\<close> models \<open>execute\<close> of \<^verbatim>\<open>execution.c\<close>, with the search for programs of \<open>Shell_Locate\<close> (\<^verbatim>\<open>locate.c\<close>
  and \<open>path\<close> of \<^verbatim>\<open>execution.c\<close>) and the job table: it follows the file descriptors of the shell and of every
  process forked, and shows that starting a job leaves none behind, and which ones an error or a
  background job with several output files does leave. \<open>locate\<close> lists first the program that runs.
  \<open>Shell_Peek\<close> models \<^verbatim>\<open>peek.c\<close>: reading files backwards in chunks of 4096 bytes shows the lines of
  the file in reverse order.

  \<^bold>\<open>The kernel.\<close> \<open>C_Memory\<close> holds the byte memory and the routines of \<^verbatim>\<open>string.c\<close> and \<^verbatim>\<open>ulib.c\<close>.
  \<open>Kernel_Kalloc\<close> is the page allocator of \<^verbatim>\<open>kalloc.c\<close>, its free list threaded through the free pages.
  \<open>Kernel_Vm\<close> models \<^verbatim>\<open>vm.c\<close> on top of it, page tables included; \<open>Kernel_Pagetable\<close> shows that \<open>walk\<close> and
  \<open>mappages\<close> implement a map from virtual pages to entries. \<open>Kernel_Proc\<close> is the process table of \<^verbatim>\<open>proc.c\<close>
  and the clock interrupt of \<^verbatim>\<open>trap.c\<close>, for the three schedulers the kernel can be compiled with;
  \<open>Kernel_Sched\<close> proves what single operations do, \<open>Kernel_Runs\<close> defines the runs of the kernel and their
  invariants, \<open>Kernel_Process\<close> states the properties. \<open>Kernel_Bio\<close> models \<^verbatim>\<open>bio.c\<close> and proves the contract
  \<open>buffer_cache\<close> on it; \<open>Kernel_Log\<close> models \<^verbatim>\<open>log.c\<close> over that contract and proves that a commit is atomic
  for every point at which power may fail. \<open>Kernel_Fs\<close>, \<open>Kernel_Dir\<close>, \<open>Kernel_File\<close> and \<open>Kernel_Sysfile\<close> model
  \<^verbatim>\<open>fs.c\<close>, \<^verbatim>\<open>file.c\<close>, \<^verbatim>\<open>pipe.c\<close> and \<^verbatim>\<open>sysfile.c\<close> over one map from block numbers to contents;
  \<open>Kernel_Session\<close> shows that a read-change-write-release session of the detailed cache and log does to
  the contents of the disk what that map says. \<open>Kernel_Inode\<close> treats the block allocator and the inode
  format, \<open>Kernel_Contents\<close> files as byte functions, \<open>Kernel_Names\<close> directories as maps and paths as lists
  of names. \<open>Kernel_Pipe\<close> shows that a pipe is a bounded queue whatever the interleaving of readers and
  writers.

  \<^bold>\<open>Interfaces.\<close> The locale \<open>safety\<close> carries an invariant along a step relation and is interpreted for
  the job table, the log, the kernel's runs, pipes and the page allocator. \<open>buffer_cache\<close> is what the log
  needs of the cache. \<open>policy_contract\<close> is what the runs need of a scheduler, interpreted for each of the
  three. \<open>bounded_queue\<close> is the contract of a pipe.

  \<^bold>\<open>Locks and blocking.\<close> A section that runs under a spin lock is one step. A call that would sleep
  returns a value that says so and is tried again; an interleaving is a sequence of steps.

  \<^bold>\<open>Bounds.\<close> Loops that follow C strings are partial functions, \<open>None\<close> when no NUL comes; they return
  for NUL-terminated strings. \<open>freewalk\<close> takes the depth it may recurse to, three for a page table.
  Paths and names are lists of bytes, so their loops end.

  \<^bold>\<open>Not modelled.\<close> Of the shell: the loop of \<^verbatim>\<open>main.c\<close>, which is terminal input and the dispatch to the
  built-ins; \<^verbatim>\<open>shell_prompt.c\<close> and \<^verbatim>\<open>reveal.c\<close>, which print what the host reports; \<^verbatim>\<open>hop.c\<close>, whose ranking is
  floating-point arithmetic and an unstable \<open>qsort\<close>; \<open>spy\<close> and \<open>snoop\<close>, which read \<^verbatim>\<open>/proc\<close> and trace
  processes of the host. Of the kernel: device drivers, the console and printing, boot code, assembly and the
  registers of the CPU (\<open>kvminithart\<close> among them), since their meaning is that of the hardware; spin
  locks, which the atomic steps stand for; \<^verbatim>\<open>exec.c\<close> and the dispatch of system calls in \<^verbatim>\<open>syscall.c\<close>, and with
  them \<open>sys_exec\<close>; the context switch and the return to user space. Concurrency of several CPUs inside a
  locked section is not modelled, nor weak memory. User programs other than the library routines, the
  tests and the host tools are left out.
\<close>

end
